(* ===== verification/Nstore_Prelude.thy ===== *)
theory Nstore_Prelude
  imports Main "HOL-Library.Word" "HOL-Library.List_Lexorder" "HOL-Library.AList"
    "HOL-Library.Multiset"
begin

text \<open>
  Shared vocabulary of the development: the integer types of common.h, the
  three-way comparison the key order is stated with, the little-endian layout
  of a 64-bit integer, memcmp, and the generic facts on words, sorted lists and
  association lists that the component theories use.
\<close>

unbundle bit_operations_syntax

named_theorems key_simps \<open>reading and updating the fields of a key\<close>
named_theorems store_laws \<open>what the operations of the store promise\<close>

subsection \<open>The integer types of common.h\<close>

type_synonym i64 = "64 word"
type_synonym i16 = "16 word"
type_synonym u8 = "8 word"
type_synonym u32 = "32 word"
type_synonym u64 = "64 word"

subsection \<open>Three-way comparison\<close>

text \<open>The sign a comparison function returns for two elements of a linear order.\<close>

definition ord_of :: "'a::linorder \<Rightarrow> 'a \<Rightarrow> int" where
  "ord_of x y = (if x < y then -1 else if x = y then 0 else 1)"

lemma ord_of_refl [simp]: "ord_of x x = 0"
  by (simp add: ord_of_def)

lemma ord_of_zero_iff [simp]: "ord_of x y = 0 \<longleftrightarrow> x = y"
  by (simp add: ord_of_def)

lemma ord_of_neg_iff: "ord_of x y < 0 \<longleftrightarrow> x < y"
  by (simp add: ord_of_def)

lemma ord_of_pos_iff: "0 < ord_of x y \<longleftrightarrow> y < x"
  by (auto simp: ord_of_def)

lemma ord_of_swap: "ord_of y x = - ord_of x y"
  by (auto simp: ord_of_def)

lemma ord_of_Cons:
  "ord_of (x # xs) (y # ys) = (if x \<noteq> y then ord_of x y else ord_of xs ys)"
  by (auto simp: ord_of_def)

lemma ord_of_append:
  fixes xs ys us vs :: "'a::linorder list"
  assumes "length xs = length ys"
  shows "ord_of (xs @ us) (ys @ vs) = (if xs \<noteq> ys then ord_of xs ys else ord_of us vs)"
  using assms by (induction xs ys rule: list_induct2) (auto simp: ord_of_Cons)

lemma ord_of_append_same [simp]: "ord_of (xs @ us) (xs @ vs) = ord_of us vs"
  by (simp add: ord_of_append)

lemma sgn_diff_ord_of:
  fixes a b :: int
  shows "sgn (a - b) = ord_of a b"
  by (simp add: ord_of_def sgn_if)

subsection \<open>Signed values in a window\<close>

text \<open>
  The difference of two signed 64-bit values survives the truncation to a
  32-bit int when both lie in the window.
\<close>

definition in_window :: "i64 \<Rightarrow> bool" where
  "in_window w \<longleftrightarrow> - (2 ^ 30) \<le> sint w \<and> sint w < 2 ^ 30"

lemma in_window_code [code]:
  "in_window w \<longleftrightarrow> - 1073741824 \<le> sint w \<and> sint w < 1073741824"
  by (simp add: in_window_def)

lemma uint_eq_iff [simp]: "uint (x :: 'a::len word) = uint y \<longleftrightarrow> x = y"
  by (auto intro: word_uint_eqI)

lemma sint_eq_iff [simp]: "sint (x :: 'a::len word) = sint y \<longleftrightarrow> x = y"
  by (auto intro: signed_word_eqI)

lemma word_diff_of_sint: "(x :: i64) - y = word_of_int (sint x - sint y)"
  by simp

lemma ucast_word_of_int_32: "(ucast (word_of_int k :: i64) :: u32) = word_of_int k"
  by (rule bit_word_eqI) (simp add: bit_simps)

lemma sint_word_of_int_32:
  assumes "- (2 ^ 31) \<le> k" and "k < 2 ^ 31"
  shows "sint (word_of_int k :: u32) = k"
  using assms by (simp add: signed_of_int signed_take_bit_int_eq_self)

lemma window_diff:
  assumes "in_window x" and "in_window y"
  shows "sint (ucast (x - y) :: u32) = sint x - sint y"
proof -
  have "(ucast (x - y) :: u32) = word_of_int (sint x - sint y)"
    by (simp only: word_diff_of_sint ucast_word_of_int_32)
  moreover have "- (2 ^ 31) \<le> sint x - sint y" "sint x - sint y < 2 ^ 31"
    using assms by (auto simp: in_window_def)
  ultimately show ?thesis by (simp only: sint_word_of_int_32)
qed

subsection \<open>Bytes\<close>

text \<open>
  A byte is a \<^typ>\<open>char\<close>. \<open>le_bytes n x\<close> is the little-endian layout of
  \<open>x\<close> on \<open>n\<close> bytes, \<open>le_int\<close> reads it back; \<open>memcmp\<close> compares two
  buffers of one length as unsigned bytes (its sign is all the standard fixes,
  so the model returns -1, 0 or 1).
\<close>

type_synonym byte = char
type_synonym bytes = "char list"

fun le_bytes :: "nat \<Rightarrow> int \<Rightarrow> bytes" where
  "le_bytes 0 x = []"
| "le_bytes (Suc n) x = char_of x # le_bytes n (x div 256)"

fun le_int :: "bytes \<Rightarrow> int" where
  "le_int [] = 0"
| "le_int (b # bs) = of_char b + 256 * le_int bs"

fun memcmp :: "bytes \<Rightarrow> bytes \<Rightarrow> int" where
  "memcmp (a # as) (b # bs) =
     (if a = b then memcmp as bs
      else if (of_char a :: int) < of_char b then -1 else 1)"
| "memcmp _ _ = 0"

definition byte_ranks :: "bytes \<Rightarrow> int list" where
  "byte_ranks bs = map of_char bs"

lemma length_le_bytes [simp]: "length (le_bytes n x) = n"
  by (induction n arbitrary: x) auto

lemma le_int_le_bytes: "le_int (le_bytes n x) = x mod 256 ^ n"
proof (induction n arbitrary: x)
  case 0
  show ?case by simp
next
  case (Suc n)
  have "x mod (256 * 256 ^ n) = 256 * (x div 256 mod 256 ^ n) + x mod 256"
    by (simp add: zmod_zmult2_eq)
  then show ?case by (simp add: Suc.IH)
qed

lemma le_int_bounds: "0 \<le> le_int bs \<and> le_int bs < 256 ^ length bs"
proof (induction bs)
  case Nil
  show ?case by simp
next
  case (Cons b bs)
  have "0 \<le> (of_char b :: int)" and "(of_char b :: int) < 256"
    by (simp_all add: of_char_def horner_sum_bound)
  with Cons show ?case by auto
qed

lemma length_byte_ranks [simp]: "length (byte_ranks bs) = length bs"
  by (simp add: byte_ranks_def)

lemma byte_ranks_inj [simp]: "byte_ranks as = byte_ranks bs \<longleftrightarrow> as = bs"
  by (simp add: byte_ranks_def inj_map_eq_map inj_def)

lemma memcmp_ord_of:
  "length as = length bs \<Longrightarrow> memcmp as bs = ord_of (byte_ranks as) (byte_ranks bs)"
  by (induction as bs rule: memcmp.induct) (auto simp: byte_ranks_def ord_of_Cons ord_of_def)

lemma memcmp_zero_iff: "length as = length bs \<Longrightarrow> memcmp as bs = 0 \<longleftrightarrow> as = bs"
  by (simp add: memcmp_ord_of)

end
