(* ===== verification/Keys.thy ===== *)
theory Keys
  imports Nstore_Prelude
begin

text \<open>
  The keys of the store: the enumerations and the structs of db.h and the
  comparison function \<open>custom_key_compare\<close> of db.cpp that the store orders its
  entries with. The main result is that on keys whose fields lie in a window the
  comparison is the lexicographic order of \<open>key_rank\<close>; outside the window the
  truncation of the 64-bit difference to an int breaks it.
\<close>

subsection \<open>Constants of db.h\<close>

type_synonym entity_t = i64
type_synonym attribute_t = i64
type_synonym transaction_t = i64
type_synonym namespace_t = u32

definition SORT_E :: u8 where [simp]: "SORT_E = 0"
definition SORT_A :: u8 where [simp]: "SORT_A = 1"
definition SORT_V :: u8 where [simp]: "SORT_V = 2"
definition SORT_T :: u8 where [simp]: "SORT_T = 3"

definition MAKE_SORT :: "u8 \<Rightarrow> u8 \<Rightarrow> u8 \<Rightarrow> u8 \<Rightarrow> u8" where
  "MAKE_SORT s1 s2 s3 s4 = s1 OR push_bit 2 s2 OR push_bit 4 s3 OR push_bit 6 s4"

definition SORT_EATV :: u8 where "SORT_EATV = MAKE_SORT SORT_E SORT_A SORT_T SORT_V"
definition SORT_AETV :: u8 where "SORT_AETV = MAKE_SORT SORT_A SORT_E SORT_T SORT_V"

definition KEY_META :: u8 where [simp]: "KEY_META = 0"
definition KEY_UNIQUE :: u8 where [simp]: "KEY_UNIQUE = 1"
definition KEY_TX_LOG :: u8 where [simp]: "KEY_TX_LOG = 2"
definition KEY_MIN_SENTINEL :: u8 where [simp]: "KEY_MIN_SENTINEL = 3"
definition KEY_INTEGER :: u8 where [simp]: "KEY_INTEGER = 4"
definition KEY_BLOB :: u8 where [simp]: "KEY_BLOB = 5"

subsection \<open>The key struct\<close>

text \<open>
  The union \<open>value\<close> is its 32 bytes; \<open>v_i\<close> reads its \<open>int64_t\<close> member (the
  first eight bytes, little-endian) and \<open>set_v_i\<close> writes it, leaving the other
  24 bytes as they are.
\<close>

type_synonym key_value = bytes

definition v_i :: "key_value \<Rightarrow> i64" where
  "v_i v = word_of_int (le_int (take 8 v))"

definition set_v_i :: "i64 \<Rightarrow> key_value \<Rightarrow> key_value" where
  "set_v_i w v = le_bytes 8 (uint w) @ drop 8 v"

record custom_key =
  ck_ns :: namespace_t
  ck_type :: u8
  ck_sort :: u8
  ck_pad :: i16
  ck_e :: entity_t
  ck_a :: attribute_t
  ck_t :: transaction_t
  ck_v :: key_value

text \<open>The initialiser \<open>custom_key ck = {0}\<close>.\<close>

definition zero_value :: key_value where
  "zero_value = replicate 32 (CHR 0x00)"

definition zero_key :: custom_key where
  "zero_key = \<lparr>ck_ns = 0, ck_type = 0, ck_sort = 0, ck_pad = 0,
     ck_e = 0, ck_a = 0, ck_t = 0, ck_v = zero_value\<rparr>"

subsection \<open>The comparison function\<close>

text \<open>The conversion of the \<open>int64_t cmp\<close> to the \<open>int\<close> the function returns.\<close>

definition ret_int :: "i64 \<Rightarrow> int" where
  "ret_int c = sint (ucast c :: u32)"

definition u8_diff :: "u8 \<Rightarrow> u8 \<Rightarrow> i64" where
  "u8_diff x y = word_of_int (uint x - uint y)"

definition i16_diff :: "i16 \<Rightarrow> i16 \<Rightarrow> i64" where
  "i16_diff x y = word_of_int (sint x - sint y)"

text \<open>
  One iteration of the loop over \<open>sorting\<close>: the value of \<open>cmp\<close> after the switch
  on the selected field; \<open>value_cmp\<close> is its case \<open>SORT_V\<close>.
\<close>

definition value_cmp :: "custom_key \<Rightarrow> custom_key \<Rightarrow> i64" where
  "value_cmp cka ckb =
     (let cmp = u8_diff (ck_type cka) (ck_type ckb) in
      if cmp \<noteq> 0 then cmp
      else if ck_type cka = KEY_INTEGER then v_i (ck_v cka) - v_i (ck_v ckb)
      else if ck_type cka = KEY_BLOB then
        (let cmp = i16_diff (ck_pad cka) (ck_pad ckb) in
         if cmp \<noteq> 0 then cmp
         else word_of_int (memcmp (ck_v cka) (ck_v ckb)))
      else cmp)"

definition field_cmp :: "u8 \<Rightarrow> custom_key \<Rightarrow> custom_key \<Rightarrow> i64" where
  "field_cmp s cka ckb =
     (if s = SORT_E then ck_e cka - ck_e ckb
      else if s = SORT_A then ck_a cka - ck_a ckb
      else if s = SORT_T then ck_t cka - ck_t ckb
      else value_cmp cka ckb)"

fun sort_loop :: "nat \<Rightarrow> u8 \<Rightarrow> custom_key \<Rightarrow> custom_key \<Rightarrow> int" where
  "sort_loop 0 sorting cka ckb = 0"
| "sort_loop (Suc i) sorting cka ckb =
     (let cmp = field_cmp (sorting AND 3) cka ckb in
      if cmp \<noteq> 0 then ret_int cmp
      else sort_loop i (drop_bit 2 sorting) cka ckb)"

definition compare_sorted :: "custom_key \<Rightarrow> custom_key \<Rightarrow> int" where
  "compare_sorted cka ckb =
     (let cmp = u8_diff (ck_sort cka) (ck_sort ckb) in
      if cmp \<noteq> 0 then ret_int cmp
      else sort_loop 4 (ck_sort cka) cka ckb)"

definition custom_key_compare :: "custom_key \<Rightarrow> custom_key \<Rightarrow> int" where
  "custom_key_compare cka ckb =
     (let cmp = (ucast (ck_ns cka - ck_ns ckb) :: i64) in
      if cmp \<noteq> 0 then ret_int cmp
      else if ck_type cka < KEY_MIN_SENTINEL \<or> ck_type ckb < KEY_MIN_SENTINEL then
        (let cmp = u8_diff (ck_type cka) (ck_type ckb) in
         if cmp \<noteq> 0 then ret_int cmp
         else if ck_type cka = KEY_META then ret_int (ck_e cka - ck_e ckb)
         else if ck_type cka = KEY_UNIQUE then
           (let cmp = ck_a cka - ck_a ckb in
            if cmp \<noteq> 0 then ret_int cmp else memcmp (ck_v cka) (ck_v ckb))
         else if ck_type cka = KEY_TX_LOG then ret_int (ck_t cka - ck_t ckb)
         else compare_sorted cka ckb)
      else compare_sorted cka ckb)"

subsection \<open>The order the comparison is meant to compute\<close>

definition value_rank :: "custom_key \<Rightarrow> int list" where
  "value_rank k = uint (ck_type k) #
     (if ck_type k = KEY_INTEGER then [sint (v_i (ck_v k))]
      else if ck_type k = KEY_BLOB then sint (ck_pad k) # byte_ranks (ck_v k)
      else [])"

definition field_rank :: "u8 \<Rightarrow> custom_key \<Rightarrow> int list" where
  "field_rank s k =
     (if s = SORT_E then [sint (ck_e k)]
      else if s = SORT_A then [sint (ck_a k)]
      else if s = SORT_T then [sint (ck_t k)]
      else value_rank k)"

fun sort_rank :: "nat \<Rightarrow> u8 \<Rightarrow> custom_key \<Rightarrow> int list" where
  "sort_rank 0 sorting k = []"
| "sort_rank (Suc i) sorting k =
     field_rank (sorting AND 3) k @ sort_rank i (drop_bit 2 sorting) k"

definition key_rank :: "custom_key \<Rightarrow> int list" where
  "key_rank k = uint (ck_ns k) #
     (if ck_type k < KEY_MIN_SENTINEL then
        uint (ck_type k) #
        (if ck_type k = KEY_META then [sint (ck_e k)]
         else if ck_type k = KEY_UNIQUE then sint (ck_a k) # byte_ranks (ck_v k)
         else [sint (ck_t k)])
      else 3 # uint (ck_sort k) # sort_rank 4 (ck_sort k) k)"

text \<open>The keys on which the comparison computes that order.\<close>

definition key_ok :: "custom_key \<Rightarrow> bool" where
  "key_ok k \<longleftrightarrow> length (ck_v k) = 32 \<and> uint (ck_ns k) < 2 ^ 31 \<and>
     in_window (ck_e k) \<and> in_window (ck_a k) \<and> in_window (ck_t k) \<and>
     (ck_type k = KEY_INTEGER \<longrightarrow> in_window (v_i (ck_v k)))"

subsection \<open>The union member round trip\<close>

lemma length_zero_value [simp]: "length zero_value = 32"
  by (simp add: zero_value_def)

lemma length_set_v_i [simp]: "length v = 32 \<Longrightarrow> length (set_v_i w v) = 32"
  by (simp add: set_v_i_def)

lemma v_i_set_v_i [simp]: "v_i (set_v_i w v) = w"
proof -
  have "le_int (take 8 (set_v_i w v)) = uint w mod 256 ^ 8"
    by (simp add: set_v_i_def le_int_le_bytes)
  also have "\<dots> = uint w"
    using uint_bounded [of w] by (simp add: mod_pos_pos_trivial)
  finally show ?thesis by (simp add: v_i_def)
qed

lemma SORT_EATV_eq [simp]: "SORT_EATV = 180"
  by (simp add: SORT_EATV_def MAKE_SORT_def)

lemma SORT_AETV_eq [simp]: "SORT_AETV = 177"
  by (simp add: SORT_AETV_def MAKE_SORT_def)

subsection \<open>The comparison computes the order of the ranks\<close>

lemma ret_int_diff:
  "in_window x \<Longrightarrow> in_window y \<Longrightarrow> sgn (ret_int (x - y)) = ord_of (sint x) (sint y)"
  by (simp add: ret_int_def window_diff sgn_diff_ord_of)

lemma ret_int_small:
  assumes "- (2 ^ 31) \<le> k" and "k < 2 ^ 31"
  shows "ret_int (word_of_int k) = k"
  by (simp only: ret_int_def ucast_word_of_int_32 sint_word_of_int_32 [OF assms])

lemma word_of_int_small_zero:
  assumes "- (2 ^ 31) \<le> k" and "k < 2 ^ 31"
  shows "(word_of_int k :: i64) = 0 \<longleftrightarrow> k = 0"
  using ret_int_small [OF assms] by (auto simp: ret_int_def)

lemma uint_u8_bounds: "0 \<le> uint (x :: u8) \<and> uint x < 256"
  using uint_bounded [of x] by simp

lemma small_bounds:
  assumes "- 2147483648 \<le> k" and "k < 2147483648"
  shows "- (2 ^ 31) \<le> k" and "k < (2 :: int) ^ 31"
  using assms by simp_all

lemma uint_u8_diff_bounds:
  "- (2 ^ 31) \<le> uint (x :: u8) - uint (y :: u8)" "uint x - uint y < 2 ^ 31"
  using uint_u8_bounds [of x] uint_u8_bounds [of y] by (intro small_bounds; linarith)+

lemma u8_diff_zero [simp]: "u8_diff x y = 0 \<longleftrightarrow> x = y"
proof -
  have "u8_diff x y = 0 \<longleftrightarrow> uint x - uint y = 0"
    unfolding u8_diff_def
    by (rule word_of_int_small_zero [OF uint_u8_diff_bounds])
  then show ?thesis by simp
qed

lemma ret_int_u8_diff: "sgn (ret_int (u8_diff x y)) = ord_of (uint x) (uint y)"
proof -
  have "ret_int (u8_diff x y) = uint x - uint y"
    unfolding u8_diff_def
    by (rule ret_int_small [OF uint_u8_diff_bounds])
  then show ?thesis by (simp add: sgn_diff_ord_of)
qed

lemma ucast_ucast_32: "(ucast (ucast (x :: u32) :: i64) :: u32) = x"
  by (rule bit_word_eqI) (simp add: bit_simps)

lemma ucast_u32_zero [simp]: "(ucast (x :: u32) :: i64) = 0 \<longleftrightarrow> x = 0"
proof
  assume "(ucast x :: i64) = 0"
  then have "(ucast (ucast x :: i64) :: u32) = 0" by simp
  then show "x = 0" by (simp only: ucast_ucast_32)
qed simp

lemma ret_int_ns:
  assumes "uint x < 2 ^ 31" and "uint y < 2 ^ 31"
  shows "sgn (ret_int (ucast (x - y :: u32))) = ord_of (uint x) (uint y)"
proof -
  have "ret_int (ucast (x - y)) = sint (x - y)"
    by (simp add: ret_int_def ucast_ucast_32)
  also have "x - y = word_of_int (uint x - uint y)" by simp
  also have "sint \<dots> = uint x - uint y"
    using assms uint_nonnegative [of x] uint_nonnegative [of y]
    by (intro sint_word_of_int_32) linarith+
  finally show ?thesis by (simp add: sgn_diff_ord_of)
qed

lemma sint_i16_bounds: "- 32768 \<le> sint (x :: i16) \<and> sint x < 32768"
  using sint_greater_eq [of x] sint_less [of x] by simp

lemma sint_i16_diff_bounds:
  "- (2 ^ 31) \<le> sint (x :: i16) - sint (y :: i16)" "sint x - sint y < 2 ^ 31"
  using sint_i16_bounds [of x] sint_i16_bounds [of y] by (intro small_bounds; linarith)+

lemma i16_diff_zero [simp]: "i16_diff x y = 0 \<longleftrightarrow> x = y"
proof -
  have "i16_diff x y = 0 \<longleftrightarrow> sint x - sint y = 0"
    unfolding i16_diff_def by (rule word_of_int_small_zero [OF sint_i16_diff_bounds])
  then show ?thesis by simp
qed

lemma ret_int_i16_diff: "sgn (ret_int (i16_diff x y)) = ord_of (sint x) (sint y)"
proof -
  have "ret_int (i16_diff x y) = sint x - sint y"
    unfolding i16_diff_def by (rule ret_int_small [OF sint_i16_diff_bounds])
  then show ?thesis by (simp add: sgn_diff_ord_of)
qed

lemma ord_of_bounds: "- 1 \<le> ord_of x y \<and> ord_of x y \<le> 1"
  by (simp add: ord_of_def)

lemma ret_int_ord_of [simp]: "ret_int (word_of_int (ord_of x y)) = ord_of x y"
  by (rule ret_int_small) (use ord_of_bounds [of x y] in auto)

lemma word_of_int_ord_of_zero [simp]: "(word_of_int (ord_of x y) :: i64) = 0 \<longleftrightarrow> x = y"
  using word_of_int_small_zero [of "ord_of x y"] ord_of_bounds [of x y] by simp

lemma sgn_ord_of [simp]: "sgn (ord_of x y) = ord_of x y"
  by (simp add: ord_of_def)

lemmas cmp_rules = ret_int_diff ret_int_u8_diff ret_int_ns ret_int_i16_diff
  memcmp_ord_of ord_of_Cons

lemma value_cmp_zero:
  assumes "key_ok a" and "key_ok b"
  shows "value_cmp a b = 0 \<longleftrightarrow> value_rank a = value_rank b"
proof (cases "ck_type a = ck_type b")
  case True
  with assms show ?thesis
    by (simp add: value_cmp_def value_rank_def key_ok_def Let_def cmp_rules)
next
  case False
  then show ?thesis by (simp add: value_cmp_def value_rank_def Let_def)
qed

lemma value_cmp_sgn:
  assumes "key_ok a" and "key_ok b"
  shows "sgn (ret_int (value_cmp a b)) = ord_of (value_rank a) (value_rank b)"
proof (cases "ck_type a = ck_type b")
  case True
  with assms show ?thesis
    by (simp add: value_cmp_def value_rank_def key_ok_def Let_def cmp_rules)
next
  case False
  then show ?thesis by (simp add: value_cmp_def value_rank_def Let_def cmp_rules)
qed

lemma field_cmp_zero:
  assumes "key_ok a" and "key_ok b"
  shows "field_cmp s a b = 0 \<longleftrightarrow> field_rank s a = field_rank s b"
  by (simp add: field_cmp_def field_rank_def value_cmp_zero assms)

lemma field_cmp_sgn:
  assumes "key_ok a" and "key_ok b"
  shows "sgn (ret_int (field_cmp s a b)) = ord_of (field_rank s a) (field_rank s b)"
  using assms
  by (simp add: field_cmp_def field_rank_def value_cmp_sgn cmp_rules key_ok_def)

lemma value_rank_append:
  assumes "key_ok a" and "key_ok b"
  shows "ord_of (value_rank a @ us) (value_rank b @ vs) =
    (if value_rank a \<noteq> value_rank b then ord_of (value_rank a) (value_rank b)
     else ord_of us vs)"
proof (cases "ck_type a = ck_type b")
  case True
  with assms have "length (value_rank a) = length (value_rank b)"
    by (simp add: value_rank_def key_ok_def)
  then show ?thesis by (rule ord_of_append)
next
  case False
  then show ?thesis by (simp add: value_rank_def ord_of_Cons)
qed

lemma field_rank_append:
  assumes "key_ok a" and "key_ok b"
  shows "ord_of (field_rank s a @ us) (field_rank s b @ vs) =
    (if field_rank s a \<noteq> field_rank s b then ord_of (field_rank s a) (field_rank s b)
     else ord_of us vs)"
  by (simp add: field_rank_def ord_of_Cons value_rank_append [OF assms])

lemma sort_loop_sgn:
  assumes "key_ok a" and "key_ok b"
  shows "sgn (sort_loop i sorting a b) = ord_of (sort_rank i sorting a) (sort_rank i sorting b)"
  by (induction i arbitrary: sorting)
    (simp_all add: Let_def field_rank_append field_cmp_zero field_cmp_sgn assms)

lemma compare_sorted_sgn:
  assumes "key_ok a" and "key_ok b"
  shows "sgn (compare_sorted a b) =
    ord_of (uint (ck_sort a) # sort_rank 4 (ck_sort a) a)
      (uint (ck_sort b) # sort_rank 4 (ck_sort b) b)"
  by (auto simp: compare_sorted_def Let_def ord_of_Cons ret_int_u8_diff sort_loop_sgn assms)

lemma uint_type_ge: "\<not> ck_type k < 3 \<Longrightarrow> 3 \<le> uint (ck_type k)"
  by (simp add: word_less_def)

lemma uint_type_less: "ck_type k < 3 \<Longrightarrow> uint (ck_type k) < 3"
  by (simp add: word_less_def)

lemma type_cases:
  assumes "ck_type k < 3"
  obtains "ck_type k = 0" | "ck_type k = 1" | "ck_type k = 2"
proof -
  have "uint (ck_type k) = 0 \<or> uint (ck_type k) = 1 \<or> uint (ck_type k) = 2"
    using uint_type_less [OF assms] uint_nonnegative [of "ck_type k"] by linarith
  then show ?thesis
  proof (elim disjE)
    assume "uint (ck_type k) = 0" then show ?thesis by (intro that(1) word_uint_eqI) simp
  next
    assume "uint (ck_type k) = 1" then show ?thesis by (intro that(2) word_uint_eqI) simp
  next
    assume "uint (ck_type k) = 2" then show ?thesis by (intro that(3) word_uint_eqI) simp
  qed
qed

text \<open>
  The comparison of two keys in the window has the sign of the order of their
  ranks.
\<close>

lemma compare_rank:
  assumes "key_ok a" and "key_ok b"
  shows "sgn (custom_key_compare a b) = ord_of (key_rank a) (key_rank b)"
proof (cases "ck_ns a = ck_ns b")
  case False
  with assms show ?thesis
    by (simp add: custom_key_compare_def Let_def key_rank_def ord_of_Cons ret_int_ns key_ok_def)
next
  case ns: True
  show ?thesis
  proof (cases "ck_type a < 3 \<or> ck_type b < 3")
    case False
    then show ?thesis
      by (simp add: custom_key_compare_def key_rank_def ns ord_of_Cons compare_sorted_sgn assms)
  next
    case small: True
    show ?thesis
    proof (cases "ck_type a = ck_type b")
      case False
      with small ns show ?thesis
        using uint_type_ge [of a] uint_type_ge [of b] uint_type_less [of a] uint_type_less [of b]
        by (auto simp: custom_key_compare_def Let_def key_rank_def ord_of_Cons ret_int_u8_diff
            ord_of_def)
    next
      case True
      with small have "ck_type a < 3" by simp
      then show ?thesis
        by (rule type_cases)
          (use assms True ns in \<open>auto simp: custom_key_compare_def Let_def key_rank_def cmp_rules
            key_ok_def\<close>)
    qed
  qed
qed

end
