(* ===== verification/Lmdb.thy ===== *)
theory Lmdb
  imports Nstore_Prelude
begin

text \<open>
  The part of liblmdb the program calls, over any key type and any comparison
  function (\<open>mdb_set_compare\<close>). The B+tree is flattened to the ordered sequence
  of its leaf nodes, as in a tree whose root is a leaf page: a cursor is an index
  into it. Page allocation is not modelled; where it can fail, the outcome is
  taken from a schedule of return codes (\<open>mt_faults\<close>, an empty schedule means
  that nothing fails), and a failed write marks the transaction as
  \<open>MDB_TXN_ERROR\<close>, after which every call returns \<open>MDB_BAD_TXN\<close>. Memory that
  \<open>MDB_RESERVE\<close> hands out uninitialised (\<open>MDB_NOMEMINIT\<close>) holds arbitrary
  bytes (\<open>mt_junk\<close>).
\<close>

subsection \<open>Return codes and flags\<close>

definition MDB_SUCCESS :: int where [simp]: "MDB_SUCCESS = 0"
definition MDB_KEYEXIST :: int where [simp]: "MDB_KEYEXIST = -30799"
definition MDB_NOTFOUND :: int where [simp]: "MDB_NOTFOUND = -30798"
definition MDB_INCOMPATIBLE :: int where [simp]: "MDB_INCOMPATIBLE = -30784"
definition MDB_BAD_TXN :: int where [simp]: "MDB_BAD_TXN = -30782"
definition EINVAL :: int where [simp]: "EINVAL = 22"

definition MDB_NOOVERWRITE :: u32 where [simp]: "MDB_NOOVERWRITE = 0x10"
definition MDB_NODUPDATA :: u32 where [simp]: "MDB_NODUPDATA = 0x20"
definition MDB_CURRENT :: u32 where [simp]: "MDB_CURRENT = 0x40"
definition MDB_NOSPILL :: u32 where [simp]: "MDB_NOSPILL = 0x8000"
definition MDB_RESERVE :: u32 where [simp]: "MDB_RESERVE = 0x10000"
definition MDB_APPEND :: u32 where [simp]: "MDB_APPEND = 0x20000"
definition MDB_APPENDDUP :: u32 where [simp]: "MDB_APPENDDUP = 0x40000"
definition MDB_MULTIPLE :: u32 where [simp]: "MDB_MULTIPLE = 0x80000"
definition F_SUBDATA :: u32 where [simp]: "F_SUBDATA = 2"

subsection \<open>Searching a leaf\<close>

text \<open>The loop of \<open>mdb_node_search\<close>: \<open>i\<close> and \<open>rc\<close> of the last probe.\<close>

function node_search_loop ::
  "('k \<Rightarrow> 'k \<Rightarrow> int) \<Rightarrow> 'k list \<Rightarrow> 'k \<Rightarrow> nat \<Rightarrow> int \<Rightarrow> nat \<Rightarrow> int \<Rightarrow> nat \<times> int" where
  "node_search_loop cmp keys key low high i rc =
     (if int low \<le> high then
        (let i = nat ((int low + high) div 2); rc = cmp key (keys ! i) in
         if rc = 0 then (i, rc)
         else if rc > 0 then node_search_loop cmp keys key (i + 1) high i rc
         else node_search_loop cmp keys key low (int i - 1) i rc)
      else (i, rc))"
  by pat_completeness auto
termination
  by (relation "measure (\<lambda>(cmp, keys, key, low, high, i, rc). nat (high - int low + 1))") auto

declare node_search_loop.simps [simp del]

text \<open>The index of the smallest entry not below the key, and whether it matches.\<close>

definition mdb_node_search :: "('k \<Rightarrow> 'k \<Rightarrow> int) \<Rightarrow> 'k list \<Rightarrow> 'k \<Rightarrow> nat \<times> bool" where
  "mdb_node_search cmp keys key =
     (let nkeys = length keys;
          (i, rc) = node_search_loop cmp keys key 0 (int nkeys - 1) 0 0;
          i = (if rc > 0 then i + 1 else i)
      in (i, rc = 0 \<and> nkeys > 0))"

subsection \<open>Transactions\<close>

type_synonym 'k tree = "('k \<times> bytes) list"

record 'k txn =
  mt_tree :: "'k tree"
  mt_error :: bool
  mt_faults :: "int list"
  mt_junk :: "nat \<Rightarrow> byte"
  mt_mc :: "nat option"

record 'k env =
  me_tree :: "'k tree"
  me_junk :: "nat \<Rightarrow> byte"

text \<open>The outcome of the next call that may fail for want of pages or memory.\<close>

definition next_fault :: "'k txn \<Rightarrow> int \<times> 'k txn" where
  "next_fault txn =
     (case mt_faults txn of [] \<Rightarrow> (MDB_SUCCESS, txn)
      | c # cs \<Rightarrow> (c, txn\<lparr>mt_faults := cs\<rparr>))"

definition mdb_txn_begin :: "'k env \<Rightarrow> int list \<Rightarrow> int \<times> 'k txn" where
  "mdb_txn_begin env faults =
     next_fault \<lparr>mt_tree = me_tree env, mt_error = False, mt_faults = faults,
       mt_junk = me_junk env, mt_mc = None\<rparr>"

definition mdb_txn_commit :: "'k env \<Rightarrow> 'k txn \<Rightarrow> int \<times> 'k env" where
  "mdb_txn_commit env txn =
     (if mt_error txn then (MDB_BAD_TXN, env)
      else
        (let (rc, txn) = next_fault txn in
         if rc \<noteq> 0 then (rc, env) else (MDB_SUCCESS, env\<lparr>me_tree := mt_tree txn\<rparr>)))"

definition mdb_txn_abort :: "'k env \<Rightarrow> 'k txn \<Rightarrow> 'k env" where
  "mdb_txn_abort env txn = env"

text \<open>
  Opening a cursor. A transaction writes through one cursor at most, whose
  position is \<open>mt_mc\<close> (\<open>None\<close> until its first put); the cursors that read are
  values of their own, below.
\<close>

definition mdb_cursor_open :: "'k txn \<Rightarrow> int \<times> 'k txn" where
  "mdb_cursor_open txn = (if mt_error txn then (MDB_BAD_TXN, txn) else next_fault txn)"

subsection \<open>Reading\<close>

definition mdb_get :: "('k \<Rightarrow> 'k \<Rightarrow> int) \<Rightarrow> 'k txn \<Rightarrow> 'k \<Rightarrow> int + bytes" where
  "mdb_get cmp txn key =
     (if mt_error txn then Inl MDB_BAD_TXN
      else
        (let (i, exact) = mdb_node_search cmp (map fst (mt_tree txn)) key in
         if exact then Inr (snd (mt_tree txn ! i)) else Inl MDB_NOTFOUND))"

datatype MDB_cursor_op = MDB_SET_RANGE | MDB_NEXT | MDB_PREV

text \<open>
  A read cursor is its position, \<open>None\<close> before it is initialised. The result is
  the new position with the entry there, or the error.
\<close>

definition mdb_cursor_get ::
  "('k \<Rightarrow> 'k \<Rightarrow> int) \<Rightarrow> 'k txn \<Rightarrow> nat option \<Rightarrow> 'k \<Rightarrow> MDB_cursor_op \<Rightarrow>
     int + (nat \<times> 'k \<times> bytes)" where
  "mdb_cursor_get cmp txn mc key op =
     (let t = mt_tree txn; n = length t in
      if mt_error txn then Inl MDB_BAD_TXN
      else case op of
        MDB_SET_RANGE \<Rightarrow>
          (let i = fst (mdb_node_search cmp (map fst t) key) in
           if i < n then Inr (i, t ! i) else Inl MDB_NOTFOUND)
      | MDB_NEXT \<Rightarrow>
          (let i = (case mc of None \<Rightarrow> 0 | Some i \<Rightarrow> i + 1) in
           if i < n then Inr (i, t ! i) else Inl MDB_NOTFOUND)
      | MDB_PREV \<Rightarrow>
          (let i = (case mc of None \<Rightarrow> n | Some i \<Rightarrow> i) in
           if i = 0 then Inl MDB_NOTFOUND else Inr (i - 1, t ! (i - 1))))"

subsection \<open>Writing\<close>

text \<open>
  \<open>put_position\<close>: where a put lands, from the flags and the search:
  \<open>Inr (i, insert_key)\<close>, or the error together with the cursor.
\<close>

definition put_position ::
  "('k \<Rightarrow> 'k \<Rightarrow> int) \<Rightarrow> 'k txn \<Rightarrow> 'k \<Rightarrow> u32 \<Rightarrow> int + (nat \<times> bool)" where
  "put_position cmp txn key flags =
     (let t = mt_tree txn; n = length t in
      if flags = MDB_CURRENT then
        (case mt_mc txn of
           None \<Rightarrow> Inl EINVAL
         | Some i \<Rightarrow> if i < n then Inr (i, False) else Inl EINVAL)
      else if n = 0 then Inr (0, True)
      else if flags AND MDB_APPEND \<noteq> 0 then
        (if cmp key (fst (last t)) > 0 then Inr (n, True) else Inl MDB_KEYEXIST)
      else
        (let (i, exact) = mdb_node_search cmp (map fst t) key in
         if exact then
           (if flags AND MDB_NOOVERWRITE \<noteq> 0 then Inl MDB_KEYEXIST else Inr (i, False))
         else Inr (i, True)))"

text \<open>
  Writing at a position. An overwrite with data of the same size replaces the
  data only; otherwise the node is deleted and added again with the new key.
\<close>

definition write_at :: "'k tree \<Rightarrow> nat \<Rightarrow> bool \<Rightarrow> 'k \<Rightarrow> bytes \<Rightarrow> 'k tree" where
  "write_at t i insert_key key d =
     (if insert_key then take i t @ (key, d) # drop i t
      else if length d = length (snd (t ! i)) then t[i := (fst (t ! i), d)]
      else t[i := (key, d)])"

definition put_data :: "'k txn \<Rightarrow> bytes \<Rightarrow> u32 \<Rightarrow> bytes" where
  "put_data txn d flags =
     (if flags AND MDB_RESERVE \<noteq> 0 then map (mt_junk txn) [0..<length d] else d)"

text \<open>A put through the tracked cursor, which ends on the written entry.\<close>

definition mdb_cursor_put ::
  "('k \<Rightarrow> 'k \<Rightarrow> int) \<Rightarrow> 'k txn \<Rightarrow> 'k \<Rightarrow> bytes \<Rightarrow> u32 \<Rightarrow> int \<times> 'k txn" where
  "mdb_cursor_put cmp txn key d flags0 =
     (let flags = flags0 AND NOT MDB_NOSPILL in
      if flags AND MDB_MULTIPLE \<noteq> 0 then (MDB_INCOMPATIBLE, txn)
      else if mt_error txn then (MDB_BAD_TXN, txn)
      else case put_position cmp txn key flags of
        Inl rc \<Rightarrow> (rc, txn)
      | Inr (i, insert_key) \<Rightarrow>
          (let (rc, txn) = next_fault txn in
           if rc \<noteq> 0 then (rc, txn\<lparr>mt_error := True\<rparr>)
           else if \<not> insert_key \<and> flags AND F_SUBDATA \<noteq> 0 then (MDB_INCOMPATIBLE, txn)
           else (MDB_SUCCESS,
             txn\<lparr>mt_tree := write_at (mt_tree txn) i insert_key key (put_data txn d flags),
               mt_mc := Some i\<rparr>)))"

text \<open>
  \<open>mdb_put\<close> works through a cursor of its own; the tracked cursor moves up when
  a key is inserted at or before it.
\<close>

definition mdb_put ::
  "('k \<Rightarrow> 'k \<Rightarrow> int) \<Rightarrow> 'k txn \<Rightarrow> 'k \<Rightarrow> bytes \<Rightarrow> u32 \<Rightarrow> int \<times> 'k txn" where
  "mdb_put cmp txn key d flags =
     (if flags AND NOT (MDB_NOOVERWRITE OR MDB_NODUPDATA OR MDB_RESERVE OR MDB_APPEND
           OR MDB_APPENDDUP) \<noteq> 0 then (EINVAL, txn)
      else
        (let (rc, txn') = mdb_cursor_put cmp (txn\<lparr>mt_mc := None\<rparr>) key d flags;
             inserted = length (mt_tree txn) < length (mt_tree txn')
         in (rc, txn'\<lparr>mt_mc :=
              (case (mt_mc txn, mt_mc txn') of
                 (Some j, Some i) \<Rightarrow> Some (if inserted \<and> i \<le> j then j + 1 else j)
               | (mc, _) \<Rightarrow> mc)\<rparr>)))"

definition mdb_del :: "('k \<Rightarrow> 'k \<Rightarrow> int) \<Rightarrow> 'k txn \<Rightarrow> 'k \<Rightarrow> int \<times> 'k txn" where
  "mdb_del cmp txn key =
     (let t = mt_tree txn in
      if mt_error txn then (MDB_BAD_TXN, txn)
      else
        (let (i, exact) = mdb_node_search cmp (map fst t) key in
         if \<not> exact then (MDB_NOTFOUND, txn)
         else
           (let (rc, txn) = next_fault txn in
            if rc \<noteq> 0 then (rc, txn\<lparr>mt_error := True\<rparr>)
            else (MDB_SUCCESS,
              txn\<lparr>mt_tree := take i t @ drop (i + 1) t,
                mt_mc := (case mt_mc txn of Some j \<Rightarrow> Some (if i < j then j - 1 else j)
                          | None \<Rightarrow> None)\<rparr>))))"

subsection \<open>The contract of a comparison function\<close>

text \<open>
  What liblmdb needs of the comparison function: on the keys it is used with, its
  sign is that of a linear order (\<open>rank\<close> into it). Under this contract the
  sequence stays sorted and the operations are those of an ordered map.
\<close>

definition sorted_tree :: "('k \<Rightarrow> 'r::linorder) \<Rightarrow> ('k \<Rightarrow> bool) \<Rightarrow> ('k \<times> 'd) list \<Rightarrow> bool" where
  "sorted_tree rank ok t \<longleftrightarrow>
     sorted_wrt (<) (map (rank \<circ> fst) t) \<and> (\<forall>x \<in> set t. ok (fst x))"

text \<open>The sequence as a map from ranks.\<close>

definition tree_map :: "('k \<Rightarrow> 'r) \<Rightarrow> 'k tree \<Rightarrow> 'r \<rightharpoonup> bytes" where
  "tree_map rank t = map_of (map (\<lambda>(k, d). (rank k, d)) t)"

definition lower_bound :: "('k \<Rightarrow> 'r::linorder) \<Rightarrow> ('k \<times> 'd) list \<Rightarrow> 'k \<Rightarrow> nat" where
  "lower_bound rank t key = length (takeWhile (\<lambda>x. rank (fst x) < rank key) t)"

text \<open>A transaction no call has failed in and none will.\<close>

definition live :: "('k \<Rightarrow> 'r::linorder) \<Rightarrow> ('k \<Rightarrow> bool) \<Rightarrow> 'k txn \<Rightarrow> bool" where
  "live rank ok txn \<longleftrightarrow>
     \<not> mt_error txn \<and> mt_faults txn = [] \<and> sorted_tree rank ok (mt_tree txn)"

definition get_opt :: "('k \<Rightarrow> 'k \<Rightarrow> int) \<Rightarrow> 'k txn \<Rightarrow> 'k \<Rightarrow> bytes option" where
  "get_opt cmp txn k = (case mdb_get cmp txn k of Inl _ \<Rightarrow> None | Inr d \<Rightarrow> Some d)"

definition put_txn :: "('k \<Rightarrow> 'k \<Rightarrow> int) \<Rightarrow> 'k txn \<Rightarrow> 'k \<Rightarrow> bytes \<Rightarrow> 'k txn" where
  "put_txn cmp txn k d = snd (mdb_put cmp txn k d 0)"

definition del_txn :: "('k \<Rightarrow> 'k \<Rightarrow> int) \<Rightarrow> 'k txn \<Rightarrow> 'k \<Rightarrow> 'k txn" where
  "del_txn cmp txn k = snd (mdb_del cmp txn k)"

text \<open>
  The contract a client of the store relies on: a finite map on keys up to an
  equivalence, with an invariant that every operation keeps.
\<close>

locale kv_store =
  fixes get :: "'s \<Rightarrow> 'k \<Rightarrow> 'd option"
    and put :: "'s \<Rightarrow> 'k \<Rightarrow> 'd \<Rightarrow> 's"
    and del :: "'s \<Rightarrow> 'k \<Rightarrow> 's"
    and inv :: "'s \<Rightarrow> bool"
    and okk :: "'k \<Rightarrow> bool"
    and same :: "'k \<Rightarrow> 'k \<Rightarrow> bool"
  assumes get_put: "inv s \<Longrightarrow> okk k \<Longrightarrow> okk k' \<Longrightarrow>
      get (put s k d) k' = (if same k k' then Some d else get s k')"
    and get_del: "inv s \<Longrightarrow> okk k \<Longrightarrow> okk k' \<Longrightarrow>
      get (del s k) k' = (if same k k' then None else get s k')"
    and inv_put: "inv s \<Longrightarrow> okk k \<Longrightarrow> inv (put s k d)"
    and inv_del: "inv s \<Longrightarrow> okk k \<Longrightarrow> inv (del s k)"
    and same_refl: "same k k"
begin

lemma get_put_same: "inv s \<Longrightarrow> okk k \<Longrightarrow> get (put s k d) k = Some d"
  by (simp add: get_put same_refl)

lemma get_put_other:
  "inv s \<Longrightarrow> okk k \<Longrightarrow> okk k' \<Longrightarrow> \<not> same k k' \<Longrightarrow> get (put s k d) k' = get s k'"
  by (simp add: get_put)

lemma get_del_same: "inv s \<Longrightarrow> okk k \<Longrightarrow> get (del s k) k = None"
  by (simp add: get_del same_refl)

lemma inv_puts:
  "inv s \<Longrightarrow> \<forall>x \<in> set kds. okk (fst x) \<Longrightarrow> inv (foldl (\<lambda>s (k, d). put s k d) s kds)"
  by (induction kds arbitrary: s) (auto simp: inv_put)

lemma get_puts_other:
  "inv s \<Longrightarrow> okk k' \<Longrightarrow> \<forall>x \<in> set kds. okk (fst x) \<and> \<not> same (fst x) k' \<Longrightarrow>
     get (foldl (\<lambda>s (k, d). put s k d) s kds) k' = get s k'"
  by (induction kds arbitrary: s) (auto simp: inv_put get_put)

end

locale comparator =
  fixes cmp :: "'k \<Rightarrow> 'k \<Rightarrow> int"
    and rank :: "'k \<Rightarrow> 'r::linorder"
    and ok :: "'k \<Rightarrow> bool"
  assumes sgn_cmp: "ok a \<Longrightarrow> ok b \<Longrightarrow> sgn (cmp a b) = ord_of (rank a) (rank b)"
begin

lemma cmp_zero_iff: "ok a \<Longrightarrow> ok b \<Longrightarrow> cmp a b = 0 \<longleftrightarrow> rank a = rank b"
  by (metis sgn_cmp sgn_0_0 ord_of_zero_iff)

lemma cmp_pos_iff: "ok a \<Longrightarrow> ok b \<Longrightarrow> 0 < cmp a b \<longleftrightarrow> rank b < rank a"
  by (metis sgn_cmp sgn_greater ord_of_pos_iff)

lemma cmp_neg_iff: "ok a \<Longrightarrow> ok b \<Longrightarrow> cmp a b < 0 \<longleftrightarrow> rank a < rank b"
  by (metis sgn_cmp sgn_less ord_of_neg_iff)

text \<open>The result of the search loop, from its invariant on the untried interval.\<close>

lemma node_search_loop_spec:
  assumes "\<forall>k \<in> set (drop b keys). ok k" and "ok key"
    and "sorted_wrt (\<lambda>a b. rank a < rank b) (drop b keys)"
    and "b \<le> low" and "high < int (length keys)" and "int low \<le> high + 1"
    and "\<forall>j < low. b \<le> j \<longrightarrow> rank (keys ! j) < rank key"
    and "\<forall>j < length keys. high < int j \<longrightarrow> rank key < rank (keys ! j)"
    and "int low \<le> high \<or> (rc > 0 \<and> low = i + 1) \<or> (rc < 0 \<and> int i = high + 1)"
    and "node_search_loop cmp keys key low high i rc = (i', rc')"
  shows "(rc' = 0 \<and> b \<le> i' \<and> i' < length keys \<and> rank (keys ! i') = rank key) \<or>
    (rc' \<noteq> 0 \<and> (let p = (if rc' > 0 then i' + 1 else i') in b \<le> p \<and> p \<le> length keys \<and>
       (\<forall>j < p. b \<le> j \<longrightarrow> rank (keys ! j) < rank key) \<and>
       (\<forall>j < length keys. p \<le> j \<longrightarrow> rank key < rank (keys ! j))))"
  using assms(4-)
proof (induction cmp\<equiv>cmp keys\<equiv>keys key\<equiv>key low high i rc rule: node_search_loop.induct)
  case (1 low high i rc)
  show ?case
  proof (cases "int low \<le> high")
    case False
    with "1.prems" show ?thesis
      by (auto simp: node_search_loop.simps Let_def split: if_splits)
  next
    case True
    define m where "m = nat ((int low + high) div 2)"
    have m: "low \<le> m" "int m \<le> high" "m < length keys"
      using True "1.prems"(2) by (auto simp: m_def)
    have nth: "keys ! j \<in> set (drop b keys)" if "b \<le> j" "j < length keys" for j
      using that nth_mem [of "j - b" "drop b keys"] by simp
    then have okm: "ok (keys ! m)" using assms(1) m "1.prems"(1) by simp
    have sorted: "rank (keys ! j) < rank (keys ! l)" if "b \<le> j" "j < l" "l < length keys" for j l
      using sorted_wrt_nth_less [OF assms(3), of "j - b" "l - b"] that by simp
    consider "cmp key (keys ! m) = 0" | "cmp key (keys ! m) > 0" | "cmp key (keys ! m) < 0"
      by linarith
    then show ?thesis
    proof cases
      case 1
      with "1.prems"(7) True m have "(i', rc') = (m, 0)"
        by (simp add: node_search_loop.simps [of cmp keys key low] m_def [symmetric])
      with 1 m okm assms(2) "1.prems"(1) show ?thesis by (simp add: cmp_zero_iff)
    next
      case 2
      then have "rank (keys ! m) < rank key" using okm assms(2) by (simp add: cmp_pos_iff)
      then have "rank (keys ! j) < rank key" if "j < m + 1" "b \<le> j" for j
        using sorted [of j m] m that by (cases "j = m") auto
      then have below: "\<forall>j < m + 1. b \<le> j \<longrightarrow> rank (keys ! j) < rank key" by blast
      have eq: "node_search_loop cmp keys key (m + 1) high m (cmp key (keys ! m)) = (i', rc')"
        using "1.prems"(7) True 2
        by (simp add: node_search_loop.simps [of cmp keys key low] m_def [symmetric])
      show ?thesis
        by (rule "1.hyps"(1) [OF True m_def refl])
          (use 2 m below eq "1.prems" in \<open>simp_all\<close>)
    next
      case 3
      then have "rank key < rank (keys ! m)" using okm assms(2) by (simp add: cmp_neg_iff)
      then have "rank key < rank (keys ! j)" if "m \<le> j" "j < length keys" for j
        using sorted [of m j] that m "1.prems"(1) by (cases "j = m") auto
      then have above: "\<forall>j < length keys. int m - 1 < int j \<longrightarrow> rank key < rank (keys ! j)"
        by auto
      have eq: "node_search_loop cmp keys key low (int m - 1) m (cmp key (keys ! m)) = (i', rc')"
        using "1.prems"(7) True 3
        by (simp add: node_search_loop.simps [of cmp keys key low] m_def [symmetric])
      show ?thesis
        by (rule "1.hyps"(2) [OF True m_def refl])
          (use 3 m above eq "1.prems" in \<open>simp_all\<close>)
    qed
  qed
qed

lemma lower_bound_eqI:
  assumes "p \<le> length t" and "\<forall>j < p. rank (fst (t ! j)) < rank key"
    and "p < length t \<Longrightarrow> \<not> rank (fst (t ! p)) < rank key"
  shows "lower_bound rank t key = p"
proof -
  have "takeWhile (\<lambda>x. rank (fst x) < rank key) t = take p t"
    using assms by (intro takeWhile_eq_take_P_nth) auto
  then show ?thesis using assms(1) by (simp add: lower_bound_def)
qed

lemma sorted_tree_nth_less:
  assumes "sorted_tree rank ok t" and "i < j" and "j < length t"
  shows "rank (fst (t ! i)) < rank (fst (t ! j))"
  using assms by (auto simp: sorted_tree_def sorted_wrt_iff_nth_less)

lemma lower_bound_le: "lower_bound rank t key \<le> length t"
  by (simp add: lower_bound_def length_takeWhile_le)

lemma below_lower_bound: "j < lower_bound rank t key \<Longrightarrow> rank (fst (t ! j)) < rank key"
  by (metis lower_bound_def nth_mem set_takeWhileD takeWhile_nth)

lemma at_lower_bound:
  assumes "lower_bound rank t key < length t"
  shows "rank key \<le> rank (fst (t ! lower_bound rank t key))"
  using nth_length_takeWhile [of "\<lambda>x. rank (fst x) < rank key" t] assms
  by (simp add: lower_bound_def linorder_not_less)

lemma above_lower_bound:
  assumes "sorted_tree rank ok t" and "lower_bound rank t key \<le> j" and "j < length t"
  shows "rank key \<le> rank (fst (t ! j))"
proof (cases "lower_bound rank t key = j")
  case True
  then show ?thesis using at_lower_bound [of t key] assms by simp
next
  case False
  then have "rank (fst (t ! lower_bound rank t key)) < rank (fst (t ! j))"
    using assms by (intro sorted_tree_nth_less) auto
  then show ?thesis using at_lower_bound [of t key] assms by simp
qed

lemma present_iff_at_lower_bound:
  assumes "sorted_tree rank ok t"
  shows "(\<exists>x \<in> set t. rank (fst x) = rank key) \<longleftrightarrow>
    lower_bound rank t key < length t \<and> rank (fst (t ! lower_bound rank t key)) = rank key"
proof
  assume "\<exists>x \<in> set t. rank (fst x) = rank key"
  then obtain j where j: "j < length t" "rank (fst (t ! j)) = rank key"
    by (metis in_set_conv_nth)
  then have le: "lower_bound rank t key \<le> j"
    using below_lower_bound [of j t key] by (metis linorder_not_less order_less_irrefl)
  then have "lower_bound rank t key = j"
    using sorted_tree_nth_less [OF assms, of "lower_bound rank t key" j] j
      at_lower_bound [of t key] by (cases "lower_bound rank t key = j") auto
  with j show "lower_bound rank t key < length t \<and>
      rank (fst (t ! lower_bound rank t key)) = rank key" by simp
qed auto

text \<open>The binary search finds the lower bound of the key.\<close>

lemma node_search_spec:
  assumes t: "sorted_tree rank ok t" and key: "ok key"
  shows "mdb_node_search cmp (map fst t) key =
    (lower_bound rank t key, \<exists>x \<in> set t. rank (fst x) = rank key)"
proof (cases "t = []")
  case True
  then show ?thesis
    by (simp add: mdb_node_search_def node_search_loop.simps lower_bound_def)
next
  case False
  obtain i rc where loop:
    "node_search_loop cmp (map fst t) key 0 (int (length t) - 1) 0 0 = (i, rc)"
    by fastforce
  have oks: "\<forall>k \<in> set (map fst t). ok k" using t by (auto simp: sorted_tree_def)
  have sorted: "sorted_wrt (\<lambda>a b. rank a < rank b) (map fst t)"
    using t by (simp add: sorted_tree_def sorted_wrt_map)
  define p where "p = (if rc > 0 then i + 1 else i)"
  have "(rc = 0 \<and> 0 \<le> i \<and> i < length (map fst t) \<and> rank (map fst t ! i) = rank key) \<or>
    (rc \<noteq> 0 \<and> (let p = (if rc > 0 then i + 1 else i) in 0 \<le> p \<and> p \<le> length (map fst t) \<and>
       (\<forall>j < p. 0 \<le> j \<longrightarrow> rank (map fst t ! j) < rank key) \<and>
       (\<forall>j < length (map fst t). p \<le> j \<longrightarrow> rank key < rank (map fst t ! j))))"
    by (rule node_search_loop_spec [where b = 0, OF _ key _ _ _ _ _ _ _ loop]) (use False oks sorted in auto)
  then consider (eq) "rc = 0" "i < length t" "rank (fst (t ! i)) = rank key"
    | (ne) "rc \<noteq> 0" "p \<le> length t" "\<forall>j < p. rank (fst (t ! j)) < rank key"
        "\<forall>j < length t. p \<le> j \<longrightarrow> rank key < rank (fst (t ! j))"
    by (auto simp: p_def Let_def)
  then show ?thesis
  proof cases
    case eq
    then have "\<exists>x \<in> set t. rank (fst x) = rank key" by (metis nth_mem)
    moreover have "lower_bound rank t key = i"
      using eq t by (intro lower_bound_eqI) (auto dest: sorted_tree_nth_less)
    ultimately show ?thesis using eq loop False by (simp add: mdb_node_search_def Let_def)
  next
    case ne
    then have lb: "lower_bound rank t key = p" by (intro lower_bound_eqI) auto
    have "rank (fst x) \<noteq> rank key" if "x \<in> set t" for x
      using that ne(3,4) by (metis in_set_conv_nth linorder_not_less order_less_irrefl)
    then have "\<not> (\<exists>x \<in> set t. rank (fst x) = rank key)" by blast
    then show ?thesis using ne loop lb by (auto simp: mdb_node_search_def Let_def p_def)
  qed
qed

text \<open>Writing at the lower bound, deleting there: order and contents.\<close>

lemma sorted_tree_Cons:
  "sorted_tree rank ok (x # t) \<longleftrightarrow>
     sorted_tree rank ok t \<and> ok (fst x) \<and> (\<forall>y \<in> set t. rank (fst x) < rank (fst y))"
  by (auto simp: sorted_tree_def)

lemma sorted_tree_append:
  "sorted_tree rank ok (s @ t) \<longleftrightarrow> sorted_tree rank ok s \<and> sorted_tree rank ok t \<and>
     (\<forall>x \<in> set s. \<forall>y \<in> set t. rank (fst x) < rank (fst y))"
  by (auto simp: sorted_tree_def sorted_wrt_append)

lemma take_lower_bound: "x \<in> set (take (lower_bound rank t key) t) \<Longrightarrow> rank (fst x) < rank key"
  by (auto simp: in_set_conv_nth dest: below_lower_bound)

lemma drop_lower_bound:
  assumes "sorted_tree rank ok t" and "x \<in> set (drop (lower_bound rank t key) t)"
  shows "rank key \<le> rank (fst x)"
  using assms above_lower_bound [OF assms(1), of key] by (auto simp: in_set_conv_nth)

lemma drop_lower_bound_less:
  assumes "sorted_tree rank ok t" and "\<not> (\<exists>x \<in> set t. rank (fst x) = rank key)"
    and "x \<in> set (drop (lower_bound rank t key) t)"
  shows "rank key < rank (fst x)"
  using drop_lower_bound [OF assms(1,3)] assms(2) in_set_dropD [OF assms(3)]
  by (metis order_le_less)

lemma sorted_tree_take_drop:
  "sorted_tree rank ok t \<Longrightarrow> sorted_tree rank ok (take i t) \<and> sorted_tree rank ok (drop i t)"
  by (metis append_take_drop_id sorted_tree_append)

lemma sorted_insert_at:
  assumes "sorted_tree rank ok t" and "ok key" and "\<not> (\<exists>x \<in> set t. rank (fst x) = rank key)"
  shows "sorted_tree rank ok (write_at t (lower_bound rank t key) True key d)"
proof -
  let ?i = "lower_bound rank t key"
  have "\<forall>x \<in> set (take ?i t). \<forall>y \<in> set (drop ?i t). rank (fst x) < rank (fst y)"
    using assms(1) by (metis append_take_drop_id sorted_tree_append)
  moreover have "\<forall>x \<in> set (take ?i t). rank (fst x) < rank key"
    by (blast dest: take_lower_bound)
  moreover have "\<forall>x \<in> set (drop ?i t). rank key < rank (fst x)"
    using drop_lower_bound_less [OF assms(1,3)] by blast
  ultimately show ?thesis
    using sorted_tree_take_drop [OF assms(1), of ?i] assms(2)
    by (simp add: write_at_def sorted_tree_append sorted_tree_Cons)
qed

lemma sorted_tree_update:
  assumes "sorted_tree rank ok t" and "i < length t" and "rank k = rank (fst (t ! i))" and "ok k"
  shows "sorted_tree rank ok (t[i := (k, d)])"
proof -
  have "map (rank \<circ> fst) (t[i := (k, d)]) = map (rank \<circ> fst) t"
    using assms(2,3) by (simp add: map_update list_update_same_conv)
  moreover have "set (t[i := (k, d)]) \<subseteq> insert (k, d) (set t)"
    by (rule set_update_subset_insert)
  ultimately show ?thesis using assms(1,4) by (auto simp: sorted_tree_def)
qed

lemma sorted_write_at:
  assumes "sorted_tree rank ok t" and "ok key"
    and "present \<longleftrightarrow> (\<exists>x \<in> set t. rank (fst x) = rank key)"
  shows "sorted_tree rank ok (write_at t (lower_bound rank t key) (\<not> present) key d)"
proof (cases present)
  case False
  then show ?thesis using sorted_insert_at [OF assms(1,2)] assms(3) by simp
next
  case True
  then have "lower_bound rank t key < length t"
    and "rank (fst (t ! lower_bound rank t key)) = rank key"
    using assms(3) by (simp_all add: present_iff_at_lower_bound [OF assms(1)])
  moreover from this have "ok (fst (t ! lower_bound rank t key))"
    using assms(1) by (simp add: sorted_tree_def)
  ultimately show ?thesis
    using True assms(1,2) by (auto simp: write_at_def intro: sorted_tree_update)
qed

lemma tree_map_None: "tree_map rank t r = None \<longleftrightarrow> (\<forall>x \<in> set t. rank (fst x) \<noteq> r)"
  by (auto simp: tree_map_def map_of_eq_None_iff image_iff)

lemma tree_map_append:
  "tree_map rank (s @ t) r = (case tree_map rank s r of None \<Rightarrow> tree_map rank t r | Some d \<Rightarrow> Some d)"
  by (auto simp: tree_map_def map_add_def split: option.splits)

lemma tree_map_Cons: "tree_map rank ((k, d) # t) = (tree_map rank t)(rank k \<mapsto> d)"
  by (simp add: tree_map_def)

lemma tree_map_split:
  "tree_map rank t r = (case tree_map rank (take i t) r of
     None \<Rightarrow> tree_map rank (drop i t) r | Some d \<Rightarrow> Some d)"
  by (metis append_take_drop_id tree_map_append)

lemma tree_map_insert_at:
  assumes "\<not> (\<exists>x \<in> set t. rank (fst x) = rank key)"
  shows "tree_map rank (write_at t i True key d) = (tree_map rank t)(rank key \<mapsto> d)"
proof
  fix r
  have "tree_map rank (take i t) (rank key) = None"
    using assms by (auto simp: tree_map_None dest: in_set_takeD)
  then show "tree_map rank (write_at t i True key d) r = ((tree_map rank t)(rank key \<mapsto> d)) r"
    by (simp add: write_at_def tree_map_append tree_map_Cons tree_map_split [of t r i]
        split: option.split)
qed

lemma tree_map_update:
  assumes "sorted_tree rank ok t" and "i < length t" and "rank k = rank (fst (t ! i))"
  shows "tree_map rank (t[i := (k, d)]) = (tree_map rank t)(rank k \<mapsto> d)"
proof
  fix r
  have t: "t = take i t @ t ! i # drop (Suc i) t" using assms(2) by (simp add: id_take_nth_drop)
  have none: "tree_map rank (take i t) (rank k) = None"
    using sorted_tree_nth_less [OF assms(1) _ assms(2)] assms(3)
    by (auto simp: tree_map_None in_set_conv_nth) (metis fst_conv order_less_irrefl)
  have "tree_map rank t r = tree_map rank (take i t @ t ! i # drop (Suc i) t) r"
    using t by simp
  then show "tree_map rank (t[i := (k, d)]) r = ((tree_map rank t)(rank k \<mapsto> d)) r"
    using assms(2,3) none
    by (cases "t ! i")
      (auto simp: upd_conv_take_nth_drop tree_map_append tree_map_Cons split: option.split)
qed

lemma tree_map_write_at:
  assumes "sorted_tree rank ok t" and "present \<longleftrightarrow> (\<exists>x \<in> set t. rank (fst x) = rank key)"
  shows "tree_map rank (write_at t (lower_bound rank t key) (\<not> present) key d) =
    (tree_map rank t)(rank key \<mapsto> d)"
proof (cases present)
  case False
  then show ?thesis using assms(2) by (simp add: tree_map_insert_at)
next
  case True
  then have "lower_bound rank t key < length t"
    and "rank (fst (t ! lower_bound rank t key)) = rank key"
    using assms(2) by (simp_all add: present_iff_at_lower_bound [OF assms(1)])
  then show ?thesis using True assms(1) by (simp add: write_at_def tree_map_update)
qed

lemma tree_map_at_lower_bound:
  assumes "sorted_tree rank ok t" and "\<exists>x \<in> set t. rank (fst x) = rank key"
  shows "tree_map rank t (rank key) = Some (snd (t ! lower_bound rank t key))"
proof -
  let ?i = "lower_bound rank t key"
  have i: "?i < length t" "rank (fst (t ! ?i)) = rank key"
    using assms(2) by (simp_all add: present_iff_at_lower_bound [OF assms(1)])
  have "t = t[?i := (fst (t ! ?i), snd (t ! ?i))]" by simp
  then have "tree_map rank t = (tree_map rank t)(rank key \<mapsto> snd (t ! ?i))"
    using tree_map_update [OF assms(1) i(1) refl, of "snd (t ! ?i)"] i(2) by simp
  then show ?thesis by (metis fun_upd_same)
qed

lemma sorted_delete_at:
  assumes "sorted_tree rank ok t"
  shows "sorted_tree rank ok (take i t @ drop (i + 1) t)"
proof -
  have "\<forall>x \<in> set (take i t). \<forall>y \<in> set (drop i t). rank (fst x) < rank (fst y)"
    using assms by (metis append_take_drop_id sorted_tree_append)
  moreover have "set (drop (i + 1) t) \<subseteq> set (drop i t)"
    by (rule set_drop_subset_set_drop) simp
  ultimately show ?thesis
    using sorted_tree_take_drop [OF assms] by (auto simp: sorted_tree_append)
qed

lemma tree_map_delete_at:
  assumes "sorted_tree rank ok t" and "i < length t"
  shows "tree_map rank (take i t @ drop (i + 1) t) =
    (tree_map rank t)(rank (fst (t ! i)) := None)"
proof
  fix r
  have split: "t = take i t @ t ! i # drop (Suc i) t" using assms(2) by (simp add: id_take_nth_drop)
  have other: "rank (fst x) \<noteq> rank (fst (t ! i))" if "x \<in> set (take i t) \<union> set (drop (Suc i) t)" for x
  proof -
    have "sorted_tree rank ok (take i t @ t ! i # drop (Suc i) t)" using split assms(1) by simp
    then show ?thesis using that by (auto simp: sorted_tree_append sorted_tree_Cons)
  qed
  have "tree_map rank t r = tree_map rank (take i t @ t ! i # drop (Suc i) t) r"
    using split by simp
  moreover have "tree_map rank (take i t) (rank (fst (t ! i))) = None"
    and "tree_map rank (drop (Suc i) t) (rank (fst (t ! i))) = None"
    using other by (auto simp: tree_map_None)
  ultimately show "tree_map rank (take i t @ drop (i + 1) t) r =
      ((tree_map rank t)(rank (fst (t ! i)) := None)) r"
    by (cases "t ! i") (auto simp: tree_map_append tree_map_Cons split: option.split)
qed

text \<open>The operations on a live transaction.\<close>

lemma next_fault_none: "mt_faults txn = [] \<Longrightarrow> next_fault txn = (0, txn)"
  by (simp add: next_fault_def)

lemma mdb_get_live:
  assumes "live rank ok txn" and "ok key"
  shows "mdb_get cmp txn key = (case tree_map rank (mt_tree txn) (rank key) of
    None \<Rightarrow> Inl MDB_NOTFOUND | Some d \<Rightarrow> Inr d)"
proof (cases "\<exists>x \<in> set (mt_tree txn). rank (fst x) = rank key")
  case True
  then show ?thesis
    using assms tree_map_at_lower_bound [OF _ True]
    by (auto simp: mdb_get_def live_def node_search_spec)
next
  case False
  then have "tree_map rank (mt_tree txn) (rank key) = None" by (simp add: tree_map_None)
  with False assms show ?thesis by (auto simp: mdb_get_def live_def node_search_spec)
qed

lemma put_position_plain:
  assumes "live rank ok txn" and "ok key"
    and "flags \<noteq> MDB_CURRENT" and "flags AND MDB_APPEND = 0" and "flags AND MDB_NOOVERWRITE = 0"
  shows "put_position cmp txn key flags = Inr (lower_bound rank (mt_tree txn) key,
    \<not> (\<exists>x \<in> set (mt_tree txn). rank (fst x) = rank key))"
  using assms
  by (auto simp: put_position_def Let_def live_def node_search_spec lower_bound_def split: if_splits)

text \<open>The outcome of a put whose flags ask for nothing but perhaps \<open>MDB_RESERVE\<close>.\<close>

lemma mdb_cursor_put_live:
  assumes "live rank ok txn" and "ok key" and "flags = 0 \<or> flags = MDB_RESERVE"
  shows "mdb_cursor_put cmp txn key d flags =
    (0, txn\<lparr>mt_tree := write_at (mt_tree txn) (lower_bound rank (mt_tree txn) key)
          (\<not> (\<exists>x \<in> set (mt_tree txn). rank (fst x) = rank key)) key (put_data txn d flags),
        mt_mc := Some (lower_bound rank (mt_tree txn) key)\<rparr>)"
  using assms
  by (auto simp: mdb_cursor_put_def put_position_plain live_def next_fault_none)

lemma live_mt_mc [simp]: "live rank ok (txn\<lparr>mt_mc := mc\<rparr>) = live rank ok txn"
  by (simp add: live_def)

lemma live_write_at:
  assumes "live rank ok txn" and "ok key"
  shows "live rank ok (txn\<lparr>mt_tree := write_at (mt_tree txn) (lower_bound rank (mt_tree txn) key)
    (\<not> (\<exists>x \<in> set (mt_tree txn). rank (fst x) = rank key)) key d\<rparr>)"
  using sorted_write_at [OF _ assms(2) refl, of "mt_tree txn" d] assms(1) by (simp add: live_def)

lemma mdb_put_live:
  assumes "live rank ok txn" and "ok key"
  shows "\<exists>mc. mdb_put cmp txn key d 0 =
    (0, txn\<lparr>mt_tree := write_at (mt_tree txn) (lower_bound rank (mt_tree txn) key)
          (\<not> (\<exists>x \<in> set (mt_tree txn). rank (fst x) = rank key)) key d, mt_mc := mc\<rparr>)"
  using mdb_cursor_put_live [of "txn\<lparr>mt_mc := None\<rparr>" key 0 d] assms
  by (auto simp: mdb_put_def put_data_def Let_def)

lemma mdb_del_absent:
  assumes "live rank ok txn" and "ok key"
    and "\<not> (\<exists>x \<in> set (mt_tree txn). rank (fst x) = rank key)"
  shows "mdb_del cmp txn key = (MDB_NOTFOUND, txn)"
  using assms by (auto simp: mdb_del_def live_def node_search_spec)

lemma mdb_del_present:
  assumes "live rank ok txn" and "ok key"
    and "\<exists>x \<in> set (mt_tree txn). rank (fst x) = rank key"
  shows "\<exists>mc. mdb_del cmp txn key =
    (0, txn\<lparr>mt_tree := take (lower_bound rank (mt_tree txn) key) (mt_tree txn) @
          drop (lower_bound rank (mt_tree txn) key + 1) (mt_tree txn), mt_mc := mc\<rparr>)"
  using assms by (auto simp: mdb_del_def live_def node_search_spec next_fault_none Let_def)

lemma get_opt_live:
  "live rank ok txn \<Longrightarrow> ok k \<Longrightarrow> get_opt cmp txn k = tree_map rank (mt_tree txn) (rank k)"
  by (simp add: get_opt_def mdb_get_live split: option.split)

lemma put_txn_live:
  assumes "live rank ok txn" and "ok k"
  shows "live rank ok (put_txn cmp txn k d)"
    and "tree_map rank (mt_tree (put_txn cmp txn k d)) =
      (tree_map rank (mt_tree txn))(rank k \<mapsto> d)"
  using mdb_put_live [OF assms, of d] live_write_at [OF assms, of d] assms(1)
    tree_map_write_at [OF _ refl, of "mt_tree txn" k d]
  by (auto simp: put_txn_def live_def)

lemma del_txn_live:
  assumes "live rank ok txn" and "ok k"
  shows "live rank ok (del_txn cmp txn k)"
    and "tree_map rank (mt_tree (del_txn cmp txn k)) =
      (tree_map rank (mt_tree txn))(rank k := None)"
proof -
  have "live rank ok (del_txn cmp txn k) \<and> tree_map rank (mt_tree (del_txn cmp txn k)) =
      (tree_map rank (mt_tree txn))(rank k := None)"
  proof (cases "\<exists>x \<in> set (mt_tree txn). rank (fst x) = rank k")
    case True
    have t: "sorted_tree rank ok (mt_tree txn)" using assms(1) by (simp add: live_def)
    with True have "lower_bound rank (mt_tree txn) k < length (mt_tree txn)"
      and "rank (fst (mt_tree txn ! lower_bound rank (mt_tree txn) k)) = rank k"
      by (simp_all add: present_iff_at_lower_bound)
    then show ?thesis
      using mdb_del_present [OF assms True] tree_map_delete_at [OF t] sorted_delete_at [OF t] assms(1)
      by (auto simp: del_txn_def live_def)
  next
    case False
    then have "tree_map rank (mt_tree txn) (rank k) = None" by (simp add: tree_map_None)
    then show ?thesis
      using mdb_del_absent [OF assms False] assms(1) by (auto simp: del_txn_def)
  qed
  then show "live rank ok (del_txn cmp txn k)"
    and "tree_map rank (mt_tree (del_txn cmp txn k)) =
      (tree_map rank (mt_tree txn))(rank k := None)" by auto
qed

end

text \<open>A comparison function that meets its contract makes the store a map.\<close>

sublocale comparator \<subseteq> kv: kv_store "get_opt cmp" "put_txn cmp" "del_txn cmp" "live rank ok" ok
  "\<lambda>k k'. rank k = rank k'"
  by unfold_locales (auto simp: get_opt_live put_txn_live del_txn_live)

end
