(* ===== verification/Db.thy ===== *)
theory Db
  imports Keys Lmdb
begin

text \<open>
  db.cpp: meta keys, the set-up of a namespace, padded puts, and the queries over
  the \<open>AETV\<close> and \<open>EATV\<close> indices. The store is the model of liblmdb ordered by
  \<open>custom_key_compare\<close>; a function that returns a status together with an output
  parameter returns both, \<open>None\<close> or \<open>True\<close> being the failure the code reports.
\<close>

type_synonym ctxn = "custom_key txn"
type_synonym cenv = "custom_key env"
type_synonym entry = "custom_key \<times> bytes"

abbreviation cmp :: "custom_key \<Rightarrow> custom_key \<Rightarrow> int" where
  "cmp \<equiv> custom_key_compare"

subsection \<open>Constants of db.h\<close>

definition META_TX :: i64 where [simp]: "META_TX = 0"
definition META_ID :: i64 where [simp]: "META_ID = 1"
definition META_VERSION_MAJOR :: i64 where [simp]: "META_VERSION_MAJOR = 2"
definition META_VERSION_MINOR :: i64 where [simp]: "META_VERSION_MINOR = 3"
definition META_VERSION_PATCH :: i64 where [simp]: "META_VERSION_PATCH = 4"

definition NSTORE_VERSION_MAJOR :: i64 where [simp]: "NSTORE_VERSION_MAJOR = 0"
definition NSTORE_VERSION_MINOR :: i64 where [simp]: "NSTORE_VERSION_MINOR = 0"
definition NSTORE_VERSION_PATCH :: i64 where [simp]: "NSTORE_VERSION_PATCH = 0"

definition db_ident :: i64 where [simp]: "db_ident = 1"
definition db_type :: i64 where [simp]: "db_type = 2"
definition db_cardinality :: i64 where [simp]: "db_cardinality = 3"
definition db_unique :: i64 where [simp]: "db_unique = 4"
definition db_type_value :: i64 where [simp]: "db_type_value = 5"
definition db_type_ref :: i64 where [simp]: "db_type_ref = 6"
definition db_cardinality_one :: i64 where [simp]: "db_cardinality_one = 7"
definition db_cardinality_many :: i64 where [simp]: "db_cardinality_many = 8"
definition db_unique_no :: i64 where [simp]: "db_unique_no = 9"
definition db_unique_yes :: i64 where [simp]: "db_unique_yes = 10"
definition db_initial_id :: i64 where [simp]: "db_initial_id = 11"

subsection \<open>Meta keys\<close>

definition fill_meta_key :: "custom_key \<Rightarrow> namespace_t \<Rightarrow> i64 \<Rightarrow> custom_key" where
  "fill_meta_key ck ns mid = ck\<lparr>ck_type := KEY_META, ck_ns := ns, ck_e := mid\<rparr>"

definition i64_bytes :: "i64 \<Rightarrow> bytes" where
  "i64_bytes w = le_bytes 8 (uint w)"

definition bytes_i64 :: "bytes \<Rightarrow> i64" where
  "bytes_i64 d = word_of_int (le_int (take 8 d))"

definition put_meta :: "ctxn \<Rightarrow> namespace_t \<Rightarrow> i64 \<Rightarrow> i64 \<Rightarrow> bool \<times> ctxn" where
  "put_meta txn ns mid val =
     (let (rc, txn) = mdb_put cmp txn (fill_meta_key zero_key ns mid) (i64_bytes val) 0
      in (rc \<noteq> 0, txn))"

definition get_meta :: "ctxn \<Rightarrow> namespace_t \<Rightarrow> i64 \<Rightarrow> i64 option" where
  "get_meta txn ns mid =
     (case mdb_get cmp txn (fill_meta_key zero_key ns mid) of
        Inl rc \<Rightarrow> None
      | Inr d \<Rightarrow> Some (bytes_i64 d))"

definition exists_ns :: "ctxn \<Rightarrow> namespace_t \<Rightarrow> bool" where
  "exists_ns txn ns \<longleftrightarrow> get_meta txn ns META_TX \<noteq> None"

subsection \<open>Setting up a namespace\<close>

text \<open>
  The lambdas of \<open>setup\<close> share the key \<open>ck\<close> and the cursor; the model passes
  the pair of the key and the transaction along. The return codes of the puts
  are dropped, as in the code.
\<close>

type_synonym setup_st = "custom_key \<times> ctxn"

definition fill_idx :: "setup_st \<Rightarrow> setup_st" where
  "fill_idx st =
     (let (ck, txn) = st;
          ck = ck\<lparr>ck_sort := SORT_EATV\<rparr>;
          txn = snd (mdb_cursor_put cmp txn ck [] 0);
          ck = ck\<lparr>ck_sort := SORT_AETV\<rparr>;
          txn = snd (mdb_cursor_put cmp txn ck [] 0)
      in (ck, txn))"

definition ins_int :: "entity_t \<Rightarrow> attribute_t \<Rightarrow> i64 \<Rightarrow> setup_st \<Rightarrow> setup_st" where
  "ins_int e a v st =
     fill_idx ((fst st)\<lparr>ck_type := KEY_INTEGER, ck_pad := 0, ck_e := e, ck_a := a,
       ck_v := set_v_i v (ck_v (fst st))\<rparr>, snd st)"

definition strncpy32 :: "string \<Rightarrow> key_value" where
  "strncpy32 s = take 32 s @ replicate (32 - length s) (CHR 0x00)"

definition ins_str :: "entity_t \<Rightarrow> attribute_t \<Rightarrow> string \<Rightarrow> setup_st \<Rightarrow> setup_st" where
  "ins_str e a v st =
     fill_idx ((fst st)\<lparr>ck_type := KEY_BLOB, ck_pad := of_nat (length v + 1), ck_e := e,
       ck_a := a, ck_v := strncpy32 v\<rparr>, snd st)"

definition ins_unique :: "entity_t \<Rightarrow> setup_st \<Rightarrow> setup_st" where
  "ins_unique unique_e st =
     (let (ck, txn) = st;
          ck = ck\<lparr>ck_type := KEY_UNIQUE, ck_sort := 0, ck_e := 0, ck_t := 0\<rparr>
      in (ck, snd (mdb_cursor_put cmp txn ck (i64_bytes unique_e) 0)))"

definition setup_facts :: "(setup_st \<Rightarrow> setup_st) list" where
  "setup_facts =
     [ins_str db_ident db_ident '':db/ident'', ins_unique db_ident,
      ins_str db_type db_ident '':db/type'', ins_unique db_type,
      ins_str db_cardinality db_ident '':db/cardinality'', ins_unique db_cardinality,
      ins_str db_unique db_ident '':db/unique'', ins_unique db_unique,
      ins_int db_ident db_type db_type_value,
      ins_int db_type db_type db_type_ref,
      ins_int db_cardinality db_type db_type_ref,
      ins_int db_unique db_type db_type_ref,
      ins_int db_ident db_cardinality db_cardinality_one,
      ins_int db_type db_cardinality db_cardinality_one,
      ins_int db_cardinality db_cardinality db_cardinality_one,
      ins_int db_unique db_cardinality db_cardinality_one,
      ins_int db_ident db_unique db_unique_yes,
      ins_int db_type db_unique db_unique_no,
      ins_int db_cardinality db_unique db_unique_no,
      ins_int db_unique db_unique db_unique_no,
      ins_str db_type_value db_ident '':db.type/value'',
      ins_str db_type_ref db_ident '':db.type/ref'',
      ins_str db_cardinality_one db_ident '':db.cardinality/one'',
      ins_str db_cardinality_many db_ident '':db.cardinality/many'',
      ins_str db_unique_no db_ident '':db.unique/no'',
      ins_str db_unique_yes db_ident '':db.unique/yes'']"

text \<open>
  Meta values put one after the other until one fails: the chains of \<open>||\<close> and of
  early returns at the start of \<open>setup\<close>.
\<close>

fun put_metas :: "namespace_t \<Rightarrow> (i64 \<times> i64) list \<Rightarrow> ctxn \<Rightarrow> bool \<times> ctxn" where
  "put_metas ns [] txn = (False, txn)"
| "put_metas ns ((mid, val) # ms) txn =
     (let (failed, txn) = put_meta txn ns mid val in
      if failed then (True, txn) else put_metas ns ms txn)"

definition setup_metas :: "namespace_t \<Rightarrow> (i64 \<times> i64) list" where
  "setup_metas ns =
     (if ns = 0 then
        [(META_VERSION_MAJOR, NSTORE_VERSION_MAJOR), (META_VERSION_MINOR, NSTORE_VERSION_MINOR),
         (META_VERSION_PATCH, NSTORE_VERSION_PATCH)]
      else []) @ [(META_TX, 1), (META_ID, db_initial_id)]"

definition db_setup :: "ctxn \<Rightarrow> namespace_t \<Rightarrow> bool \<times> ctxn" where
  "db_setup txn ns =
     (if exists_ns txn ns then (True, txn)
      else
        (let (failed, txn) = put_metas ns (setup_metas ns) txn in
         if failed then (True, txn)
         else
           (let (rc, txn) = mdb_cursor_open txn in
            if rc \<noteq> 0 then (True, txn)
            else (False,
              snd (foldl (\<lambda>st f. f st) (zero_key\<lparr>ck_ns := ns, ck_t := 0\<rparr>, txn) setup_facts)))))"

subsection \<open>Opening the database\<close>

definition pop_fault :: "int list \<Rightarrow> int \<times> int list" where
  "pop_fault fs = (case fs of [] \<Rightarrow> (0, []) | c # cs \<Rightarrow> (c, cs))"

text \<open>
  The results of \<open>mdb_env_create\<close>, \<open>mdb_env_set_mapsize\<close> and \<open>mdb_env_open\<close>
  come from the schedule; \<open>env\<close> is what the file holds. The result of \<open>setup\<close>
  and of the commit are dropped, as in the code.
\<close>

definition open_db :: "cenv \<Rightarrow> int list \<Rightarrow> int \<times> cenv" where
  "open_db env faults =
     (let (rc, faults) = pop_fault faults in
      if rc \<noteq> 0 then (rc, env)
      else let (rc, faults) = pop_fault faults in
      if rc \<noteq> 0 then (rc, env)
      else let (rc, faults) = pop_fault faults in
      if rc \<noteq> 0 then (rc, env)
      else let (rc, txn) = mdb_txn_begin env faults in
      if rc \<noteq> 0 then (rc, env)
      else let (rc, txn) = next_fault txn in
      if rc \<noteq> 0 then (rc, mdb_txn_abort env txn)
      else let (_, txn) = db_setup txn 0;
               (_, env) = mdb_txn_commit env txn
           in (0, env))"

subsection \<open>Padded puts\<close>

text \<open>The \<open>memcpy\<close> into the area that \<open>MDB_RESERVE\<close> returned.\<close>

definition memcpy_reserved :: "ctxn \<Rightarrow> bytes \<Rightarrow> ctxn" where
  "memcpy_reserved txn d =
     (case mt_mc txn of
        None \<Rightarrow> txn
      | Some i \<Rightarrow>
          (let (k, old) = mt_tree txn ! i in
           txn\<lparr>mt_tree := (mt_tree txn)[i := (k, d @ drop (length d) old)]\<rparr>))"

definition cursor_put_padded :: "ctxn \<Rightarrow> custom_key \<Rightarrow> bytes \<Rightarrow> int \<times> ctxn" where
  "cursor_put_padded txn key d =
     (let pad = sint (ck_pad key) in
      if pad < 0 then
        (let v = replicate (length d + nat (- pad)) (CHR 0x00);
             (rc, txn) = mdb_cursor_put cmp txn key v MDB_RESERVE
         in if rc \<noteq> 0 then (rc, txn) else (rc, memcpy_reserved txn d))
      else mdb_cursor_put cmp txn key d (of_nat (length d)))"

subsection \<open>Queries\<close>

text \<open>
  \<open>query\<close> calls the visitor on the entries from the first one not below
  \<open>start\<close>, in key order, until it asks to stop. The visitor's captured variables
  are the state \<open>'s\<close>.
\<close>

type_synonym 's visitor = "custom_key \<Rightarrow> bytes \<Rightarrow> 's \<Rightarrow> bool \<times> 's"

function query_loop :: "ctxn \<Rightarrow> 's visitor \<Rightarrow> nat \<Rightarrow> custom_key \<Rightarrow> bytes \<Rightarrow> 's \<Rightarrow> 's" where
  "query_loop txn visitor i k d s =
     (let (stop, s) = visitor k d s in
      if stop then s
      else case mdb_cursor_get cmp txn (Some i) k MDB_NEXT of
        Inl rc \<Rightarrow> s
      | Inr (i', k', d') \<Rightarrow> query_loop txn visitor i' k' d' s)"
  by pat_completeness auto
termination
  by (relation "measure (\<lambda>(txn, visitor, i, k, d, s). length (mt_tree txn) - i)")
    (auto simp: mdb_cursor_get_def Let_def split: if_splits)

declare query_loop.simps [simp del]

definition query :: "ctxn \<Rightarrow> custom_key \<Rightarrow> 's visitor \<Rightarrow> 's \<Rightarrow> bool \<times> ctxn \<times> 's" where
  "query txn start visitor s =
     (let (rc, txn) = mdb_cursor_open txn in
      if rc \<noteq> 0 then (True, txn, s)
      else case mdb_cursor_get cmp txn None start MDB_SET_RANGE of
        Inl rc \<Rightarrow> (True, txn, s)
      | Inr (i, k, d) \<Rightarrow> (False, txn, query_loop txn visitor i k d s))"

text \<open>
  A datom. The constructor for strings leaves the integer member \<open>v\<close>
  uninitialised; its value is then whatever the memory holds.
\<close>

record datom =
  d_e :: entity_t
  d_a :: attribute_t
  d_v :: i64
  d_vs :: bytes
  d_t :: transaction_t
  d_r :: bool
  d_is_int :: bool

definition datom_int :: "entity_t \<Rightarrow> attribute_t \<Rightarrow> i64 \<Rightarrow> transaction_t \<Rightarrow> bool \<Rightarrow> datom" where
  "datom_int e a v t r =
     \<lparr>d_e = e, d_a = a, d_v = v, d_vs = [], d_t = t, d_r = r, d_is_int = True\<rparr>"

definition datom_str ::
  "i64 \<Rightarrow> entity_t \<Rightarrow> attribute_t \<Rightarrow> bytes \<Rightarrow> transaction_t \<Rightarrow> bool \<Rightarrow> datom" where
  "datom_str uninit e a v t r =
     \<lparr>d_e = e, d_a = a, d_v = uninit, d_vs = v, d_t = t, d_r = r, d_is_int = False\<rparr>"

text \<open>
  The value kept for a live fact, \<open>std::tuple<bool, int64_t, std::string, int64_t>\<close>,
  and the map \<open>current\<close> from the 32 value bytes of the key. An unordered map is an
  association list; its iteration order is that of insertion here, one of the
  orders the standard allows, and the results below do not depend on it.
\<close>

type_synonym cell = "bool \<times> i64 \<times> bytes \<times> i64"
type_synonym current = "(bytes \<times> cell) list"

definition entry_cell :: "custom_key \<Rightarrow> bytes \<Rightarrow> cell" where
  "entry_cell k d =
     (if ck_type k = KEY_INTEGER then (False, v_i (ck_v k), [], signed_drop_bit 1 (ck_t k))
      else if sint (ck_pad k) > 0 then
        (True, -1, take (nat (sint (ck_pad k) - 1)) (ck_v k), signed_drop_bit 1 (ck_t k))
      else
        (True, -1, take (nat (int (length d) + sint (ck_pad k))) d, signed_drop_bit 1 (ck_t k)))"

definition step_current :: "custom_key \<Rightarrow> bytes \<Rightarrow> current \<Rightarrow> current" where
  "step_current k d current =
     (if ck_t k AND 1 \<noteq> 0 then AList.delete (ck_v k) current
      else AList.update (ck_v k) (entry_cell k d) current)"

record query_st =
  qs_q :: "datom list"
  qs_current :: current
  qs_last_e :: entity_t

definition junk_i64 :: "ctxn \<Rightarrow> i64" where
  "junk_i64 txn = bytes_i64 (map (mt_junk txn) [0..<8])"

definition cell_datom :: "i64 \<Rightarrow> entity_t \<Rightarrow> attribute_t \<Rightarrow> cell \<Rightarrow> datom" where
  "cell_datom uninit e a c =
     (case c of (is_str, i, s, t) \<Rightarrow>
        if is_str then datom_str uninit e a s t False else datom_int e a i t False)"

definition write_batch :: "i64 \<Rightarrow> attribute_t \<Rightarrow> query_st \<Rightarrow> query_st" where
  "write_batch uninit a st =
     st\<lparr>qs_q := qs_q st @ map (\<lambda>(_, c). cell_datom uninit (qs_last_e st) a c) (qs_current st),
       qs_current := []\<rparr>"

definition query_a_visitor ::
  "i64 \<Rightarrow> namespace_t \<Rightarrow> transaction_t \<Rightarrow> attribute_t \<Rightarrow> query_st visitor" where
  "query_a_visitor uninit ns tx a k d st =
     (if ck_a k \<noteq> a \<or> ck_ns k \<noteq> ns \<or> ck_sort k \<noteq> SORT_AETV then (True, st)
      else if sint tx < sint (ck_t k) then (False, st)
      else
        (let st = (if ck_e k \<noteq> qs_last_e st then write_batch uninit a st else st) in
         (False, st\<lparr>qs_current := step_current k d (qs_current st), qs_last_e := ck_e k\<rparr>)))"

definition query_a ::
  "ctxn \<Rightarrow> namespace_t \<Rightarrow> transaction_t \<Rightarrow> attribute_t \<Rightarrow> ctxn \<times> datom list" where
  "query_a txn ns tx a =
     (let min_key = zero_key\<lparr>ck_ns := ns, ck_type := KEY_MIN_SENTINEL, ck_sort := SORT_AETV,
            ck_a := a\<rparr>;
          tx = push_bit 1 tx + 1;
          (_, txn, st) = query txn min_key (query_a_visitor (junk_i64 txn) ns tx a)
            \<lparr>qs_q = [], qs_current = [], qs_last_e = -1\<rparr>
      in (txn, qs_q (write_batch (junk_i64 txn) a st)))"

definition last_datom :: "ctxn \<Rightarrow> custom_key \<Rightarrow> bool \<times> ctxn \<times> custom_key" where
  "last_datom txn start =
     (let (rc, txn) = mdb_cursor_open txn in
      if rc \<noteq> 0 then (True, txn, start)
      else
        (let e = ck_e start; a = ck_a start; ns = ck_ns start;
             start = start\<lparr>ck_sort := SORT_EATV, ck_a := a + 1, ck_t := -1\<rparr>
         in case mdb_cursor_get cmp txn None start MDB_SET_RANGE of
              Inl rc \<Rightarrow> (True, txn, start)
            | Inr (i, k, d) \<Rightarrow>
                (case mdb_cursor_get cmp txn (Some i) k MDB_PREV of
                   Inl rc \<Rightarrow> (True, txn, start)
                 | Inr (i', k', d') \<Rightarrow>
                     (e \<noteq> ck_e k' \<or> a \<noteq> ck_a k' \<or> ns \<noteq> ck_ns k', txn, k'))))"

subsection \<open>The key order meets the contract of the store\<close>

definition ns_ok :: "namespace_t \<Rightarrow> bool" where
  "ns_ok ns \<longleftrightarrow> uint ns < 2147483648"

abbreviation clive :: "ctxn \<Rightarrow> bool" where
  "clive \<equiv> live key_rank key_ok"

abbreviation cmap :: "ctxn \<Rightarrow> int list \<rightharpoonup> bytes" where
  "cmap txn \<equiv> tree_map key_rank (mt_tree txn)"

lemma in_window_numeral [simp]: "in_window 0" "in_window 1" "in_window (-1)"
  by (simp_all add: in_window_def)

interpretation ck: comparator custom_key_compare key_rank key_ok
  by unfold_locales (rule compare_rank)

lemma bytes_i64_bytes [simp]: "bytes_i64 (i64_bytes w) = w"
proof -
  have "le_int (take 8 (le_bytes 8 (uint w))) = uint w mod 256 ^ 8"
    by (simp add: le_int_le_bytes)
  also have "\<dots> = uint w" using uint_bounded [of w] by (simp add: mod_pos_pos_trivial)
  finally show ?thesis by (simp add: bytes_i64_def i64_bytes_def)
qed

lemma meta_key_ok: "ns_ok ns \<Longrightarrow> in_window mid \<Longrightarrow> key_ok (fill_meta_key zero_key ns mid)"
  by (simp add: key_ok_def fill_meta_key_def zero_key_def ns_ok_def)

lemma meta_key_rank: "key_rank (fill_meta_key zero_key ns mid) = [uint ns, 0, sint mid]"
  by (simp add: key_rank_def fill_meta_key_def zero_key_def)

lemma get_meta_live:
  assumes "clive txn" and "ns_ok ns" and "in_window mid"
  shows "get_meta txn ns mid = map_option bytes_i64 (cmap txn [uint ns, 0, sint mid])"
  using assms
  by (simp add: get_meta_def ck.mdb_get_live meta_key_ok meta_key_rank split: option.split)

lemma put_meta_live:
  assumes "clive txn" and "ns_ok ns" and "in_window mid"
  shows "\<exists>txn'. put_meta txn ns mid val = (False, txn') \<and> clive txn' \<and>
    cmap txn' = (cmap txn)([uint ns, 0, sint mid] \<mapsto> i64_bytes val)"
proof -
  let ?k = "fill_meta_key zero_key ns mid"
  have k: "key_ok ?k" using assms by (simp add: meta_key_ok)
  have "mdb_put cmp txn ?k (i64_bytes val) 0 = (0, put_txn cmp txn ?k (i64_bytes val))"
    using ck.mdb_put_live [OF assms(1) k, of "i64_bytes val"] by (auto simp: put_txn_def)
  then show ?thesis
    using ck.put_txn_live [OF assms(1) k] by (auto simp: put_meta_def meta_key_rank)
qed

lemma cursor_put_live:
  assumes "clive txn" and "key_ok k"
  shows "\<exists>txn'. mdb_cursor_put cmp txn k d 0 = (0, txn') \<and> clive txn' \<and>
    cmap txn' = (cmap txn)(key_rank k \<mapsto> d)"
  using ck.mdb_cursor_put_live [OF assms, of 0 d] ck.live_write_at [OF assms, of d]
    ck.tree_map_write_at [OF _ refl, of "mt_tree txn" k d] assms(1)
  by (auto simp: put_data_def live_def)

subsection \<open>What the set-up writes\<close>

text \<open>
  The steps of \<open>setup\<close> write data and unique keys of their own namespace only:
  whatever has another rank is as it was.
\<close>

definition own_rank :: "namespace_t \<Rightarrow> int list \<Rightarrow> bool" where
  "own_rank ns r \<longleftrightarrow> (\<exists>x xs. r = uint ns # x # xs \<and> x \<noteq> 0)"

definition setup_key :: "namespace_t \<Rightarrow> custom_key \<Rightarrow> bool" where
  "setup_key ns ck \<longleftrightarrow> ck_ns ck = ns \<and> ck_t ck = 0 \<and> in_window (ck_a ck) \<and>
     length (ck_v ck) = 32"

definition setup_inv :: "namespace_t \<Rightarrow> (int list \<rightharpoonup> bytes) \<Rightarrow> setup_st \<Rightarrow> bool" where
  "setup_inv ns m st \<longleftrightarrow> setup_key ns (fst st) \<and> clive (snd st) \<and>
     (\<forall>r. \<not> own_rank ns r \<longrightarrow> cmap (snd st) r = m r)"

lemma own_rank_key:
  assumes "ck_type k \<noteq> 0"
  shows "own_rank (ck_ns k) (key_rank k)"
  using assms by (auto simp: own_rank_def key_rank_def uint_0_iff)

lemma setup_put:
  assumes "setup_inv ns m (ck', txn)" and "setup_key ns k" and "key_ok k" and "ck_type k \<noteq> 0"
  shows "setup_inv ns m (k, snd (mdb_cursor_put cmp txn k d 0))"
proof -
  have "clive txn" using assms(1) by (simp add: setup_inv_def)
  then obtain txn' where "mdb_cursor_put cmp txn k d 0 = (0, txn')" "clive txn'"
    "cmap txn' = (cmap txn)(key_rank k \<mapsto> d)" using cursor_put_live assms(3) by blast
  moreover have "own_rank ns (key_rank k)"
    using own_rank_key [OF assms(4)] assms(2) by (simp add: setup_key_def)
  ultimately show ?thesis using assms(1,2) by (auto simp: setup_inv_def)
qed

lemma fill_idx_inv:
  assumes "setup_inv ns m (ck', txn)" and "setup_key ns ck" and "key_ok ck" and "ck_type ck \<noteq> 0"
  shows "setup_inv ns m (fill_idx (ck, txn))"
proof -
  have "setup_inv ns m (ck\<lparr>ck_sort := SORT_EATV\<rparr>,
      snd (mdb_cursor_put cmp txn (ck\<lparr>ck_sort := SORT_EATV\<rparr>) [] 0))"
    by (rule setup_put [OF assms(1)])
      (use assms(2-4) in \<open>simp_all add: setup_key_def key_ok_def\<close>)
  then show ?thesis
    unfolding fill_idx_def Let_def prod.case
    by (rule setup_put [where ns = ns]) (use assms(2-4) in \<open>simp_all add: setup_key_def key_ok_def\<close>)
qed

lemma length_strncpy32 [simp]: "length (strncpy32 s) = 32"
  by (simp add: strncpy32_def)

lemma ins_int_inv:
  assumes "setup_inv ns m st" and "ns_ok ns" and "in_window e" and "in_window a" and "in_window v"
  shows "setup_inv ns m (ins_int e a v st)"
  using assms unfolding ins_int_def
  by (intro fill_idx_inv [where ck' = "fst st"])
    (auto simp: setup_inv_def setup_key_def key_ok_def ns_ok_def)

lemma ins_str_inv:
  assumes "setup_inv ns m st" and "ns_ok ns" and "in_window e" and "in_window a"
  shows "setup_inv ns m (ins_str e a s st)"
  using assms unfolding ins_str_def
  by (intro fill_idx_inv [where ck' = "fst st"])
    (auto simp: setup_inv_def setup_key_def key_ok_def ns_ok_def)

lemma ins_unique_inv:
  assumes "setup_inv ns m st" and "ns_ok ns"
  shows "setup_inv ns m (ins_unique e st)"
proof (cases st)
  case (Pair ck txn)
  show ?thesis
    unfolding Pair ins_unique_def Let_def prod.case
    by (rule setup_put [OF assms(1) [unfolded Pair]])
      (use assms in \<open>auto simp: Pair setup_inv_def setup_key_def key_ok_def ns_ok_def\<close>)
qed

lemma in_window_small [simp]:
  "in_window 2" "in_window 3" "in_window 4" "in_window 5" "in_window 6" "in_window 7"
  "in_window 8" "in_window 9" "in_window 10" "in_window 11"
  by (simp_all add: in_window_def)

lemma setup_facts_inv:
  assumes "ns_ok ns" and "f \<in> set setup_facts" and "setup_inv ns m st"
  shows "setup_inv ns m (f st)"
  using assms(2) unfolding setup_facts_def
  by (auto intro!: ins_str_inv ins_unique_inv ins_int_inv assms)

lemma foldl_inv:
  "(\<And>f st. f \<in> set fs \<Longrightarrow> P st \<Longrightarrow> P (f st)) \<Longrightarrow> P st \<Longrightarrow> P (foldl (\<lambda>st f. f st) st fs)"
  by (induction fs arbitrary: st) auto

definition meta_upd ::
  "namespace_t \<Rightarrow> (int list \<rightharpoonup> bytes) \<Rightarrow> i64 \<times> i64 \<Rightarrow> (int list \<rightharpoonup> bytes)" where
  "meta_upd ns m x = m([uint ns, 0, sint (fst x)] \<mapsto> i64_bytes (snd x))"

lemma put_metas_live:
  assumes "clive txn" and "ns_ok ns" and "\<forall>x \<in> set ms. in_window (fst x)"
  shows "\<exists>txn'. put_metas ns ms txn = (False, txn') \<and> clive txn' \<and>
    cmap txn' = foldl (meta_upd ns) (cmap txn) ms"
  using assms
proof (induction ms arbitrary: txn)
  case Nil
  then show ?case by simp
next
  case (Cons x ms)
  obtain mid val where x: "x = (mid, val)" by fastforce
  with Cons.prems have "in_window mid" by simp
  then obtain txn' where p: "put_meta txn ns mid val = (False, txn')" "clive txn'"
    "cmap txn' = (cmap txn)([uint ns, 0, sint mid] \<mapsto> i64_bytes val)"
    using put_meta_live Cons.prems(1,2) by blast
  have "\<exists>txn''. put_metas ns ms txn' = (False, txn'') \<and> clive txn'' \<and>
    cmap txn'' = foldl (meta_upd ns) (cmap txn') ms"
    using Cons.prems(3) by (intro Cons.IH p(2) Cons.prems(2)) simp
  moreover have "cmap txn' = meta_upd ns (cmap txn) x"
    using p(3) by (simp add: meta_upd_def x)
  ultimately show ?case by (simp add: x p(1))
qed

lemma setup_metas_window: "\<forall>x \<in> set (setup_metas ns). in_window (fst x)"
  by (cases "ns = 0") (simp_all add: setup_metas_def)

text \<open>
  A set-up on a live transaction succeeds; it leaves the counters at their
  initial values and does not touch the other namespaces.
\<close>

lemma db_setup_live:
  assumes "clive txn" and "ns_ok ns" and "\<not> exists_ns txn ns"
  shows "\<exists>txn'. db_setup txn ns = (False, txn') \<and> clive txn' \<and>
    get_meta txn' ns META_TX = Some 1 \<and> get_meta txn' ns META_ID = Some db_initial_id \<and>
    (\<forall>r. take 1 r \<noteq> [uint ns] \<longrightarrow> cmap txn' r = cmap txn r)"
proof -
  obtain txn1 where metas: "put_metas ns (setup_metas ns) txn = (False, txn1)" "clive txn1"
    "cmap txn1 = foldl (meta_upd ns) (cmap txn) (setup_metas ns)"
    using put_metas_live [OF assms(1,2) setup_metas_window] by blast
  let ?st = "(zero_key\<lparr>ck_ns := ns, ck_t := 0\<rparr>, txn1)"
  have "setup_inv ns (cmap txn1) ?st"
    using metas(2) by (simp add: setup_inv_def setup_key_def zero_key_def)
  then have inv: "setup_inv ns (cmap txn1) (foldl (\<lambda>st f. f st) ?st setup_facts)"
    by (rule foldl_inv [rotated]) (rule setup_facts_inv [OF assms(2)])
  let ?txn' = "snd (foldl (\<lambda>st f. f st) ?st setup_facts)"
  have "db_setup txn ns = (False, ?txn')"
    using assms(3) metas(1,2) by (simp add: db_setup_def mdb_cursor_open_def next_fault_def live_def)
  moreover have live: "clive ?txn'" using inv by (simp add: setup_inv_def)
  moreover have rest: "cmap ?txn' r = cmap txn1 r" if "\<not> own_rank ns r" for r
    using inv that by (simp add: setup_inv_def)
  moreover have "cmap txn1 [uint ns, 0, 0] = Some (i64_bytes 1)"
    "cmap txn1 [uint ns, 0, 1] = Some (i64_bytes db_initial_id)"
    by (simp_all add: metas(3) setup_metas_def meta_upd_def)
  moreover have "cmap txn1 r = cmap txn r" if "take 1 r \<noteq> [uint ns]" for r
    using that by (cases "ns = 0") (auto simp: metas(3) setup_metas_def meta_upd_def)
  moreover have "\<not> own_rank ns r" if "take 1 r \<noteq> [uint ns]" for r
    using that by (auto simp: own_rank_def)
  ultimately show ?thesis
    by (intro exI [of _ ?txn']) (simp add: get_meta_live assms(2) rest own_rank_def)
qed

end
