(* ===== verification/Batch.thy ===== *)
theory Batch
  imports Nstore_Prelude
begin

text \<open>
  The scan both fact queries share: entries arrive grouped by a key \<open>g\<close>; a map
  of live values is built per group and written out (\<open>emit\<close>) when the group
  changes and once more after the scan. \<open>batch_result\<close> states the outcome without
  the loop: one batch per group, each computed from its own entries alone.
\<close>

definition batch_step ::
  "('x \<Rightarrow> 'g) \<Rightarrow> ('x \<Rightarrow> ('k \<times> 'c) list \<Rightarrow> ('k \<times> 'c) list) \<Rightarrow> ('g \<Rightarrow> ('k \<times> 'c) list \<Rightarrow> 'o list) \<Rightarrow>
    'o list \<times> ('k \<times> 'c) list \<times> 'g \<Rightarrow> 'x \<Rightarrow> 'o list \<times> ('k \<times> 'c) list \<times> 'g" where
  "batch_step g step emit st x =
     (case st of (out, cur, l) \<Rightarrow>
        if g x \<noteq> l then (out @ emit l cur, step x [], g x)
        else (out, step x cur, g x))"

definition group_of :: "('x \<Rightarrow> 'g) \<Rightarrow> ('x \<Rightarrow> ('k \<times> 'c) list \<Rightarrow> ('k \<times> 'c) list) \<Rightarrow> 'x list \<Rightarrow> 'g \<Rightarrow>
    ('k \<times> 'c) list" where
  "group_of g step xs e = foldl (\<lambda>cur x. step x cur) [] (filter (\<lambda>x. g x = e) xs)"

definition batch_result :: "('x \<Rightarrow> 'g) \<Rightarrow> ('x \<Rightarrow> ('k \<times> 'c) list \<Rightarrow> ('k \<times> 'c) list) \<Rightarrow>
    ('g \<Rightarrow> ('k \<times> 'c) list \<Rightarrow> 'o list) \<Rightarrow> 'x list \<Rightarrow> 'o list" where
  "batch_result g step emit xs =
     concat (map (\<lambda>e. emit e (group_of g step xs e)) (remdups_adj (map g xs)))"

lemma remdups_adj_snoc:
  "remdups_adj (xs @ [x]) =
     (if xs \<noteq> [] \<and> last xs = x then remdups_adj xs else remdups_adj xs @ [x])"
  by (induction xs rule: remdups_adj.induct) auto

lemma group_of_snoc:
  "group_of g step (xs @ [x]) e =
     (if g x = e then step x (group_of g step xs e) else group_of g step xs e)"
  by (simp add: group_of_def)

lemma group_of_absent: "e \<notin> g ` set xs \<Longrightarrow> group_of g step xs e = []"
proof -
  assume "e \<notin> g ` set xs"
  then have "filter (\<lambda>x. g x = e) xs = []" by (auto simp: filter_empty_conv)
  then show ?thesis by (simp add: group_of_def)
qed

lemma batch_step_apply:
  "batch_step g step emit (out, cur, l) x =
     (if g x \<noteq> l then (out @ emit l cur, step x [], g x) else (out, step x cur, g x))"
  by (simp add: batch_step_def)

lemma group_of_snoc_same:
  "group_of g step (xs @ [x]) (g x) = step x (group_of g step xs (g x))"
  by (simp add: group_of_snoc)

lemma emit_groups_snoc:
  "g x \<notin> set es \<Longrightarrow> map (\<lambda>e. emit e (group_of g step (xs @ [x]) e)) es =
     map (\<lambda>e. emit e (group_of g step xs e)) es"
  by (auto simp: group_of_snoc)

text \<open>The state of the loop after any prefix of grouped entries.\<close>

lemma batch_fold:
  assumes "distinct (remdups_adj (map g xs))" and "xs \<noteq> []"
    and "emit l0 [] = []" and "l0 \<notin> g ` set xs"
  shows "foldl (batch_step g step emit) ([], [], l0) xs =
    (concat (map (\<lambda>e. emit e (group_of g step xs e)) (butlast (remdups_adj (map g xs)))),
     group_of g step xs (g (last xs)), g (last xs))"
  using assms
proof (induction xs rule: rev_induct)
  case Nil
  then show ?case by simp
next
  case (snoc x xs)
  show ?case
  proof (cases "xs = []")
    case True
    then show ?thesis using snoc.prems by (simp add: batch_step_apply group_of_def)
  next
    case False
    let ?es = "remdups_adj (map g xs)"
    have es: "?es \<noteq> []" "last ?es = g (last xs)" using False by (simp_all add: last_map)
    have dist: "distinct ?es"
      using snoc.prems(1) by (auto simp: remdups_adj_snoc split: if_splits)
    have IH: "foldl (batch_step g step emit) ([], [], l0) xs =
      (concat (map (\<lambda>e. emit e (group_of g step xs e)) (butlast ?es)),
       group_of g step xs (g (last xs)), g (last xs))"
      using snoc.IH [OF dist False snoc.prems(3)] snoc.prems(4) by auto
    show ?thesis
    proof (cases "g x = g (last xs)")
      case True
      have "distinct (butlast ?es @ [g x])"
        using dist es True by (metis append_butlast_last_id)
      then have other: "e \<noteq> g x" if "e \<in> set (butlast ?es)" for e
        using that by auto
      then have notin: "g x \<notin> set (butlast ?es)" by blast
      have rem: "remdups_adj (map g (xs @ [x])) = ?es"
        using \<open>xs \<noteq> []\<close> True by (simp add: remdups_adj_snoc last_map)
      have "foldl (batch_step g step emit) ([], [], l0) (xs @ [x]) =
          (concat (map (\<lambda>e. emit e (group_of g step xs e)) (butlast ?es)),
           step x (group_of g step xs (g x)), g x)"
        using IH True by (simp add: batch_step_apply)
      then show ?thesis
        by (simp only: rem last_snoc emit_groups_snoc [of g x, OF notin] group_of_snoc_same)
    next
      case False
      have rem: "remdups_adj (map g (xs @ [x])) = ?es @ [g x]"
        using \<open>xs \<noteq> []\<close> False by (simp add: remdups_adj_snoc last_map)
      then have fresh: "g x \<notin> set ?es" using snoc.prems(1) by simp
      then have absent: "group_of g step xs (g x) = []" by (simp add: group_of_absent)
      have "?es = butlast ?es @ [g (last xs)]" using es by (metis append_butlast_last_id)
      then have "concat (map (\<lambda>e. emit e (group_of g step xs e)) ?es) =
          concat (map (\<lambda>e. emit e (group_of g step xs e)) (butlast ?es @ [g (last xs)]))"
        by (rule arg_cong)
      then have "foldl (batch_step g step emit) ([], [], l0) (xs @ [x]) =
          (concat (map (\<lambda>e. emit e (group_of g step xs e)) ?es), step x [], g x)"
        using IH False by (simp add: batch_step_apply)
      then show ?thesis
        by (simp only: rem last_snoc butlast_snoc emit_groups_snoc [of g x, OF fresh] group_of_snoc_same
            absent)
    qed
  qed
qed

text \<open>The whole scan, with the batch written after it.\<close>

lemma batch_run:
  assumes "distinct (remdups_adj (map g xs))" and "emit l0 [] = []" and "l0 \<notin> g ` set xs"
    and "foldl (batch_step g step emit) ([], [], l0) xs = (out, cur, l)"
  shows "out @ emit l cur = batch_result g step emit xs"
proof (cases "xs = []")
  case True
  then show ?thesis using assms(2,4) by (auto simp: batch_result_def)
next
  case False
  let ?es = "remdups_adj (map g xs)"
  have es: "?es \<noteq> []" "last ?es = g (last xs)" using False by (simp_all add: last_map)
  have "out = concat (map (\<lambda>e. emit e (group_of g step xs e)) (butlast ?es))"
    and "cur = group_of g step xs (g (last xs))" and "l = g (last xs)"
    using batch_fold [of g xs emit l0 step, OF assms(1) False assms(2,3)] assms(4) by auto
  moreover have "batch_result g step emit xs =
      concat (map (\<lambda>e. emit e (group_of g step xs e)) (butlast ?es @ [g (last xs)]))"
    using es by (metis batch_result_def append_butlast_last_id)
  ultimately show ?thesis by simp
qed

lemma set_batch_result:
  "set (batch_result g step emit xs) = (\<Union>e \<in> g ` set xs. set (emit e (group_of g step xs e)))"
  by (simp add: batch_result_def)

text \<open>Entries in ascending order of the group key are grouped.\<close>

lemma distinct_remdups_adj_mono:
  assumes "sorted_wrt (\<lambda>x y. r x \<le> (r y :: 'r::linorder)) ys" and "inj_on r (set ys)"
  shows "distinct (remdups_adj ys)"
  using assms
proof (induction ys rule: remdups_adj.induct)
  case (3 x y xs)
  show ?case
  proof (cases "x = y")
    case True
    with 3 show ?thesis by auto
  next
    case False
    then have "r x < r y" using "3.prems" by (auto simp: inj_on_def order_le_less)
    moreover have "\<forall>z \<in> set (y # xs). r y \<le> r z" using "3.prems"(1) by auto
    ultimately have "x \<notin> set (y # xs)" by (auto simp: leD)
    then show ?thesis using False 3 by (auto simp: inj_on_def)
  qed
qed auto

end
