(* ===== verification/Db_Query.thy ===== *)
theory Db_Query
  imports Db Batch
begin

text \<open>
  What the scans of db.cpp compute. A query from a start key sees the entries of
  one index in key order; \<open>query_a\<close> returns, for every entity and value of an
  attribute, the fact whose last event up to the given transaction is an
  assertion. The statements are over the log of events (the entries themselves),
  not over the loop.
\<close>

subsection \<open>Iterating over the store\<close>

fun visit :: "'s visitor \<Rightarrow> entry list \<Rightarrow> 's \<Rightarrow> 's" where
  "visit v [] s = s"
| "visit v ((k, d) # es) s = (let (stop, s) = v k d s in if stop then s else visit v es s)"

lemma query_loop_visit:
  assumes "\<not> mt_error txn" and "i < length (mt_tree txn)" and "mt_tree txn ! i = (k, d)"
  shows "query_loop txn v i k d s = visit v (drop i (mt_tree txn)) s"
  using assms
proof (induction txn v i k d s rule: query_loop.induct)
  case (1 txn v i k d s)
  obtain stop s' where v: "v k d s = (stop, s')" by fastforce
  have drop: "drop i (mt_tree txn) = (k, d) # drop (Suc i) (mt_tree txn)"
    using "1.prems" by (metis Cons_nth_drop_Suc)
  show ?case
  proof (cases "stop \<or> length (mt_tree txn) \<le> Suc i")
    case True
    then show ?thesis
      using "1.prems" v drop by (auto simp: query_loop.simps [of txn v i] mdb_cursor_get_def)
  next
    case False
    obtain k' d' where e: "mt_tree txn ! Suc i = (k', d')" by fastforce
    have nx: "mdb_cursor_get cmp txn (Some i) k MDB_NEXT = Inr (Suc i, k', d')"
      using False "1.prems" e by (auto simp: mdb_cursor_get_def)
    have "query_loop txn v (Suc i) k' d' s' = visit v (drop (Suc i) (mt_tree txn)) s'"
      using "1.IH" [OF v [symmetric] refl _ nx refl refl] False "1.prems" e by simp
    then show ?thesis using False v nx drop by (simp add: query_loop.simps [of txn v i])
  qed
qed

lemma query_live:
  assumes "clive txn" and "key_ok start"
  shows "query txn start v s =
    (lower_bound key_rank (mt_tree txn) start = length (mt_tree txn), txn,
     visit v (drop (lower_bound key_rank (mt_tree txn) start) (mt_tree txn)) s)"
proof -
  let ?i = "lower_bound key_rank (mt_tree txn) start"
  have s: "mdb_node_search cmp (map fst (mt_tree txn)) start =
      (?i, \<exists>x \<in> set (mt_tree txn). key_rank (fst x) = key_rank start)"
    using assms by (intro ck.node_search_spec) (auto simp: live_def)
  have open_c: "mdb_cursor_open txn = (0, txn)"
    using assms(1) by (simp add: mdb_cursor_open_def live_def next_fault_def)
  have err: "\<not> mt_error txn" using assms(1) by (simp add: live_def)
  show ?thesis
  proof (cases "?i < length (mt_tree txn)")
    case True
    obtain k d where e: "mt_tree txn ! ?i = (k, d)" by fastforce
    have "mdb_cursor_get cmp txn None start MDB_SET_RANGE = Inr (?i, k, d)"
      using True s e err by (simp add: mdb_cursor_get_def)
    then show ?thesis using True open_c query_loop_visit [OF err True e] by (simp add: query_def)
  next
    case False
    then have "?i = length (mt_tree txn)" using ck.lower_bound_le [of "mt_tree txn" start] by simp
    moreover have "mdb_cursor_get cmp txn None start MDB_SET_RANGE = Inl MDB_NOTFOUND"
      using False s err by (simp add: mdb_cursor_get_def)
    ultimately show ?thesis using open_c by (simp add: query_def)
  qed
qed

text \<open>A visitor that stops outside \<open>P\<close> sees the leading entries that satisfy it.\<close>

lemma visit_takeWhile:
  assumes "\<And>k d s. \<not> P (k, d) \<Longrightarrow> fst (v k d s)" and "\<And>k d s. \<not> P (k, d) \<Longrightarrow> snd (v k d s) = s"
    and "\<And>k d s. P (k, d) \<Longrightarrow> v k d s = (False, f s (k, d))"
  shows "visit v es s = foldl f s (takeWhile P es)"
proof (induction es arbitrary: s)
  case Nil
  show ?case by simp
next
  case (Cons x es)
  obtain k d where x: "x = (k, d)" by fastforce
  show ?case
  proof (cases "P x")
    case True
    then show ?thesis using Cons.IH assms(3) x by simp
  next
    case False
    then have "v k d s = (True, s)" using assms(1,2) [of k d s] x by (cases "v k d s") auto
    then show ?thesis using False x by simp
  qed
qed

lemma takeWhile_eq_filter:
  assumes "sorted_wrt R xs" and "\<And>x y. x \<in> set xs \<Longrightarrow> y \<in> set xs \<Longrightarrow> R x y \<Longrightarrow> P y \<Longrightarrow> P x"
  shows "takeWhile P xs = filter P xs"
  using assms
proof (induction xs)
  case Nil
  show ?case by simp
next
  case (Cons x xs)
  show ?case
  proof (cases "P x")
    case True
    have "takeWhile P xs = filter P xs"
      by (rule Cons.IH) (use Cons.prems in \<open>auto\<close>)
    then show ?thesis using True by simp
  next
    case False
    then have "filter P xs = []" using Cons.prems by (auto simp: filter_empty_conv)
    then show ?thesis using False by simp
  qed
qed

text \<open>A list between two lists with a common prefix has that prefix.\<close>

lemma lex_sandwich:
  fixes p u w x :: "'a::linorder list"
  assumes "p @ u \<le> x" and "x \<le> p @ w"
  shows "\<exists>z. x = p @ z"
  using assms
proof (induction p arbitrary: x)
  case Nil
  then show ?case by simp
next
  case (Cons a p)
  then obtain b x' where "x = b # x'" by (cases x) auto
  with Cons show ?case by (auto simp: Cons_le_Cons)
qed

text \<open>A scan from a start key sees exactly the entries of its index.\<close>

lemma scan_filter:
  assumes t: "sorted_tree key_rank key_ok t" and start: "key_rank start = p @ u"
    and P: "\<And>x. x \<in> set t \<Longrightarrow> P x \<longleftrightarrow> (\<exists>z. key_rank (fst x) = p @ z)"
    and ge: "\<And>x. x \<in> set t \<Longrightarrow> P x \<Longrightarrow> key_rank start \<le> key_rank (fst x)"
    and Q: "\<And>x. x \<in> set t \<Longrightarrow> key_rank start \<le> key_rank (fst x) \<Longrightarrow> Q x \<longleftrightarrow> P x"
  shows "takeWhile Q (drop (lower_bound key_rank t start) t) = filter P t"
proof -
  let ?i = "lower_bound key_rank t start"
  have mem: "x \<in> set t \<and> key_rank start \<le> key_rank (fst x)" if "x \<in> set (drop ?i t)" for x
    using that ck.drop_lower_bound [OF t that] by (auto dest: in_set_dropD)
  have "sorted_wrt (\<lambda>x y. key_rank (fst x) < key_rank (fst y)) (drop ?i t)"
    using ck.sorted_tree_take_drop [OF t, of ?i] by (simp add: sorted_tree_def sorted_wrt_map)
  then have "takeWhile P (drop ?i t) = filter P (drop ?i t)"
  proof (rule takeWhile_eq_filter)
    fix x y
    assume x: "x \<in> set (drop ?i t)" and y: "y \<in> set (drop ?i t)"
      and less: "key_rank (fst x) < key_rank (fst y)" and "P y"
    then obtain z where "key_rank (fst y) = p @ z" using P mem by blast
    then have "\<exists>z. key_rank (fst x) = p @ z"
      using lex_sandwich [of p u "key_rank (fst x)" z] mem [OF x] less start by simp
    then show "P x" using P mem [OF x] by blast
  qed
  moreover have "takeWhile Q (drop ?i t) = takeWhile P (drop ?i t)"
    by (rule takeWhile_cong) (use mem Q in auto)
  moreover have "filter P (take ?i t) = []"
    using ge ck.take_lower_bound [of _ t start]
    by (metis filter_False in_set_takeD leD)
  then have "filter P t = filter P (drop ?i t)"
    by (metis append_Nil append_take_drop_id filter_append)
  ultimately show ?thesis by simp
qed

subsection \<open>The ranks of the two indices\<close>

text \<open>
  The keys the program writes: those of type integer or blob are in one of the
  two indices, with a positive entity and a transaction that is not negative.
\<close>

definition key_inv :: "custom_key \<Rightarrow> bool" where
  "key_inv k \<longleftrightarrow> key_ok k \<and>
     (\<not> ck_type k < KEY_MIN_SENTINEL \<longrightarrow>
        (ck_type k = KEY_INTEGER \<or> ck_type k = KEY_BLOB) \<and>
        (ck_sort k = SORT_EATV \<or> ck_sort k = SORT_AETV) \<and>
        0 < sint (ck_e k) \<and> 0 \<le> sint (ck_t k))"

definition tree_inv :: "custom_key tree \<Rightarrow> bool" where
  "tree_inv t \<longleftrightarrow> sorted_tree key_rank key_ok t \<and> (\<forall>x \<in> set t. key_inv (fst x))"

lemma sort_rank_4:
  "sort_rank 4 s k = field_rank (s AND 3) k @ field_rank (drop_bit 2 s AND 3) k @
     field_rank (drop_bit 2 (drop_bit 2 s) AND 3) k @
     field_rank (drop_bit 2 (drop_bit 2 (drop_bit 2 s)) AND 3) k"
proof -
  have four: "4 = Suc (Suc (Suc (Suc 0)))" by simp
  show ?thesis unfolding four by (simp only: sort_rank.simps append_Nil2)
qed

lemma rank_AETV:
  "\<not> ck_type k < 3 \<Longrightarrow> ck_sort k = 177 \<Longrightarrow> key_rank k =
     uint (ck_ns k) # 3 # 177 # sint (ck_a k) # sint (ck_e k) # sint (ck_t k) # value_rank k"
  by (simp add: key_rank_def sort_rank_4 field_rank_def)

lemma rank_EATV:
  "\<not> ck_type k < 3 \<Longrightarrow> ck_sort k = 180 \<Longrightarrow> key_rank k =
     uint (ck_ns k) # 3 # 180 # sint (ck_e k) # sint (ck_a k) # sint (ck_t k) # value_rank k"
  by (simp add: key_rank_def sort_rank_4 field_rank_def)


subsection \<open>Live facts of a log of events\<close>

definition find_last :: "('x \<Rightarrow> bool) \<Rightarrow> 'x list \<Rightarrow> 'x option" where
  "find_last P xs = (if filter P xs = [] then None else Some (last (filter P xs)))"

definition is_assert :: "custom_key \<Rightarrow> bool" where
  "is_assert k \<longleftrightarrow> ck_t k AND 1 = 0"

text \<open>The live cell of a value in a sequence of events: the one of the last event, if an assertion.\<close>

definition live_cell :: "entry list \<Rightarrow> bytes \<Rightarrow> cell option" where
  "live_cell evs vb = (case find_last (\<lambda>x. ck_v (fst x) = vb) evs of
     None \<Rightarrow> None
   | Some (k, d) \<Rightarrow> if is_assert k then Some (entry_cell k d) else None)"

abbreviation step_entry :: "entry \<Rightarrow> current \<Rightarrow> current" where
  "step_entry x cur \<equiv> step_current (fst x) (snd x) cur"

lemma find_last_snoc: "find_last P (xs @ [x]) = (if P x then Some x else find_last P xs)"
  by (simp add: find_last_def)

lemma find_last_Some:
  assumes "find_last P xs = Some x"
  shows "x \<in> set xs \<and> P x"
proof -
  have "filter P xs \<noteq> []" and "last (filter P xs) = x"
    using assms by (auto simp: find_last_def split: if_splits)
  then have "x \<in> set (filter P xs)" by (metis last_in_set)
  then show ?thesis by simp
qed

lemma find_last_filter: "find_last P (filter Q xs) = find_last (\<lambda>x. Q x \<and> P x) xs"
  by (simp add: find_last_def conj_commute)

lemma find_last_cong: "(\<And>x. x \<in> set xs \<Longrightarrow> P x = Q x) \<Longrightarrow> find_last P xs = find_last Q xs"
  by (simp add: find_last_def cong: filter_cong)

lemma distinct_step_entry: "distinct (map fst cur) \<Longrightarrow> distinct (map fst (step_entry x cur))"
  by (simp add: step_current_def distinct_update distinct_delete)

lemma map_of_step_entry:
  "map_of (step_entry x cur) = (map_of cur)(ck_v (fst x) :=
     (if is_assert (fst x) then Some (entry_cell (fst x) (snd x)) else None))"
  by (auto simp: step_current_def is_assert_def update_conv' delete_conv')

lemma live_cell_snoc:
  "live_cell (evs @ [x]) = (live_cell evs)(ck_v (fst x) :=
     (if is_assert (fst x) then Some (entry_cell (fst x) (snd x)) else None))"
  by (rule ext) (simp add: live_cell_def find_last_snoc case_prod_beta)

lemma foldl_step_entry:
  "distinct (map fst (foldl (\<lambda>cur x. step_entry x cur) [] evs)) \<and>
   map_of (foldl (\<lambda>cur x. step_entry x cur) [] evs) = live_cell evs"
proof (induction evs rule: rev_induct)
  case Nil
  show ?case by (auto simp: live_cell_def find_last_def)
next
  case (snoc x evs)
  then show ?case
    by (simp only: foldl_append foldl_Cons foldl_Nil distinct_step_entry map_of_step_entry
        live_cell_snoc)
qed

lemma set_foldl_step_entry:
  "(vb, c) \<in> set (foldl (\<lambda>cur x. step_entry x cur) [] evs) \<longleftrightarrow> live_cell evs vb = Some c"
proof -
  let ?cur = "foldl (\<lambda>cur x. step_entry x cur) [] evs"
  have "distinct (map fst ?cur)" using foldl_step_entry [of evs] by blast
  then have "(vb, c) \<in> set ?cur \<longleftrightarrow> map_of ?cur vb = Some c"
    by (rule map_of_eq_Some_iff [symmetric])
  also have "map_of ?cur = live_cell evs" using foldl_step_entry [of evs] by blast
  finally show ?thesis .
qed

subsection \<open>query_a\<close>

definition in_AETV :: "namespace_t \<Rightarrow> attribute_t \<Rightarrow> entry \<Rightarrow> bool" where
  "in_AETV ns a x \<longleftrightarrow> ck_ns (fst x) = ns \<and> \<not> ck_type (fst x) < KEY_MIN_SENTINEL \<and>
     ck_sort (fst x) = SORT_AETV \<and> ck_a (fst x) = a"

text \<open>The events on an attribute up to and including a transaction.\<close>

definition attr_log :: "custom_key tree \<Rightarrow> namespace_t \<Rightarrow> attribute_t \<Rightarrow> transaction_t \<Rightarrow> entry list" where
  "attr_log t ns a tx =
     filter (\<lambda>x. in_AETV ns a x \<and> sint (ck_t (fst x)) \<le> sint (push_bit 1 tx + 1)) t"

definition emit_datoms :: "i64 \<Rightarrow> attribute_t \<Rightarrow> entity_t \<Rightarrow> current \<Rightarrow> datom list" where
  "emit_datoms uninit a e cur = map (\<lambda>(_, c). cell_datom uninit e a c) cur"

definition query_a_min :: "namespace_t \<Rightarrow> attribute_t \<Rightarrow> custom_key" where
  "query_a_min ns a = zero_key\<lparr>ck_ns := ns, ck_type := KEY_MIN_SENTINEL, ck_sort := SORT_AETV,
     ck_a := a\<rparr>"

lemma query_a_min_ok: "ns_ok ns \<Longrightarrow> in_window a \<Longrightarrow> key_ok (query_a_min ns a)"
  by (simp add: query_a_min_def key_ok_def zero_key_def ns_ok_def)

lemma query_a_min_rank: "key_rank (query_a_min ns a) = [uint ns, 3, 177, sint a] @ [0, 0, 3]"
proof -
  have "key_rank (query_a_min ns a) = uint (ck_ns (query_a_min ns a)) # 3 # 177 #
     sint (ck_a (query_a_min ns a)) # sint (ck_e (query_a_min ns a)) #
     sint (ck_t (query_a_min ns a)) # value_rank (query_a_min ns a)"
    by (rule rank_AETV) (simp_all add: query_a_min_def)
  then show ?thesis by (simp add: query_a_min_def zero_key_def value_rank_def)
qed

lemma rank_type_small: "ck_type k < 3 \<Longrightarrow> \<exists>x z. key_rank k = uint (ck_ns k) # x # z \<and> x < 3"
  using uint_type_less [of k] by (auto simp: key_rank_def)

lemma rank_data: "\<not> ck_type k < 3 \<Longrightarrow> \<exists>z. key_rank k = uint (ck_ns k) # 3 # uint (ck_sort k) # z"
  by (simp add: key_rank_def)

lemma in_AETV_rank:
  assumes "key_inv (fst x)"
  shows "in_AETV ns a x \<longleftrightarrow> (\<exists>z. key_rank (fst x) = [uint ns, 3, 177, sint a] @ z)"
proof (cases "ck_type (fst x) < 3")
  case True
  then show ?thesis using rank_type_small [OF True] by (auto simp: in_AETV_def)
next
  case False
  then show ?thesis
    using assms
    by (auto simp: in_AETV_def key_inv_def rank_AETV rank_EATV)
qed

lemma value_rank_ge:
  "key_inv k \<Longrightarrow> \<not> ck_type k < 3 \<Longrightarrow> [3] \<le> value_rank k"
  by (auto simp: key_inv_def value_rank_def)

lemma in_AETV_ge:
  assumes "key_inv (fst x)" and "in_AETV ns a x"
  shows "key_rank (query_a_min ns a) \<le> key_rank (fst x)"
  using assms value_rank_ge [OF assms(1)]
  by (auto simp: query_a_min_rank rank_AETV in_AETV_def key_inv_def order_le_less)

lemma query_a_guard:
  assumes "key_inv (fst x)" and "key_rank (query_a_min ns a) \<le> key_rank (fst x)"
  shows "(ck_a (fst x) = a \<and> ck_ns (fst x) = ns \<and> ck_sort (fst x) = SORT_AETV) \<longleftrightarrow> in_AETV ns a x"
proof (cases "ck_type (fst x) < 3")
  case True
  then obtain y z where "key_rank (fst x) = uint (ck_ns (fst x)) # y # z" "y < 3"
    using rank_type_small by blast
  then show ?thesis using assms(2) True by (auto simp: query_a_min_rank in_AETV_def)
next
  case False
  then show ?thesis by (auto simp: in_AETV_def)
qed

definition st_tuple :: "query_st \<Rightarrow> datom list \<times> current \<times> entity_t" where
  "st_tuple st = (qs_q st, qs_current st, qs_last_e st)"

definition query_a_step :: "i64 \<Rightarrow> transaction_t \<Rightarrow> attribute_t \<Rightarrow> query_st \<Rightarrow> entry \<Rightarrow> query_st" where
  "query_a_step uninit tx a st x =
     (if sint tx < sint (ck_t (fst x)) then st
      else
        (let st = (if ck_e (fst x) \<noteq> qs_last_e st then write_batch uninit a st else st) in
         st\<lparr>qs_current := step_current (fst x) (snd x) (qs_current st), qs_last_e := ck_e (fst x)\<rparr>))"

lemma query_a_step_tuple:
  "st_tuple (query_a_step uninit tx a st x) =
     (if sint tx < sint (ck_t (fst x)) then st_tuple st
      else batch_step (\<lambda>x. ck_e (fst x)) step_entry (emit_datoms uninit a) (st_tuple st) x)"
  by (simp add: query_a_step_def st_tuple_def batch_step_def write_batch_def emit_datoms_def Let_def)

lemma query_a_fold:
  "st_tuple (foldl (query_a_step uninit tx a) st xs) =
     foldl (batch_step (\<lambda>x. ck_e (fst x)) step_entry (emit_datoms uninit a)) (st_tuple st)
       (filter (\<lambda>x. sint (ck_t (fst x)) \<le> sint tx) xs)"
  by (induction xs arbitrary: st) (auto simp: query_a_step_tuple)

lemma query_a_visit:
  "visit (query_a_visitor uninit ns tx a) es st =
     foldl (query_a_step uninit tx a) st
       (takeWhile (\<lambda>x. ck_a (fst x) = a \<and> ck_ns (fst x) = ns \<and> ck_sort (fst x) = SORT_AETV) es)"
  by (rule visit_takeWhile) (auto simp: query_a_visitor_def query_a_step_def Let_def)

lemma attr_log_grouped:
  assumes "tree_inv t"
  shows "distinct (remdups_adj (map (\<lambda>x. ck_e (fst x)) (attr_log t ns a tx)))"
proof (rule distinct_remdups_adj_mono [where r = sint])
  have "sorted_wrt (\<lambda>x y. key_rank (fst x) < key_rank (fst y)) (attr_log t ns a tx)"
    using assms unfolding attr_log_def tree_inv_def sorted_tree_def
    by (auto simp: sorted_wrt_map intro: sorted_wrt_filter)
  then show "sorted_wrt (\<lambda>x y. sint x \<le> sint y) (map (\<lambda>x. ck_e (fst x)) (attr_log t ns a tx))"
    unfolding sorted_wrt_map
    by (rule sorted_wrt_mono_rel [rotated])
      (auto simp: attr_log_def in_AETV_def rank_AETV)
qed (simp add: inj_on_def)

lemma minus_one_notin:
  assumes "\<And>x. x \<in> set xs \<Longrightarrow> 0 \<le> sint (g x :: i64)"
  shows "-1 \<notin> g ` set xs"
proof
  assume "-1 \<in> g ` set xs"
  then obtain x where "x \<in> set xs" "g x = -1" by force
  then have "0 \<le> sint (-1 :: i64)" using assms by metis
  then show False by simp
qed

lemma set_emit_datoms:
  "y \<in> set (emit_datoms u a e cur) \<longleftrightarrow> (\<exists>vb c. (vb, c) \<in> set cur \<and> y = cell_datom u e a c)"
  unfolding emit_datoms_def set_map image_iff case_prod_beta by (metis fst_conv prod.exhaust_sel snd_conv)

text \<open>The result of \<open>query_a\<close> as one batch of live cells per entity.\<close>

lemma query_a_batches:
  assumes "clive txn" and "tree_inv (mt_tree txn)" and "ns_ok ns" and "in_window a"
  shows "query_a txn ns tx a = (txn,
    batch_result (\<lambda>x. ck_e (fst x)) step_entry (emit_datoms (junk_i64 txn) a)
      (attr_log (mt_tree txn) ns a tx))"
proof -
  let ?t = "mt_tree txn" and ?tx = "push_bit 1 tx + 1 :: i64" and ?u = "junk_i64 txn"
  let ?st0 = "\<lparr>qs_q = [], qs_current = [], qs_last_e = -1\<rparr> :: query_st"
  have sorted: "sorted_tree key_rank key_ok ?t" and inv: "\<And>x. x \<in> set ?t \<Longrightarrow> key_inv (fst x)"
    using assms(2) by (auto simp: tree_inv_def)
  have "takeWhile (\<lambda>x. ck_a (fst x) = a \<and> ck_ns (fst x) = ns \<and> ck_sort (fst x) = SORT_AETV)
      (drop (lower_bound key_rank ?t (query_a_min ns a)) ?t) = filter (in_AETV ns a) ?t"
    by (rule scan_filter [OF sorted query_a_min_rank])
      (use inv in_AETV_rank in_AETV_ge query_a_guard in blast)+
  then have st: "visit (query_a_visitor ?u ns ?tx a)
        (drop (lower_bound key_rank ?t (query_a_min ns a)) ?t) ?st0 =
      foldl (query_a_step ?u ?tx a) ?st0 (filter (in_AETV ns a) ?t)"
    by (simp only: query_a_visit)
  define st where "st = foldl (query_a_step ?u ?tx a) ?st0 (filter (in_AETV ns a) ?t)"
  have tup: "st_tuple st = foldl (batch_step (\<lambda>x. ck_e (fst x)) step_entry (emit_datoms ?u a))
      ([], [], -1) (attr_log ?t ns a tx)"
    unfolding st_def query_a_fold by (simp add: st_tuple_def attr_log_def conj_commute)
  have "qs_q st @ emit_datoms ?u a (qs_last_e st) (qs_current st) =
      batch_result (\<lambda>x. ck_e (fst x)) step_entry (emit_datoms ?u a) (attr_log ?t ns a tx)"
  proof (rule batch_run [OF attr_log_grouped [OF assms(2)]])
    show "emit_datoms ?u a (-1) [] = []" by (simp add: emit_datoms_def)
    show "-1 \<notin> (\<lambda>x. ck_e (fst x)) ` set (attr_log ?t ns a tx)"
      by (rule minus_one_notin) (use inv in \<open>fastforce simp: attr_log_def in_AETV_def key_inv_def\<close>)
    show "foldl (batch_step (\<lambda>x. ck_e (fst x)) step_entry (emit_datoms ?u a)) ([], [], - 1)
        (attr_log ?t ns a tx) = (qs_q st, qs_current st, qs_last_e st)"
      using tup by (simp add: st_tuple_def)
  qed
  then have "qs_q (write_batch ?u a st) =
      batch_result (\<lambda>x. ck_e (fst x)) step_entry (emit_datoms ?u a) (attr_log ?t ns a tx)"
    by (simp add: write_batch_def emit_datoms_def)
  then show ?thesis
    using query_live [OF assms(1) query_a_min_ok [OF assms(3,4)],
        of "query_a_visitor ?u ns ?tx a" ?st0] st
    by (simp add: query_a_def query_a_min_def st_def)
qed

lemma live_cell_of_group:
  "live_cell (filter (\<lambda>x. g x = e) evs) vb = Some c \<longleftrightarrow>
     (\<exists>k d. find_last (\<lambda>x. g x = e \<and> ck_v (fst x) = vb) evs = Some (k, d) \<and> is_assert k \<and>
        c = entry_cell k d)"
  by (auto simp: live_cell_def find_last_filter split: option.split if_split_asm)

lemma query_a_mem:
  assumes "clive txn" and "tree_inv (mt_tree txn)" and "ns_ok ns" and "in_window a"
  shows "x \<in> set (snd (query_a txn ns tx a)) \<longleftrightarrow>
    (\<exists>k d. find_last (\<lambda>y. ck_e (fst y) = ck_e k \<and> ck_v (fst y) = ck_v k)
        (attr_log (mt_tree txn) ns a tx) = Some (k, d) \<and> is_assert k \<and>
      x = cell_datom (junk_i64 txn) (ck_e k) a (entry_cell k d))"
  (is "_ \<longleftrightarrow> ?R")
proof -
  let ?log = "attr_log (mt_tree txn) ns a tx"
  have "x \<in> set (snd (query_a txn ns tx a)) \<longleftrightarrow>
      (\<exists>e \<in> (\<lambda>x. ck_e (fst x)) ` set ?log. \<exists>vb c.
         (vb, c) \<in> set (group_of (\<lambda>x. ck_e (fst x)) step_entry ?log e) \<and>
         x = cell_datom (junk_i64 txn) e a c)"
    by (simp only: query_a_batches [OF assms] snd_conv set_batch_result UN_iff set_emit_datoms)
  also have "\<dots> \<longleftrightarrow> (\<exists>e \<in> (\<lambda>x. ck_e (fst x)) ` set ?log. \<exists>vb k d.
      find_last (\<lambda>y. ck_e (fst y) = e \<and> ck_v (fst y) = vb) ?log = Some (k, d) \<and> is_assert k \<and>
      x = cell_datom (junk_i64 txn) e a (entry_cell k d))"
    by (simp only: group_of_def set_foldl_step_entry live_cell_of_group) blast
  also have "\<dots> \<longleftrightarrow> ?R"
  proof
    assume "\<exists>e \<in> (\<lambda>x. ck_e (fst x)) ` set ?log. \<exists>vb k d.
      find_last (\<lambda>y. ck_e (fst y) = e \<and> ck_v (fst y) = vb) ?log = Some (k, d) \<and> is_assert k \<and>
      x = cell_datom (junk_i64 txn) e a (entry_cell k d)"
    then obtain e vb k d where
      f: "find_last (\<lambda>y. ck_e (fst y) = e \<and> ck_v (fst y) = vb) ?log = Some (k, d)"
        "is_assert k" "x = cell_datom (junk_i64 txn) e a (entry_cell k d)" by blast
    then have "ck_e k = e" "ck_v k = vb" using find_last_Some [OF f(1)] by auto
    with f show ?R by blast
  next
    assume ?R
    then obtain k d where
      f: "find_last (\<lambda>y. ck_e (fst y) = ck_e k \<and> ck_v (fst y) = ck_v k) ?log = Some (k, d)"
        "is_assert k" "x = cell_datom (junk_i64 txn) (ck_e k) a (entry_cell k d)" by blast
    moreover have "ck_e k \<in> (\<lambda>x. ck_e (fst x)) ` set ?log"
      using find_last_Some [OF f(1)] by force
    ultimately show "\<exists>e \<in> (\<lambda>x. ck_e (fst x)) ` set ?log. \<exists>vb k d.
      find_last (\<lambda>y. ck_e (fst y) = e \<and> ck_v (fst y) = vb) ?log = Some (k, d) \<and> is_assert k \<and>
      x = cell_datom (junk_i64 txn) e a (entry_cell k d)" by blast
  qed
  finally show ?thesis .
qed

end
