(* ===== verification/Json_Itoa.thy ===== *)
theory Json_Itoa
  imports Nstore_Prelude
begin

text \<open>
  rapidjson/internal/itoa.h: the table-driven conversions of integers to decimal
  text. A buffer that is filled from left to right is the string written to it.
  The 32 and 64-bit unsigned values are natural numbers here, since no step of
  the conversions can exceed the width; the two's complement negation of the
  signed entry points is kept on words. The main result is that the routines
  print the decimal representation.
\<close>

definition cDigitsLut :: string where
  "cDigitsLut =
     ''00010203040506070809'' @ ''10111213141516171819'' @ ''20212223242526272829'' @
     ''30313233343536373839'' @ ''40414243444546474849'' @ ''50515253545556575859'' @
     ''60616263646566676869'' @ ''70717273747576777879'' @ ''80818283848586878889'' @
     ''90919293949596979899''"

definition digit_char :: "nat \<Rightarrow> char" where
  "digit_char d = char_of (48 + d)"

text \<open>A character put under a condition on the value.\<close>

definition put_if :: "bool \<Rightarrow> char \<Rightarrow> string" where
  "put_if b c = (if b then [c] else [])"

definition u32toa :: "nat \<Rightarrow> string" where
  "u32toa value =
     (if value < 10000 then
        (let d1 = (value div 100) * 2; d2 = (value mod 100) * 2 in
         put_if (value \<ge> 1000) (cDigitsLut ! d1) @ put_if (value \<ge> 100) (cDigitsLut ! (d1 + 1)) @
         put_if (value \<ge> 10) (cDigitsLut ! d2) @ [cDigitsLut ! (d2 + 1)])
      else if value < 100000000 then
        (let b = value div 10000; c = value mod 10000;
             d1 = (b div 100) * 2; d2 = (b mod 100) * 2;
             d3 = (c div 100) * 2; d4 = (c mod 100) * 2 in
         put_if (value \<ge> 10000000) (cDigitsLut ! d1) @
         put_if (value \<ge> 1000000) (cDigitsLut ! (d1 + 1)) @
         put_if (value \<ge> 100000) (cDigitsLut ! d2) @
         [cDigitsLut ! (d2 + 1), cDigitsLut ! d3, cDigitsLut ! (d3 + 1), cDigitsLut ! d4,
          cDigitsLut ! (d4 + 1)])
      else
        (let a = value div 100000000; value = value mod 100000000;
             b = value div 10000; c = value mod 10000;
             d1 = (b div 100) * 2; d2 = (b mod 100) * 2;
             d3 = (c div 100) * 2; d4 = (c mod 100) * 2 in
         (if a \<ge> 10 then [cDigitsLut ! (a * 2), cDigitsLut ! (a * 2 + 1)] else [digit_char a]) @
         [cDigitsLut ! d1, cDigitsLut ! (d1 + 1), cDigitsLut ! d2, cDigitsLut ! (d2 + 1),
          cDigitsLut ! d3, cDigitsLut ! (d3 + 1), cDigitsLut ! d4, cDigitsLut ! (d4 + 1)]))"

definition i32toa :: "u32 \<Rightarrow> string" where
  "i32toa value =
     (if sint value < 0 then CHR ''-'' # u32toa (unat (NOT value + 1)) else u32toa (unat value))"

definition u64toa :: "nat \<Rightarrow> string" where
  "u64toa value =
     (let kTen8 = 100000000; kTen9 = kTen8 * 10; kTen10 = kTen8 * 100; kTen11 = kTen8 * 1000;
          kTen12 = kTen8 * 10000; kTen13 = kTen8 * 100000; kTen14 = kTen8 * 1000000;
          kTen15 = kTen8 * 10000000; kTen16 = kTen8 * kTen8 in
      if value < kTen8 then
        (if value < 10000 then
           (let d1 = (value div 100) * 2; d2 = (value mod 100) * 2 in
            put_if (value \<ge> 1000) (cDigitsLut ! d1) @
            put_if (value \<ge> 100) (cDigitsLut ! (d1 + 1)) @
            put_if (value \<ge> 10) (cDigitsLut ! d2) @ [cDigitsLut ! (d2 + 1)])
         else
           (let b = value div 10000; c = value mod 10000;
                d1 = (b div 100) * 2; d2 = (b mod 100) * 2;
                d3 = (c div 100) * 2; d4 = (c mod 100) * 2 in
            put_if (value \<ge> 10000000) (cDigitsLut ! d1) @
            put_if (value \<ge> 1000000) (cDigitsLut ! (d1 + 1)) @
            put_if (value \<ge> 100000) (cDigitsLut ! d2) @
            [cDigitsLut ! (d2 + 1), cDigitsLut ! d3, cDigitsLut ! (d3 + 1), cDigitsLut ! d4,
             cDigitsLut ! (d4 + 1)]))
      else if value < kTen16 then
        (let v0 = value div kTen8; v1 = value mod kTen8;
             b0 = v0 div 10000; c0 = v0 mod 10000;
             d1 = (b0 div 100) * 2; d2 = (b0 mod 100) * 2;
             d3 = (c0 div 100) * 2; d4 = (c0 mod 100) * 2;
             b1 = v1 div 10000; c1 = v1 mod 10000;
             d5 = (b1 div 100) * 2; d6 = (b1 mod 100) * 2;
             d7 = (c1 div 100) * 2; d8 = (c1 mod 100) * 2 in
         put_if (value \<ge> kTen15) (cDigitsLut ! d1) @
         put_if (value \<ge> kTen14) (cDigitsLut ! (d1 + 1)) @
         put_if (value \<ge> kTen13) (cDigitsLut ! d2) @
         put_if (value \<ge> kTen12) (cDigitsLut ! (d2 + 1)) @
         put_if (value \<ge> kTen11) (cDigitsLut ! d3) @
         put_if (value \<ge> kTen10) (cDigitsLut ! (d3 + 1)) @
         put_if (value \<ge> kTen9) (cDigitsLut ! d4) @
         put_if (value \<ge> kTen8) (cDigitsLut ! (d4 + 1)) @
         [cDigitsLut ! d5, cDigitsLut ! (d5 + 1), cDigitsLut ! d6, cDigitsLut ! (d6 + 1),
          cDigitsLut ! d7, cDigitsLut ! (d7 + 1), cDigitsLut ! d8, cDigitsLut ! (d8 + 1)])
      else
        (let a = value div kTen16; value = value mod kTen16;
             v0 = value div kTen8; v1 = value mod kTen8;
             b0 = v0 div 10000; c0 = v0 mod 10000;
             d1 = (b0 div 100) * 2; d2 = (b0 mod 100) * 2;
             d3 = (c0 div 100) * 2; d4 = (c0 mod 100) * 2;
             b1 = v1 div 10000; c1 = v1 mod 10000;
             d5 = (b1 div 100) * 2; d6 = (b1 mod 100) * 2;
             d7 = (c1 div 100) * 2; d8 = (c1 mod 100) * 2 in
         (if a < 10 then [digit_char a]
          else if a < 100 then [cDigitsLut ! (a * 2), cDigitsLut ! (a * 2 + 1)]
          else if a < 1000 then
            [digit_char (a div 100), cDigitsLut ! ((a mod 100) * 2), cDigitsLut ! ((a mod 100) * 2 + 1)]
          else
            [cDigitsLut ! ((a div 100) * 2), cDigitsLut ! ((a div 100) * 2 + 1),
             cDigitsLut ! ((a mod 100) * 2), cDigitsLut ! ((a mod 100) * 2 + 1)]) @
         [cDigitsLut ! d1, cDigitsLut ! (d1 + 1), cDigitsLut ! d2, cDigitsLut ! (d2 + 1),
          cDigitsLut ! d3, cDigitsLut ! (d3 + 1), cDigitsLut ! d4, cDigitsLut ! (d4 + 1),
          cDigitsLut ! d5, cDigitsLut ! (d5 + 1), cDigitsLut ! d6, cDigitsLut ! (d6 + 1),
          cDigitsLut ! d7, cDigitsLut ! (d7 + 1), cDigitsLut ! d8, cDigitsLut ! (d8 + 1)]))"

definition i64toa :: "i64 \<Rightarrow> string" where
  "i64toa value =
     (if sint value < 0 then CHR ''-'' # u64toa (unat (NOT value + 1)) else u64toa (unat value))"

subsection \<open>The decimal representation\<close>

text \<open>\<open>dec\<close>: the shortest one; \<open>decn k\<close>: the last \<open>k\<close> digits, with leading zeros.\<close>

fun dec :: "nat \<Rightarrow> string" where
  "dec n = (if n < 10 then [digit_char n] else dec (n div 10) @ [digit_char (n mod 10)])"

declare dec.simps [simp del]

fun decn :: "nat \<Rightarrow> nat \<Rightarrow> string" where
  "decn 0 n = []"
| "decn (Suc k) n = decn k (n div 10) @ [digit_char (n mod 10)]"

definition dec_int :: "int \<Rightarrow> string" where
  "dec_int x = (if x < 0 then CHR ''-'' # dec (nat (- x)) else dec (nat x))"

lemma length_decn [simp]: "length (decn k n) = k"
  by (induction k arbitrary: n) auto

lemma dec_small: "n < 10 \<Longrightarrow> dec n = [digit_char n]"
  by (simp add: dec.simps)

lemma dec_append_decn:
  assumes "0 < a" and "b < 10 ^ k"
  shows "dec (a * 10 ^ k + b) = dec a @ decn k b"
  using assms
proof (induction k arbitrary: b)
  case 0
  then show ?case by simp
next
  case (Suc k)
  let ?n = "a * 10 ^ Suc k + b"
  have n: "?n = 10 * (a * 10 ^ k) + b" by simp
  have big: "10 \<le> ?n"
  proof -
    have "1 \<le> a * 10 ^ k" using Suc.prems(1) by simp
    then show ?thesis unfolding n by linarith
  qed
  have "dec ?n = dec (?n div 10) @ [digit_char (?n mod 10)]"
    using big by (subst dec.simps) simp
  also have "?n div 10 = a * 10 ^ k + b div 10" unfolding n by simp
  also have "?n mod 10 = b mod 10" unfolding n by simp
  also have "dec (a * 10 ^ k + b div 10) = dec a @ decn k (b div 10)"
    using Suc.prems by (intro Suc.IH) auto
  finally show ?case by simp
qed

lemma decn_append:
  "decn (j + k) n = decn j (n div 10 ^ k) @ decn k (n mod 10 ^ k)"
proof (induction k arbitrary: n)
  case 0
  show ?case by simp
next
  case (Suc k)
  have "n mod 10 ^ Suc k div 10 = n div 10 mod 10 ^ k"
    by (simp add: div_mult2_eq mod_mult2_eq)
  moreover have "n mod 10 ^ Suc k mod 10 = n mod 10"
    by (simp add: mod_mod_cancel)
  ultimately show ?case
    by (simp add: Suc.IH div_mult2_eq)
qed

lemma dec_lead: "0 < a \<Longrightarrow> a < 10 \<Longrightarrow> b < 10 ^ k \<Longrightarrow> dec (a * 10 ^ k + b) = digit_char a # decn k b"
  by (simp add: dec_append_decn dec_small)

text \<open>A number with its leading digit at place \<open>k\<close> is that digit followed by the lower ones.\<close>

lemma dec_decn:
  assumes "10 ^ k \<le> n" and "n < 10 ^ Suc k"
  shows "dec n = decn (Suc k) n"
proof -
  have "n div 10 ^ k < 10" using assms(2) by (simp add: less_mult_imp_div_less)
  moreover have "0 < n div 10 ^ k" using assms(1) by (simp add: div_greater_zero_iff)
  ultimately have "dec (n div 10 ^ k * 10 ^ k + n mod 10 ^ k) = digit_char (n div 10 ^ k) # decn k (n mod 10 ^ k)"
    by (intro dec_lead) simp_all
  moreover have "decn (1 + k) n = decn 1 (n div 10 ^ k) @ decn k (n mod 10 ^ k)"
    by (rule decn_append)
  ultimately show ?thesis using \<open>n div 10 ^ k < 10\<close> by (metis One_nat_def append_Cons append_Nil
    decn.simps div_mult_mod_eq mod_less plus_1_eq_Suc)
qed

text \<open>Dropping the leading zeros of a padded representation.\<close>

fun lead :: "nat \<Rightarrow> string \<Rightarrow> string" where
  "lead n [] = []"
| "lead n (x # xs) = put_if (xs = [] \<or> n \<ge> 10 ^ length xs) x @ lead n xs"

lemma lead_all: "10 ^ length xs \<le> n \<Longrightarrow> lead n xs = xs"
proof (induction xs)
  case (Cons x xs)
  have "(10 :: nat) ^ length xs \<le> 10 ^ length (x # xs)" by (rule power_increasing) simp_all
  then have "10 ^ length xs \<le> n" using Cons.prems by linarith
  then show ?case using Cons.IH by (simp add: put_if_def)
qed simp

lemma lead_decn:
  assumes "n < 10 ^ Suc k"
  shows "lead n (decn (Suc k) n) = dec n"
  using assms
proof (induction k)
  case 0
  then show ?case by (simp add: dec_small put_if_def)
next
  case (Suc k)
  have split: "decn (Suc (Suc k)) n = digit_char (n div 10 ^ Suc k mod 10) # decn (Suc k) (n mod 10 ^ Suc k)"
    using decn_append [of 1 "Suc k" n] by simp
  show ?case
  proof (cases "10 ^ Suc k \<le> n")
    case True
    then have "lead n (decn (Suc k) (n mod 10 ^ Suc k)) = decn (Suc k) (n mod 10 ^ Suc k)"
      by (intro lead_all) simp
    then have "lead n (decn (Suc (Suc k)) n) = decn (Suc (Suc k)) n"
      using True unfolding split by (simp add: put_if_def)
    then show ?thesis using dec_decn [OF True Suc.prems] by simp
  next
    case False
    then have "lead n (decn (Suc (Suc k)) n) = lead n (decn (Suc k) n)"
      unfolding split by (simp add: put_if_def del: decn.simps) (simp add: not_le)
    then show ?thesis using Suc.IH False by simp
  qed
qed

subsection \<open>The table\<close>

lemma lut_all:
  "list_all (\<lambda>k. cDigitsLut ! (k * 2) = digit_char (k div 10) \<and>
     cDigitsLut ! (k * 2 + 1) = digit_char (k mod 10)) [0..<100]"
  by code_simp

lemma lut:
  assumes "k < 100"
  shows "cDigitsLut ! (k * 2) = digit_char (k div 10)"
    and "cDigitsLut ! (k * 2 + 1) = digit_char (k mod 10)"
    and "cDigitsLut ! Suc (k * 2) = digit_char (k mod 10)"
proof -
  have "k \<in> set [0..<100]" using assms by simp
  then have "cDigitsLut ! (k * 2) = digit_char (k div 10) \<and>
     cDigitsLut ! (k * 2 + 1) = digit_char (k mod 10)"
    using lut_all unfolding list_all_iff by blast
  then show "cDigitsLut ! (k * 2) = digit_char (k div 10)"
    "cDigitsLut ! (k * 2 + 1) = digit_char (k mod 10)"
    "cDigitsLut ! Suc (k * 2) = digit_char (k mod 10)" by simp_all
qed

lemma decn_2: "decn 2 k = [digit_char (k div 10 mod 10), digit_char (k mod 10)]"
  by (simp add: numeral_2_eq_2)

lemma lut_2:
  assumes "k < 100"
  shows "[cDigitsLut ! (k * 2), cDigitsLut ! (k * 2 + 1)] = decn 2 k"
proof -
  have "k div 10 < 10" using assms by simp
  then show ?thesis by (simp only: lut [OF assms] decn_2 mod_less)
qed

lemma lut_4:
  assumes "k < 10000"
  shows "[cDigitsLut ! (k div 100 * 2), cDigitsLut ! (k div 100 * 2 + 1),
    cDigitsLut ! (k mod 100 * 2), cDigitsLut ! (k mod 100 * 2 + 1)] = decn 4 k"
proof -
  have "decn (2 + 2) k = decn 2 (k div 10 ^ 2) @ decn 2 (k mod 10 ^ 2)" by (rule decn_append)
  moreover have "k div 100 < 100" using assms by (simp add: less_mult_imp_div_less)
  ultimately show ?thesis using lut_2 [of "k div 100"] lut_2 [of "k mod 100"] by simp
qed

lemma lut_8:
  assumes "k < 100000000"
  shows "[cDigitsLut ! (k div 10000 div 100 * 2), cDigitsLut ! (k div 10000 div 100 * 2 + 1),
    cDigitsLut ! (k div 10000 mod 100 * 2), cDigitsLut ! (k div 10000 mod 100 * 2 + 1),
    cDigitsLut ! (k mod 10000 div 100 * 2), cDigitsLut ! (k mod 10000 div 100 * 2 + 1),
    cDigitsLut ! (k mod 10000 mod 100 * 2), cDigitsLut ! (k mod 10000 mod 100 * 2 + 1)] = decn 8 k"
proof -
  have "decn (4 + 4) k = decn 4 (k div 10 ^ 4) @ decn 4 (k mod 10 ^ 4)" by (rule decn_append)
  moreover have "k div 10000 < 10000" using assms by (simp add: less_mult_imp_div_less)
  ultimately show ?thesis using lut_4 [of "k div 10000"] lut_4 [of "k mod 10000"] by simp
qed

subsection \<open>The routines print the decimal representation\<close>

lemma dec_leads:
  "n < 10000 \<Longrightarrow> lead n (decn 4 n) = dec n"
  "n < 100000000 \<Longrightarrow> lead n (decn 8 n) = dec n"
  "n < 10000000000000000 \<Longrightarrow> lead n (decn 16 n) = dec n"
  using lead_decn [of n 3] lead_decn [of n 7] lead_decn [of n 15] by simp_all

lemma toa_4:
  assumes "n < 10000"
  shows "put_if (n \<ge> 1000) (cDigitsLut ! (n div 100 * 2)) @
      put_if (n \<ge> 100) (cDigitsLut ! (n div 100 * 2 + 1)) @
      put_if (n \<ge> 10) (cDigitsLut ! (n mod 100 * 2)) @ [cDigitsLut ! (n mod 100 * 2 + 1)] = dec n"
  using dec_leads(1) [OF assms] by (simp add: lut_4 [OF assms, symmetric] put_if_def)

lemma toa_8:
  assumes "10000 \<le> n" and "n < 100000000"
  shows "put_if (n \<ge> 10000000) (cDigitsLut ! (n div 10000 div 100 * 2)) @
      put_if (n \<ge> 1000000) (cDigitsLut ! (n div 10000 div 100 * 2 + 1)) @
      put_if (n \<ge> 100000) (cDigitsLut ! (n div 10000 mod 100 * 2)) @
      [cDigitsLut ! (n div 10000 mod 100 * 2 + 1), cDigitsLut ! (n mod 10000 div 100 * 2),
       cDigitsLut ! (n mod 10000 div 100 * 2 + 1), cDigitsLut ! (n mod 10000 mod 100 * 2),
       cDigitsLut ! (n mod 10000 mod 100 * 2 + 1)] = dec n"
  using dec_leads(2) [OF assms(2)] assms(1) by (simp add: lut_8 [OF assms(2), symmetric] put_if_def)

lemma u32toa_dec:
  assumes "n < 2 ^ 32"
  shows "u32toa n = dec n"
proof -
  consider "n < 10000" | "10000 \<le> n" "n < 100000000" | "100000000 \<le> n" by linarith
  then show ?thesis
  proof cases
    case 1
    then show ?thesis using toa_4 [OF 1] by (simp add: u32toa_def Let_def)
  next
    case 2
    then show ?thesis using toa_8 [OF 2] by (simp add: u32toa_def Let_def)
  next
    case 3
    let ?a = "n div 100000000" and ?v = "n mod 100000000"
    have "0 < ?a" using 3 by (simp add: div_greater_zero_iff)
    then have "dec (?a * 10 ^ 8 + ?v) = dec ?a @ decn 8 ?v" by (rule dec_append_decn) simp
    moreover have "?a * 10 ^ 8 + ?v = n" by simp
    ultimately have n: "dec n = dec ?a @ decn 8 ?v" by simp
    have a: "?a < 100" using assms by simp
    have "(if ?a \<ge> 10 then [cDigitsLut ! (?a * 2), cDigitsLut ! (?a * 2 + 1)] else [digit_char ?a]) =
        dec ?a"
      using lut_2 [OF a] dec_decn [of 1 ?a] a by (simp add: dec_small numeral_2_eq_2 [symmetric])
    then show ?thesis using 3 by (simp add: u32toa_def Let_def n lut_8 [symmetric])
  qed
qed

lemma toa_16:
  assumes "100000000 \<le> n" and "n < 10000000000000000"
  shows "u64toa n = dec n"
proof -
  let ?hi = "n div 100000000" and ?lo = "n mod 100000000"
  have v0: "?hi < 100000000" using assms(2) by (simp add: less_mult_imp_div_less)
  have v1: "?lo < 100000000" by simp
  have "decn (8 + 8) n = decn 8 (n div 10 ^ 8) @ decn 8 (n mod 10 ^ 8)" by (rule decn_append)
  then have "decn 16 n = decn 8 ?hi @ decn 8 ?lo" by simp
  then have "lead n (decn 8 ?hi @ decn 8 ?lo) = dec n" using dec_leads(3) [OF assms(2)] by simp
  then show ?thesis
    unfolding u64toa_def Let_def
    using assms by (simp add: lut_8 [OF v0, symmetric] lut_8 [OF v1, symmetric] put_if_def)
qed

lemma toa_head:
  assumes "0 < a" and "a < 10000"
  shows "(if a < 10 then [digit_char a]
     else if a < 100 then [cDigitsLut ! (a * 2), cDigitsLut ! (a * 2 + 1)]
     else if a < 1000 then
       [digit_char (a div 100), cDigitsLut ! ((a mod 100) * 2), cDigitsLut ! ((a mod 100) * 2 + 1)]
     else
       [cDigitsLut ! ((a div 100) * 2), cDigitsLut ! ((a div 100) * 2 + 1),
        cDigitsLut ! ((a mod 100) * 2), cDigitsLut ! ((a mod 100) * 2 + 1)]) = dec a"
proof -
  consider "a < 10" | "10 \<le> a" "a < 100" | "100 \<le> a" "a < 1000" | "1000 \<le> a" by linarith
  then show ?thesis
  proof cases
    case 1
    then show ?thesis by (simp add: dec_small)
  next
    case 2
    then show ?thesis using lut_2 [of a] dec_decn [of 1 a] by (simp add: numeral_2_eq_2 [symmetric])
  next
    case 3
    have "dec (a div 100 * 10 ^ 2 + a mod 100) = digit_char (a div 100) # decn 2 (a mod 100)"
      using 3 by (intro dec_lead) (simp_all add: div_greater_zero_iff)
    then have "dec a = digit_char (a div 100) # decn 2 (a mod 100)" by simp
    then show ?thesis using 3 lut_2 [of "a mod 100"] by simp
  next
    case 4
    have "dec a = decn 4 a" using dec_decn [of 3 a] 4 assms(2) by simp
    then show ?thesis using 4 lut_4 [OF assms(2)] by simp
  qed
qed

lemma u64toa_dec:
  assumes "n < 2 ^ 64"
  shows "u64toa n = dec n"
proof -
  consider "n < 10000" | "10000 \<le> n" "n < 100000000"
    | "100000000 \<le> n" "n < 10000000000000000" | "10000000000000000 \<le> n" by linarith
  then show ?thesis
  proof cases
    case 1
    then show ?thesis using toa_4 [OF 1] by (simp add: u64toa_def Let_def)
  next
    case 2
    then show ?thesis using toa_8 [OF 2] by (simp add: u64toa_def Let_def)
  next
    case 3
    then show ?thesis by (rule toa_16)
  next
    case 4
    let ?a = "n div 10000000000000000" and ?v = "n mod 10000000000000000"
    let ?hi = "?v div 100000000" and ?lo = "?v mod 100000000"
    have a: "0 < ?a" "?a < 10000" using 4 assms by (simp_all add: div_greater_zero_iff)
    have "dec (?a * 10 ^ 16 + ?v) = dec ?a @ decn 16 ?v" using a(1) by (rule dec_append_decn) simp
    then have n: "dec n = dec ?a @ decn 16 ?v" by simp
    have "decn (8 + 8) ?v = decn 8 (?v div 10 ^ 8) @ decn 8 (?v mod 10 ^ 8)" by (rule decn_append)
    then have v: "decn 16 ?v = decn 8 ?hi @ decn 8 ?lo" by simp
    have v0: "?hi < 100000000" by (rule less_mult_imp_div_less) simp
    have v1: "?lo < 100000000" by simp
    have "\<not> n < 100000000" "\<not> n < 10000000000000000" using 4 by simp_all
    then show ?thesis
      unfolding u64toa_def Let_def n v lut_8 [OF v0, symmetric] lut_8 [OF v1, symmetric]
        toa_head [OF a, symmetric] by simp
  qed
qed

lemma uint_mod_sint: "uint (w :: 'a::len word) = sint w mod 2 ^ LENGTH('a)"
  by (simp only: uint_sint take_bit_eq_mod)

lemma sint_half: "- (2 ^ LENGTH('a)) < sint (w :: 'a::len word)" "sint w < 2 ^ LENGTH('a)"
proof -
  have "(2 :: int) ^ (LENGTH('a) - Suc 0) < 2 ^ LENGTH('a)" by (rule power_strict_increasing) simp_all
  then show "- (2 ^ LENGTH('a)) < sint w" "sint w < 2 ^ LENGTH('a)"
    using sint_greater_eq [of w] sint_less [of w] by linarith+
qed

lemma unat_neg:
  fixes w :: "'a::len word"
  assumes "sint w < 0"
  shows "int (unat (NOT w + 1)) = - sint w"
proof -
  have "NOT w + 1 = word_of_int (- sint w)"
    by (simp only: minus_eq_not_plus_1 [symmetric] of_int_minus of_int_sint scast_id)
  then have "uint (NOT w + 1) = (- sint w) mod 2 ^ LENGTH('a)"
    by (simp only: uint_word_of_int)
  then show ?thesis using assms sint_half(1) [of w] by (simp add: mod_pos_pos_trivial)
qed

lemma unat_pos:
  assumes "0 \<le> sint (w :: 'a::len word)"
  shows "int (unat w) = sint w"
  using uint_mod_sint [of w] assms sint_half(2) [of w] by (simp add: mod_pos_pos_trivial)

lemma i64toa_dec: "i64toa w = dec_int (sint w)"
proof (cases "sint w < 0")
  case True
  have "unat (NOT w + 1) < 2 ^ 64" using unsigned_less [of "NOT w + 1"] by simp
  moreover have "nat (- sint w) = unat (NOT w + 1)" using unat_neg [OF True] by linarith
  ultimately show ?thesis using True by (simp add: i64toa_def dec_int_def u64toa_dec)
next
  case False
  have "unat w < 2 ^ 64" using unsigned_less [of w] by simp
  moreover have "nat (sint w) = unat w" using unat_pos [of w] False by linarith
  ultimately show ?thesis using False by (simp add: i64toa_def dec_int_def u64toa_dec)
qed

lemma i32toa_dec: "i32toa w = dec_int (sint w)"
proof (cases "sint w < 0")
  case True
  have "unat (NOT w + 1) < 2 ^ 32" using unsigned_less [of "NOT w + 1"] by simp
  moreover have "nat (- sint w) = unat (NOT w + 1)" using unat_neg [OF True] by linarith
  ultimately show ?thesis using True by (simp add: i32toa_def dec_int_def u32toa_dec)
next
  case False
  have "unat w < 2 ^ 32" using unsigned_less [of w] by simp
  moreover have "nat (sint w) = unat w" using unat_pos [of w] False by linarith
  ultimately show ?thesis using False by (simp add: i32toa_def dec_int_def u32toa_dec)
qed

end
