(* ===== verification/Json_Value.thy ===== *)
theory Json_Value
  imports Json_Itoa
begin

text \<open>
  rapidjson/document.h: the values the handlers build and inspect, and
  rapidjson/writer.h: the state machine that prints them. A number is the
  mathematical integer it holds; which of the C++ integer types it may be read as
  is recorded in the code by the flags its constructor sets, and the lemmas below
  show that the flags are a function of the integer. A double is kept by its sign
  and its magnitude \<open>m * 2 ^ e\<close>; the handlers never print one, and the model of
  the writer returns \<open>None\<close> on it.
\<close>

datatype dbl = Fin nat int | Inf

datatype json =
    JNull
  | JBool bool
  | JInt int
  | JDouble bool dbl
  | JString bytes
  | JArray "json list"
  | JObject "(bytes \<times> json) list"

subsection \<open>Type tests and access\<close>

definition IsInt64 :: "json \<Rightarrow> bool" where
  "IsInt64 v = (case v of JInt n \<Rightarrow> - (2 ^ 63) \<le> n \<and> n < 2 ^ 63 | _ \<Rightarrow> False)"

definition GetInt64 :: "json \<Rightarrow> i64" where
  "GetInt64 v = (case v of JInt n \<Rightarrow> word_of_int n | _ \<Rightarrow> 0)"

definition IsArray :: "json \<Rightarrow> bool" where
  "IsArray v = (case v of JArray _ \<Rightarrow> True | _ \<Rightarrow> False)"

definition GetArray :: "json \<Rightarrow> json list" where
  "GetArray v = (case v of JArray vs \<Rightarrow> vs | _ \<Rightarrow> [])"

definition IsString :: "json \<Rightarrow> bool" where
  "IsString v = (case v of JString _ \<Rightarrow> True | _ \<Rightarrow> False)"

definition GetString :: "json \<Rightarrow> bytes" where
  "GetString v = (case v of JString s \<Rightarrow> s | _ \<Rightarrow> [])"

text \<open>The flags of a number and its four integer constructors.\<close>

definition kNumberFlag :: u32 where [simp]: "kNumberFlag = 0x0010"
definition kIntFlag :: u32 where [simp]: "kIntFlag = 0x0020"
definition kUintFlag :: u32 where [simp]: "kUintFlag = 0x0040"
definition kInt64Flag :: u32 where [simp]: "kInt64Flag = 0x0080"
definition kUint64Flag :: u32 where [simp]: "kUint64Flag = 0x0100"
definition kNumberType :: u32 where [simp]: "kNumberType = 6"

definition kNumberIntFlag :: u32 where
  "kNumberIntFlag = kNumberType OR kNumberFlag OR kIntFlag OR kInt64Flag"
definition kNumberUintFlag :: u32 where
  "kNumberUintFlag = kNumberType OR kNumberFlag OR kUintFlag OR kUint64Flag OR kInt64Flag"
definition kNumberInt64Flag :: u32 where
  "kNumberInt64Flag = kNumberType OR kNumberFlag OR kInt64Flag"
definition kNumberUint64Flag :: u32 where
  "kNumberUint64Flag = kNumberType OR kNumberFlag OR kUint64Flag"

definition flags_Int :: "int \<Rightarrow> u32" where
  "flags_Int i = (if i \<ge> 0 then kNumberIntFlag OR kUintFlag OR kUint64Flag else kNumberIntFlag)"

definition flags_Uint :: "int \<Rightarrow> u32" where
  "flags_Uint u =
     (if u \<ge> 0x80000000 then kNumberUintFlag else kNumberUintFlag OR kIntFlag OR kInt64Flag)"

definition flags_Int64 :: "int \<Rightarrow> u32" where
  "flags_Int64 i =
     (if i \<ge> 0 then
        kNumberInt64Flag OR kNumberUint64Flag OR (if i < 0x100000000 then kUintFlag else 0) OR
        (if i < 0x80000000 then kIntFlag else 0)
      else if i \<ge> - 0x80000000 then kNumberInt64Flag OR kIntFlag
      else kNumberInt64Flag)"

definition flags_Uint64 :: "int \<Rightarrow> u32" where
  "flags_Uint64 u =
     kNumberUint64Flag OR (if u < 0x8000000000000000 then kInt64Flag else 0) OR
     (if u < 0x100000000 then kUintFlag else 0) OR (if u < 0x80000000 then kIntFlag else 0)"

subsection \<open>Building values\<close>

definition PushBack :: "json \<Rightarrow> json \<Rightarrow> json" where
  "PushBack a v = (case a of JArray vs \<Rightarrow> JArray (vs @ [v]) | _ \<Rightarrow> a)"

definition AddMember :: "json \<Rightarrow> bytes \<Rightarrow> json \<Rightarrow> json" where
  "AddMember obj name v = (case obj of JObject ms \<Rightarrow> JObject (ms @ [(name, v)]) | _ \<Rightarrow> obj)"

text \<open>\<open>FindMember\<close>: the index of the first member of that name, or the number of members.\<close>

fun FindMember :: "(bytes \<times> json) list \<Rightarrow> bytes \<Rightarrow> nat" where
  "FindMember [] name = 0"
| "FindMember ((n, v) # ms) name = (if name = n then 0 else Suc (FindMember ms name))"

text \<open>\<open>RemoveMember\<close> moves the last member to the place of the removed one.\<close>

definition RemoveMember :: "json \<Rightarrow> bytes \<Rightarrow> json" where
  "RemoveMember obj name =
     (case obj of
        JObject ms \<Rightarrow>
          (let m = FindMember ms name in
           if m < length ms then
             JObject (if m \<noteq> length ms - 1 then butlast (ms[m := last ms]) else butlast ms)
           else obj)
      | _ \<Rightarrow> obj)"

subsection \<open>The writer\<close>

text \<open>
  \<open>w_levels\<close> is the level stack, top first: the number of values written on the
  level and whether it is an array.
\<close>

record writer =
  w_os :: string
  w_levels :: "(nat \<times> bool) list"
  w_root :: bool

definition put :: "string \<Rightarrow> writer \<Rightarrow> writer" where
  "put s w = w\<lparr>w_os := w_os w @ s\<rparr>"

definition Prefix :: "writer \<Rightarrow> writer" where
  "Prefix w =
     (case w_levels w of
        [] \<Rightarrow> w\<lparr>w_root := True\<rparr>
      | (n, inArray) # ls \<Rightarrow>
          (let w = (if n > 0 then
                      (if inArray then put '','' w
                       else put (if n mod 2 = 0 then '','' else '':'') w)
                    else w)
           in w\<lparr>w_levels := (n + 1, inArray) # ls\<rparr>))"

definition hexDigits :: string where
  "hexDigits = ''0123456789ABCDEF''"

text \<open>The table \<open>escape\<close> of \<open>WriteString\<close>; \<open>None\<close> is its 0.\<close>

definition write_escape :: "char \<Rightarrow> char option" where
  "write_escape c =
     (if c = CHR 0x22 then Some (CHR 0x22)
      else if c = CHR 0x5C then Some (CHR 0x5C)
      else if (of_char c :: nat) \<ge> 32 then None
      else if c = CHR 0x08 then Some (CHR ''b'')
      else if c = CHR 0x09 then Some (CHR ''t'')
      else if c = CHR 0x0A then Some (CHR ''n'')
      else if c = CHR 0x0C then Some (CHR ''f'')
      else if c = CHR 0x0D then Some (CHR ''r'')
      else Some (CHR ''u''))"

definition write_char :: "char \<Rightarrow> string" where
  "write_char c =
     (case write_escape c of
        None \<Rightarrow> [c]
      | Some e \<Rightarrow>
          [CHR 0x5C, e] @
          (if e = CHR ''u'' then
             [CHR ''0'', CHR ''0'', hexDigits ! (of_char c div 16), hexDigits ! (of_char c mod 16)]
           else []))"

fun write_chars :: "bytes \<Rightarrow> string" where
  "write_chars [] = []"
| "write_chars (c # cs) = write_char c @ write_chars cs"

definition WriteString :: "bytes \<Rightarrow> string" where
  "WriteString s = CHR 0x22 # write_chars s @ [CHR 0x22]"

definition w_Null :: "writer \<Rightarrow> writer" where
  "w_Null w = put ''null'' (Prefix w)"

definition w_Bool :: "bool \<Rightarrow> writer \<Rightarrow> writer" where
  "w_Bool b w = put (if b then ''true'' else ''false'') (Prefix w)"

definition w_Int :: "int \<Rightarrow> writer \<Rightarrow> writer" where
  "w_Int i w = put (i32toa (word_of_int i)) (Prefix w)"

definition w_Uint :: "int \<Rightarrow> writer \<Rightarrow> writer" where
  "w_Uint u w = put (u32toa (nat u)) (Prefix w)"

definition w_Int64 :: "int \<Rightarrow> writer \<Rightarrow> writer" where
  "w_Int64 i w = put (i64toa (word_of_int i)) (Prefix w)"

definition w_Uint64 :: "int \<Rightarrow> writer \<Rightarrow> writer" where
  "w_Uint64 u w = put (u64toa (nat u)) (Prefix w)"

definition w_String :: "bytes \<Rightarrow> writer \<Rightarrow> writer" where
  "w_String s w = put (WriteString s) (Prefix w)"

definition w_Key :: "bytes \<Rightarrow> writer \<Rightarrow> writer" where
  "w_Key s w = w_String s w"

definition StartObject :: "writer \<Rightarrow> writer" where
  "StartObject w = (let w = Prefix w in put ''{'' (w\<lparr>w_levels := (0, False) # w_levels w\<rparr>))"

definition EndObject :: "writer \<Rightarrow> writer" where
  "EndObject w = put ''}'' (w\<lparr>w_levels := tl (w_levels w)\<rparr>)"

definition StartArray :: "writer \<Rightarrow> writer" where
  "StartArray w = (let w = Prefix w in put ''['' (w\<lparr>w_levels := (0, True) # w_levels w\<rparr>))"

definition EndArray :: "writer \<Rightarrow> writer" where
  "EndArray w = put '']'' (w\<lparr>w_levels := tl (w_levels w)\<rparr>)"

text \<open>The number cases of \<open>Accept\<close>, by the flags of the value.\<close>

definition accept_int :: "int \<Rightarrow> writer \<Rightarrow> writer" where
  "accept_int n w =
     (if - 0x80000000 \<le> n \<and> n < 0x80000000 then w_Int n w
      else if 0 \<le> n \<and> n < 0x100000000 then w_Uint n w
      else if - 0x8000000000000000 \<le> n \<and> n < 0x8000000000000000 then w_Int64 n w
      else w_Uint64 n w)"

fun Accept :: "json \<Rightarrow> writer \<Rightarrow> writer option"
  and accept_elements :: "json list \<Rightarrow> writer \<Rightarrow> writer option"
  and accept_members :: "(bytes \<times> json) list \<Rightarrow> writer \<Rightarrow> writer option" where
  "Accept JNull w = Some (w_Null w)"
| "Accept (JBool b) w = Some (w_Bool b w)"
| "Accept (JInt n) w = Some (accept_int n w)"
| "Accept (JDouble s d) w = None"
| "Accept (JString s) w = Some (w_String s w)"
| "Accept (JArray vs) w = map_option EndArray (accept_elements vs (StartArray w))"
| "Accept (JObject ms) w = map_option EndObject (accept_members ms (StartObject w))"
| "accept_elements [] w = Some w"
| "accept_elements (v # vs) w = Option.bind (Accept v w) (accept_elements vs)"
| "accept_members [] w = Some w"
| "accept_members ((k, v) # ms) w = Option.bind (Accept v (w_Key k w)) (accept_members ms)"

definition write_json :: "json \<Rightarrow> string option" where
  "write_json v = map_option w_os (Accept v \<lparr>w_os = [], w_levels = [], w_root = False\<rparr>)"

subsection \<open>What the writer prints\<close>

fun print_json :: "json \<Rightarrow> string"
  and print_elements :: "json list \<Rightarrow> string"
  and print_members :: "(bytes \<times> json) list \<Rightarrow> string" where
  "print_json JNull = ''null''"
| "print_json (JBool b) = (if b then ''true'' else ''false'')"
| "print_json (JInt n) = dec_int n"
| "print_json (JDouble s d) = []"
| "print_json (JString s) = WriteString s"
| "print_json (JArray vs) = ''['' @ print_elements vs @ '']''"
| "print_json (JObject ms) = ''{'' @ print_members ms @ ''}''"
| "print_elements [] = []"
| "print_elements (v # vs) = print_json v @ (if vs = [] then [] else '','' @ print_elements vs)"
| "print_members [] = []"
| "print_members ((k, v) # ms) =
     WriteString k @ '':'' @ print_json v @ (if ms = [] then [] else '','' @ print_members ms)"

text \<open>Values without doubles, whose integers are those a 64-bit type can hold.\<close>

fun printable :: "json \<Rightarrow> bool"
  and printable_members :: "(bytes \<times> json) list \<Rightarrow> bool" where
  "printable (JInt n) \<longleftrightarrow> - (2 ^ 63) \<le> n \<and> n < 2 ^ 64"
| "printable (JDouble s d) \<longleftrightarrow> False"
| "printable (JArray vs) \<longleftrightarrow> (\<forall>v \<in> set vs. printable v)"
| "printable (JObject ms) \<longleftrightarrow> printable_members ms"
| "printable _ \<longleftrightarrow> True"
| "printable_members [] \<longleftrightarrow> True"
| "printable_members ((k, v) # ms) \<longleftrightarrow> printable v \<and> printable_members ms"

lemmas number_flags = kNumberIntFlag_def kNumberUintFlag_def kNumberInt64Flag_def
  kNumberUint64Flag_def flags_Int_def flags_Uint_def flags_Int64_def flags_Uint64_def

text \<open>The constructors agree on a number they can all hold.\<close>

lemma flags_agree:
  "- (2 ^ 31) \<le> n \<Longrightarrow> n < 2 ^ 31 \<Longrightarrow> flags_Int n = flags_Int64 n"
  "0 \<le> n \<Longrightarrow> n < 2 ^ 32 \<Longrightarrow> flags_Uint n = flags_Int64 n"
  "0 \<le> n \<Longrightarrow> n < 2 ^ 63 \<Longrightarrow> flags_Uint64 n = flags_Int64 n"
  by (simp_all add: number_flags)

lemma flags_IsInt64:
  "flags_Int n AND kInt64Flag \<noteq> 0"
  "flags_Uint n AND kInt64Flag \<noteq> 0"
  "flags_Int64 n AND kInt64Flag \<noteq> 0"
  "flags_Uint64 n AND kInt64Flag \<noteq> 0 \<longleftrightarrow> n < 2 ^ 63"
  by (simp_all add: number_flags)

subsection \<open>The state machine implements the printer\<close>

definition separator :: "(nat \<times> bool) list \<Rightarrow> string" where
  "separator ls =
     (case ls of [] \<Rightarrow> [] | (n, inArray) # _ \<Rightarrow>
        if n = 0 then [] else if inArray \<or> n mod 2 = 0 then '','' else '':'')"

definition bump :: "(nat \<times> bool) list \<Rightarrow> (nat \<times> bool) list" where
  "bump ls = (case ls of [] \<Rightarrow> [] | (n, inArray) # ls \<Rightarrow> (Suc n, inArray) # ls)"

definition emit :: "string \<Rightarrow> writer \<Rightarrow> writer" where
  "emit s w = \<lparr>w_os = w_os w @ separator (w_levels w) @ s, w_levels = bump (w_levels w),
     w_root = (w_root w \<or> w_levels w = [])\<rparr>"

lemma put_Prefix: "put s (Prefix w) = emit s w"
  by (cases w) (auto simp: put_def Prefix_def emit_def separator_def bump_def Let_def
      split: list.split prod.split)

lemmas writer_events = w_Null_def w_Bool_def w_Int_def w_Uint_def w_Int64_def w_Uint64_def
  w_String_def w_Key_def put_Prefix

lemma accept_int_emit:
  assumes "printable (JInt n)"
  shows "accept_int n w = emit (dec_int n) w"
proof -
  have "sint (word_of_int n :: u32) = n" if "- 0x80000000 \<le> n" "n < 0x80000000"
    using that by (simp add: signed_of_int signed_take_bit_int_eq_self)
  moreover have "sint (word_of_int n :: i64) = n"
    if "- 0x8000000000000000 \<le> n" "n < 0x8000000000000000"
    using that by (simp add: signed_of_int signed_take_bit_int_eq_self)
  moreover have "u32toa (nat n) = dec_int n" if "0 \<le> n" "n < 0x100000000"
    using that by (simp add: u32toa_dec dec_int_def)
  moreover have "u64toa (nat n) = dec_int n" if "0 \<le> n"
    using that assms by (simp add: u64toa_dec dec_int_def)
  ultimately show ?thesis
    using assms by (auto simp: accept_int_def writer_events i32toa_dec i64toa_dec)
qed

lemma writer_nested:
  "w_os (StartArray w) = w_os w @ separator (w_levels w) @ ''[''"
  "w_levels (StartArray w) = (0, True) # bump (w_levels w)"
  "w_root (StartArray w) = (w_root w \<or> w_levels w = [])"
  "w_os (StartObject w) = w_os w @ separator (w_levels w) @ ''{''"
  "w_levels (StartObject w) = (0, False) # bump (w_levels w)"
  "w_root (StartObject w) = (w_root w \<or> w_levels w = [])"
  by (cases w; auto simp: StartArray_def StartObject_def put_def Prefix_def separator_def bump_def
      Let_def split: list.split prod.split)+

lemma Accept_emit:
  "printable v \<Longrightarrow> Accept v w = Some (emit (print_json v) w)"
  "\<forall>v \<in> set vs. printable v \<Longrightarrow> w_levels w = (n, True) # ls \<Longrightarrow>
     accept_elements vs w = Some (w\<lparr>w_os := w_os w @
        (if vs = [] then [] else separator (w_levels w) @ print_elements vs),
        w_levels := (n + length vs, True) # ls\<rparr>)"
  "printable_members ms \<Longrightarrow> w_levels w = (n, False) # ls \<Longrightarrow> even n \<Longrightarrow>
     accept_members ms w = Some (w\<lparr>w_os := w_os w @
        (if ms = [] then [] else separator (w_levels w) @ print_members ms),
        w_levels := (n + 2 * length ms, False) # ls\<rparr>)"
proof (induction v w and vs w and ms w arbitrary: and n ls and n ls
    rule: Accept_accept_elements_accept_members.induct)
  case (6 vs w)
  have "accept_elements vs (StartArray w) = Some ((StartArray w)\<lparr>w_os := w_os (StartArray w) @
      (if vs = [] then [] else separator (w_levels (StartArray w)) @ print_elements vs),
      w_levels := (0 + length vs, True) # bump (w_levels w)\<rparr>)"
    by (rule "6.IH") (use "6.prems" in \<open>simp_all add: writer_nested\<close>)
  then show ?case
    by (simp add: EndArray_def put_def emit_def writer_nested separator_def [of "_ # _"])
next
  case (7 ms w)
  have "accept_members ms (StartObject w) = Some ((StartObject w)\<lparr>w_os := w_os (StartObject w) @
      (if ms = [] then [] else separator (w_levels (StartObject w)) @ print_members ms),
      w_levels := (0 + 2 * length ms, False) # bump (w_levels w)\<rparr>)"
    by (rule "7.IH") (use "7.prems" in \<open>simp_all add: writer_nested\<close>)
  then show ?case
    by (simp add: EndObject_def put_def emit_def writer_nested separator_def [of "_ # _"])
next
  case (9 v vs w)
  have v: "Accept v w = Some (emit (print_json v) w)" using "9.IH"(1) "9.prems" by simp
  have lv: "w_levels (emit (print_json v) w) = (Suc n, True) # ls"
    using "9.prems" by (simp add: emit_def bump_def)
  have "accept_elements vs (emit (print_json v) w) = Some ((emit (print_json v) w)\<lparr>w_os :=
      w_os (emit (print_json v) w) @ (if vs = [] then [] else
        separator (w_levels (emit (print_json v) w)) @ print_elements vs),
      w_levels := (Suc n + length vs, True) # ls\<rparr>)"
    by (rule "9.IH"(2)) (use "9.prems" lv v in simp_all)
  then show ?case
    using "9.prems" lv v by (auto simp: emit_def separator_def [of "(Suc _, _) # _"])
next
  case (11 k v ms w)
  let ?w = "emit (WriteString k) w"
  have k: "w_Key k w = ?w" by (simp add: writer_events)
  have lk: "w_levels ?w = (Suc n, False) # ls" using "11.prems" by (simp add: emit_def bump_def)
  have v: "Accept v ?w = Some (emit (print_json v) ?w)"
    using "11.IH"(1) "11.prems" k by simp
  have lv: "w_levels (emit (print_json v) ?w) = (Suc (Suc n), False) # ls"
    using lk by (simp add: emit_def bump_def)
  have "accept_members ms (emit (print_json v) ?w) = Some ((emit (print_json v) ?w)\<lparr>w_os :=
      w_os (emit (print_json v) ?w) @ (if ms = [] then [] else
        separator (w_levels (emit (print_json v) ?w)) @ print_members ms),
      w_levels := (Suc (Suc n) + 2 * length ms, False) # ls\<rparr>)"
    by (rule "11.IH"(2)) (use "11.prems" lv v k in simp_all)
  moreover have "separator ((Suc n, False) # ls) = '':''"
    using \<open>even n\<close> by (auto simp: separator_def mod_2_eq_odd)
  moreover have "separator ((Suc (Suc n), False) # ls) = '',''"
    using \<open>even n\<close> by (auto simp: separator_def mod_2_eq_odd)
  ultimately show ?case
    using "11.prems" lk lv v k by (auto simp: emit_def)
qed (auto simp: writer_events accept_int_emit)

lemma write_json_print: "printable v \<Longrightarrow> write_json v = Some (print_json v)"
  by (simp add: write_json_def Accept_emit emit_def separator_def)

end
