(* ===== verification/Json_Reader.thy ===== *)
theory Json_Reader
  imports Json_Value
begin

text \<open>
  rapidjson/reader.h with the default flags, rapidjson/encodings.h (UTF-8) and
  the conversion of strtod.h: the recursive-descent parser that
  \<open>Document::Parse\<close> runs on the C string of a request. The stream is what is left
  of the string; an error carries its code and the stream at the offset the code
  reports. The events of the handler are folded into the value they build. The
  recursion of the parser is bounded by fuel, \<open>None\<close> being its end; three units
  per character are enough, which is a lemma below, so \<open>document_Parse\<close> is total.
\<close>

subsection \<open>Doubles\<close>

text \<open>
  A non-negative double is \<open>Fin m e\<close>, the number \<open>m * 2 ^ e\<close> with \<open>m < 2 ^ 53\<close> and
  \<open>-1074 \<le> e \<le> 971\<close>, or \<open>Inf\<close>; \<open>dbl_round p q\<close> is the quotient \<open>p / q\<close> rounded to
  nearest, ties to even.
\<close>

fun bitlen :: "nat \<Rightarrow> nat" where
  "bitlen n = (if n = 0 then 0 else Suc (bitlen (n div 2)))"

declare bitlen.simps [simp del]

definition round_even :: "nat \<Rightarrow> nat \<Rightarrow> nat" where
  "round_even p q =
     (let n = p div q; r = p mod q in
      if 2 * r < q \<or> (2 * r = q \<and> even n) then n else n + 1)"

definition scaled_frac :: "nat \<Rightarrow> nat \<Rightarrow> int \<Rightarrow> nat \<times> nat" where
  "scaled_frac p q e = (if e \<ge> 0 then (p, q * 2 ^ nat e) else (p * 2 ^ nat (- e), q))"

definition dbl_round :: "nat \<Rightarrow> nat \<Rightarrow> dbl" where
  "dbl_round p q =
     (let e = int (bitlen p) - int (bitlen q) - 53;
          (a, b) = scaled_frac p q e;
          e = max (-1074) (if a div b \<ge> 2 ^ 53 then e + 1 else e);
          (a, b) = scaled_frac p q e;
          n = round_even a b;
          (n, e) = (if n = 2 ^ 53 then (2 ^ 52, e + 1) else (n, e))
      in if e > 971 then Inf else Fin n e)"

definition dbl_of_nat :: "nat \<Rightarrow> dbl" where
  "dbl_of_nat n = dbl_round n 1"

definition dbl_scaled :: "nat \<Rightarrow> int \<Rightarrow> nat \<Rightarrow> dbl" where
  "dbl_scaled m e q = (if e \<ge> 0 then dbl_round (m * 2 ^ nat e) q else dbl_round m (q * 2 ^ nat (- e)))"

fun dbl_mult :: "dbl \<Rightarrow> dbl \<Rightarrow> dbl" where
  "dbl_mult (Fin m e) (Fin m' e') = dbl_scaled (m * m') (e + e') 1"
| "dbl_mult _ _ = Inf"

fun dbl_divide :: "dbl \<Rightarrow> dbl \<Rightarrow> dbl" where
  "dbl_divide (Fin m e) (Fin m' e') = dbl_scaled m (e - e') m'"
| "dbl_divide _ _ = Inf"

fun dbl_add :: "dbl \<Rightarrow> dbl \<Rightarrow> dbl" where
  "dbl_add (Fin m e) (Fin m' e') =
     (let k = min e e' in dbl_scaled (m * 2 ^ nat (e - k) + m' * 2 ^ nat (e' - k)) k 1)"
| "dbl_add _ _ = Inf"

fun dbl_le :: "dbl \<Rightarrow> dbl \<Rightarrow> bool" where
  "dbl_le _ Inf = True"
| "dbl_le Inf (Fin m e) = False"
| "dbl_le (Fin m e) (Fin m' e') =
     (let k = min e e' in m * 2 ^ nat (e - k) \<le> m' * 2 ^ nat (e' - k))"

definition Pow10 :: "nat \<Rightarrow> dbl" where
  "Pow10 n = dbl_round (10 ^ n) 1"

definition FastPath :: "dbl \<Rightarrow> int \<Rightarrow> dbl" where
  "FastPath significand exp =
     (if exp < -308 then dbl_of_nat 0
      else if exp \<ge> 0 then dbl_mult significand (Pow10 (nat exp))
      else dbl_divide significand (Pow10 (nat (- exp))))"

definition StrtodNormalPrecision :: "dbl \<Rightarrow> int \<Rightarrow> dbl" where
  "StrtodNormalPrecision d p =
     (if p < -308 then FastPath (FastPath d (-308)) (p + 308) else FastPath d p)"

subsection \<open>Streams, errors, white space\<close>

datatype ParseErrorCode =
    kParseErrorDocumentEmpty
  | kParseErrorDocumentRootNotSingular
  | kParseErrorValueInvalid
  | kParseErrorObjectMissName
  | kParseErrorObjectMissColon
  | kParseErrorObjectMissCommaOrCurlyBracket
  | kParseErrorArrayMissCommaOrSquareBracket
  | kParseErrorStringUnicodeEscapeInvalidHex
  | kParseErrorStringUnicodeSurrogateInvalid
  | kParseErrorStringEscapeInvalid
  | kParseErrorStringMissQuotationMark
  | kParseErrorStringInvalidEncoding
  | kParseErrorNumberTooBig
  | kParseErrorNumberMissFraction
  | kParseErrorNumberMissExponent

type_synonym stream = bytes
type_synonym 'a presult = "(ParseErrorCode \<times> stream) + ('a \<times> stream)"

definition Peek :: "stream \<Rightarrow> char" where
  "Peek is = (case is of [] \<Rightarrow> CHR 0x00 | c # _ \<Rightarrow> c)"

fun SkipWhitespace :: "stream \<Rightarrow> stream" where
  "SkipWhitespace [] = []"
| "SkipWhitespace (c # is) =
     (if c = CHR '' '' \<or> c = CHR 0x0A \<or> c = CHR 0x0D \<or> c = CHR 0x09 then SkipWhitespace is
      else c # is)"

text \<open>Consuming the characters of a literal one by one: the stream where that stops.\<close>

fun consume_word :: "string \<Rightarrow> stream \<Rightarrow> bool \<times> stream" where
  "consume_word [] is = (True, is)"
| "consume_word (c # cs) is =
     (if is \<noteq> [] \<and> hd is = c then consume_word cs (tl is) else (False, is))"

definition parse_literal :: "string \<Rightarrow> json \<Rightarrow> stream \<Rightarrow> json presult" where
  "parse_literal lit v is =
     (let (ok, is) = consume_word lit (tl is) in
      if ok then Inr (v, is) else Inl (kParseErrorValueInvalid, is))"

definition ParseNull :: "stream \<Rightarrow> json presult" where
  "ParseNull is = parse_literal ''ull'' JNull is"

definition ParseTrue :: "stream \<Rightarrow> json presult" where
  "ParseTrue is = parse_literal ''rue'' (JBool True) is"

definition ParseFalse :: "stream \<Rightarrow> json presult" where
  "ParseFalse is = parse_literal ''alse'' (JBool False) is"

subsection \<open>Strings\<close>

definition UTF8_Encode :: "nat \<Rightarrow> bytes" where
  "UTF8_Encode codepoint =
     (if codepoint \<le> 0x7F then [char_of (codepoint AND 0xFF)]
      else if codepoint \<le> 0x7FF then
        [char_of (0xC0 OR (drop_bit 6 codepoint AND 0xFF)), char_of (0x80 OR (codepoint AND 0x3F))]
      else if codepoint \<le> 0xFFFF then
        [char_of (0xE0 OR (drop_bit 12 codepoint AND 0xFF)),
         char_of (0x80 OR (drop_bit 6 codepoint AND 0x3F)), char_of (0x80 OR (codepoint AND 0x3F))]
      else
        [char_of (0xF0 OR (drop_bit 18 codepoint AND 0xFF)),
         char_of (0x80 OR (drop_bit 12 codepoint AND 0x3F)),
         char_of (0x80 OR (drop_bit 6 codepoint AND 0x3F)), char_of (0x80 OR (codepoint AND 0x3F))])"

definition hex_value :: "char \<Rightarrow> nat option" where
  "hex_value c =
     (let n = of_char c in
      if n \<ge> 48 \<and> n \<le> 57 then Some (n - 48)
      else if n \<ge> 65 \<and> n \<le> 70 then Some (n - (65 - 10))
      else if n \<ge> 97 \<and> n \<le> 102 then Some (n - (97 - 10))
      else None)"

fun hex_loop :: "nat \<Rightarrow> nat \<Rightarrow> stream \<Rightarrow> (nat \<times> stream) option" where
  "hex_loop 0 codepoint is = Some (codepoint, is)"
| "hex_loop (Suc i) codepoint is =
     (case hex_value (Peek is) of
        None \<Rightarrow> None
      | Some d \<Rightarrow> hex_loop i (16 * codepoint + d) (tl is))"

definition ParseHex4 :: "stream \<Rightarrow> (nat \<times> stream) option" where
  "ParseHex4 is = hex_loop 4 0 is"

definition read_escape :: "char \<Rightarrow> char option" where
  "read_escape e =
     (if e = CHR 0x22 then Some (CHR 0x22)
      else if e = CHR ''/'' then Some (CHR ''/'')
      else if e = CHR 0x5C then Some (CHR 0x5C)
      else if e = CHR ''b'' then Some (CHR 0x08)
      else if e = CHR ''f'' then Some (CHR 0x0C)
      else if e = CHR ''n'' then Some (CHR 0x0A)
      else if e = CHR ''r'' then Some (CHR 0x0D)
      else if e = CHR ''t'' then Some (CHR 0x09)
      else None)"

text \<open>The part of a unicode escape after its \<open>u\<close>; \<open>esc\<close> is the stream at its backslash.\<close>

definition parse_unicode :: "stream \<Rightarrow> stream \<Rightarrow> bytes presult" where
  "parse_unicode esc is =
     (case ParseHex4 is of
        None \<Rightarrow> Inl (kParseErrorStringUnicodeEscapeInvalidHex, esc)
      | Some (codepoint, is) \<Rightarrow>
          if codepoint \<ge> 0xD800 \<and> codepoint \<le> 0xDBFF then
            (let (ok, is) = consume_word [CHR 0x5C, CHR ''u''] is in
             if \<not> ok then Inl (kParseErrorStringUnicodeSurrogateInvalid, esc)
             else case ParseHex4 is of
               None \<Rightarrow> Inl (kParseErrorStringUnicodeEscapeInvalidHex, esc)
             | Some (codepoint2, is) \<Rightarrow>
                 if codepoint2 < 0xDC00 \<or> codepoint2 > 0xDFFF then
                   Inl (kParseErrorStringUnicodeSurrogateInvalid, esc)
                 else
                   Inr (UTF8_Encode ((push_bit 10 (codepoint - 0xD800) OR (codepoint2 - 0xDC00)) + 0x10000),
                     is))
          else Inr (UTF8_Encode codepoint, is))"

text \<open>The escape at a backslash.\<close>

definition parse_escape :: "stream \<Rightarrow> bytes presult" where
  "parse_escape is =
     (let e = Peek (tl is) in
      case read_escape e of
        Some c \<Rightarrow> Inr ([c], tl (tl is))
      | None \<Rightarrow>
          if e = CHR ''u'' then parse_unicode is (tl (tl is))
          else Inl (kParseErrorStringEscapeInvalid, is))"

lemma consume_word_length: "consume_word cs is = (ok, is') \<Longrightarrow> length is' \<le> length is"
  by (induction cs "is" rule: consume_word.induct) (auto split: if_splits)

lemma hex_loop_length: "hex_loop i cp is = Some (cp', is') \<Longrightarrow> length is' \<le> length is"
  by (induction i cp "is" rule: hex_loop.induct) (auto split: option.splits)

lemma parse_unicode_length: "parse_unicode esc is = Inr (bs, is') \<Longrightarrow> length is' \<le> length is"
  by (auto simp: parse_unicode_def ParseHex4_def split: option.splits if_splits prod.splits
      dest!: hex_loop_length consume_word_length)

lemma Peek_nonempty: "Peek is \<noteq> CHR 0x00 \<Longrightarrow> is \<noteq> []"
  by (auto simp: Peek_def)

lemma parse_escape_length:
  assumes "is \<noteq> []" and "parse_escape is = Inr (bs, is')"
  shows "length is' < length is"
proof -
  have "length is' \<le> length (tl (tl is))"
    using assms(2) parse_unicode_length [of "is" "tl (tl is)" bs is']
    by (auto simp: parse_escape_def Let_def split: option.splits if_splits)
  moreover have "length (tl (tl is)) < length is" using assms(1) by (cases "is") auto
  ultimately show ?thesis by simp
qed

text \<open>The loop of \<open>ParseStringToStream\<close>, after the opening quote.\<close>

function string_loop :: "bytes \<Rightarrow> stream \<Rightarrow> bytes presult" where
  "string_loop os is =
     (let c = Peek is in
      if c = CHR 0x5C then
        (case parse_escape is of
           Inl err \<Rightarrow> Inl err
         | Inr (bs, is') \<Rightarrow> string_loop (os @ bs) is')
      else if c = CHR 0x22 then Inr (os, tl is)
      else if (of_char c :: nat) < 0x20 then
        (if c = CHR 0x00 then Inl (kParseErrorStringMissQuotationMark, is)
         else Inl (kParseErrorStringInvalidEncoding, is))
      else string_loop (os @ [c]) (tl is))"
  by pat_completeness auto
termination
proof (relation "measure (\<lambda>(os, is). length is)")
  fix os "is" c r bs is'
  assume "c = Peek is" "c = CHR 0x5C" "parse_escape is = Inr r" "(bs, is') = r"
  moreover from this have "is \<noteq> []" by (auto simp: Peek_def split: list.splits)
  ultimately show "((os @ bs, is'), os, is) \<in> measure (\<lambda>(os, is). length is)"
    using parse_escape_length [of "is" bs is'] by auto
next
  fix os "is" c
  assume "c = Peek is" "\<not> (of_char c :: nat) < 0x20"
  then have "is \<noteq> []" by (auto simp: Peek_def)
  then show "((os @ [c], tl is), os, is) \<in> measure (\<lambda>(os, is). length is)" by (cases "is") auto
qed simp

declare string_loop.simps [simp del]

definition ParseString :: "stream \<Rightarrow> bytes presult" where
  "ParseString is = string_loop [] (tl is)"

subsection \<open>Numbers\<close>

definition is_digit :: "char \<Rightarrow> bool" where
  "is_digit c \<longleftrightarrow> 48 \<le> (of_char c :: nat) \<and> (of_char c :: nat) \<le> 57"

definition digit_value :: "char \<Rightarrow> nat" where
  "digit_value c = of_char c - 48"

text \<open>
  The loops that read an integer into an unsigned variable of 32 or 64 bits. A
  digit is refused when the value would exceed \<open>10 * limit + last\<close>, which is the
  largest one of the type (or the magnitude of the smallest negative one): the
  result is the value, whether a digit was refused, the number of digits read and
  the stream. As a digit is read only below the limit, the value never wraps.
\<close>

fun int_loop :: "nat \<Rightarrow> nat \<Rightarrow> nat \<Rightarrow> nat \<Rightarrow> stream \<Rightarrow> nat \<times> bool \<times> nat \<times> stream" where
  "int_loop limit lst i k [] = (i, False, k, [])"
| "int_loop limit lst i k (c # is) =
     (if is_digit c then
        (if i \<ge> limit \<and> (i \<noteq> limit \<or> digit_value c > lst) then (i, True, k, c # is)
         else int_loop limit lst (i * 10 + digit_value c) (k + 1) is)
      else (i, False, k, c # is))"

text \<open>The bound \<open>1.7976931348623157e307\<close> of the loop over a big integer.\<close>

definition big_limit :: dbl where
  "big_limit = dbl_round (17976931348623157 * 10 ^ 291) 1"

fun big_loop :: "dbl \<Rightarrow> stream \<Rightarrow> (dbl \<times> stream) option" where
  "big_loop d [] = Some (d, [])"
| "big_loop d (c # is) =
     (if is_digit c then
        (if dbl_le big_limit d then None
         else big_loop (dbl_add (dbl_mult d (dbl_of_nat 10)) (dbl_of_nat (digit_value c))) is)
      else Some (d, c # is))"

text \<open>The two loops over the digits of a fraction.\<close>

fun frac_int_loop :: "nat \<Rightarrow> int \<Rightarrow> nat \<Rightarrow> stream \<Rightarrow> nat \<times> int \<times> nat \<times> stream" where
  "frac_int_loop i64 expFrac k [] = (i64, expFrac, k, [])"
| "frac_int_loop i64 expFrac k (c # is) =
     (if is_digit c \<and> \<not> i64 > 0x1FFFFFFFFFFFFF then
        (let i64 = i64 * 10 + digit_value c in
         frac_int_loop i64 (expFrac - 1) (if i64 \<noteq> 0 then k + 1 else k) is)
      else (i64, expFrac, k, c # is))"

fun frac_dbl_loop :: "dbl \<Rightarrow> int \<Rightarrow> nat \<Rightarrow> stream \<Rightarrow> dbl \<times> int \<times> stream" where
  "frac_dbl_loop d expFrac k [] = (d, expFrac, [])"
| "frac_dbl_loop d expFrac k (c # is) =
     (if is_digit c then
        (if k < 17 then
           (let d = dbl_add (dbl_mult d (dbl_of_nat 10)) (dbl_of_nat (digit_value c)) in
            frac_dbl_loop d (expFrac - 1) (if \<not> dbl_le d (dbl_of_nat 0) then k + 1 else k) is)
         else frac_dbl_loop d expFrac k is)
      else (d, expFrac, c # is))"

text \<open>The loops over the digits of an exponent.\<close>

fun exp_minus_loop :: "int \<Rightarrow> stream \<Rightarrow> int \<times> stream" where
  "exp_minus_loop exp [] = (exp, [])"
| "exp_minus_loop exp (c # is) =
     (if is_digit c then
        (let exp = exp * 10 + int (digit_value c) in
         if exp \<ge> 214748364 then (exp, dropWhile is_digit is) else exp_minus_loop exp is)
      else (exp, c # is))"

fun exp_plus_loop :: "int \<Rightarrow> int \<Rightarrow> stream \<Rightarrow> (int \<times> stream) option" where
  "exp_plus_loop maxExp exp [] = Some (exp, [])"
| "exp_plus_loop maxExp exp (c # is) =
     (if is_digit c then
        (let exp = exp * 10 + int (digit_value c) in
         if exp > maxExp then None else exp_plus_loop maxExp exp is)
      else Some (exp, c # is))"

text \<open>
  The state after the integer part: the unsigned value read and its width, or the
  double once the integer exceeds 64 bits.
\<close>

datatype num_part = Num32 nat | Num64 nat | NumDouble dbl

definition num_double :: "num_part \<Rightarrow> dbl" where
  "num_double x = (case x of Num32 i \<Rightarrow> dbl_of_nat i | Num64 i \<Rightarrow> dbl_of_nat i | NumDouble d \<Rightarrow> d)"

text \<open>The integer part after its first digit \<open>i\<close>.\<close>

definition parse_digits :: "bool \<Rightarrow> nat \<Rightarrow> stream \<Rightarrow> (num_part \<times> nat \<times> stream) option" where
  "parse_digits negative i is =
     (let (i, use64bit, k, is) =
            (if negative then int_loop 214748364 8 i 0 is else int_loop 429496729 5 i 0 is)
      in if \<not> use64bit then Some (Num32 i, k, is)
         else
           (let (i64, useDouble, k, is) =
                  (if negative then int_loop 0x0CCCCCCCCCCCCCCC 8 i k is
                   else int_loop 0x1999999999999999 5 i k is)
            in if \<not> useDouble then Some (Num64 i64, k, is)
               else (case big_loop (dbl_of_nat i64) is of
                  None \<Rightarrow> None
                | Some (d, is) \<Rightarrow> Some (NumDouble d, k, is))))"

definition parse_fraction :: "num_part \<Rightarrow> nat \<Rightarrow> stream \<Rightarrow> (num_part \<times> int) presult" where
  "parse_fraction x k is =
     (if Peek is \<noteq> CHR ''.'' then Inr ((x, 0), is)
      else
        (let is = tl is in
         if \<not> is_digit (Peek is) then Inl (kParseErrorNumberMissFraction, is)
         else
           (let (d, expFrac, k, is) =
                  (case x of
                     NumDouble d \<Rightarrow> (d, 0, k, is)
                   | Num32 i \<Rightarrow>
                       (let (i64, expFrac, k, is) = frac_int_loop i 0 k is
                        in (dbl_of_nat i64, expFrac, k, is))
                   | Num64 i \<Rightarrow>
                       (let (i64, expFrac, k, is) = frac_int_loop i 0 k is
                        in (dbl_of_nat i64, expFrac, k, is)));
                (d, expFrac, is) = frac_dbl_loop d expFrac k is
            in Inr ((NumDouble d, expFrac), is))))"

text \<open>The exponent part; \<open>start\<close> is the stream at the beginning of the number.\<close>

definition parse_exponent :: "stream \<Rightarrow> num_part \<Rightarrow> int \<Rightarrow> stream \<Rightarrow> (num_part \<times> int) presult" where
  "parse_exponent start x expFrac is =
     (if Peek is \<noteq> CHR ''e'' \<and> Peek is \<noteq> CHR ''E'' then Inr ((x, 0), is)
      else
        (let is = tl is;
             (expMinus, is) =
               (if Peek is = CHR ''+'' then (False, tl is)
                else if Peek is = CHR ''-'' then (True, tl is)
                else (False, is))
         in if \<not> is_digit (Peek is) then Inl (kParseErrorNumberMissExponent, is)
            else
              (let exp = int (digit_value (Peek is)); is = tl is in
               if expMinus then
                 (let (exp, is) = exp_minus_loop exp is in
                  Inr ((NumDouble (num_double x), - exp), is))
               else
                 (case exp_plus_loop (308 - expFrac) exp is of
                    None \<Rightarrow> Inl (kParseErrorNumberTooBig, start)
                  | Some (exp, is) \<Rightarrow> Inr ((NumDouble (num_double x), exp), is)))))"

text \<open>The event at the end: the two's complement of the magnitude if negative.\<close>

definition number_value :: "bool \<Rightarrow> num_part \<Rightarrow> int \<Rightarrow> json" where
  "number_value negative x p =
     (case x of
        NumDouble d \<Rightarrow> JDouble negative (StrtodNormalPrecision d p)
      | Num64 i64 \<Rightarrow>
          JInt (if negative then sint (NOT (of_nat i64 :: i64) + 1) else int i64)
      | Num32 i \<Rightarrow>
          JInt (if negative then sint (NOT (of_nat i :: u32) + 1) else int i))"

definition ParseNumber :: "stream \<Rightarrow> json presult" where
  "ParseNumber start =
     (let negative = (Peek start = CHR ''-'');
          is = (if negative then tl start else start);
          c = Peek is
      in case (if c = CHR ''0'' then Inr (Num32 0, 0, tl is)
               else if is_digit c then
                 (case parse_digits negative (digit_value c) (tl is) of
                    None \<Rightarrow> Inl (kParseErrorNumberTooBig, start)
                  | Some x \<Rightarrow> Inr x)
               else Inl (kParseErrorValueInvalid, is)) of
           Inl err \<Rightarrow> Inl err
         | Inr (x, k, is) \<Rightarrow>
             (case parse_fraction x k is of
                Inl err \<Rightarrow> Inl err
              | Inr ((x, expFrac), is) \<Rightarrow>
                  (case parse_exponent start x expFrac is of
                     Inl err \<Rightarrow> Inl err
                   | Inr ((x, exp), is) \<Rightarrow> Inr (number_value negative x (exp + expFrac), is))))"

subsection \<open>Values\<close>

text \<open>Running the rest of a parser on a result: errors and the end of the fuel pass through.\<close>

definition pbind ::
  "'a presult option \<Rightarrow> ('a \<Rightarrow> stream \<Rightarrow> 'b presult option) \<Rightarrow> 'b presult option" where
  "pbind r f =
     (case r of
        None \<Rightarrow> None
      | Some (Inl err) \<Rightarrow> Some (Inl err)
      | Some (Inr (x, is)) \<Rightarrow> f x is)"

lemma pbind_simps [simp]:
  "pbind None f = None" "pbind (Some (Inl err)) f = Some (Inl err)"
  "pbind (Some (Inr (x, is))) f = f x is"
  by (simp_all add: pbind_def)

text \<open>
  \<open>ParseMembers\<close> and \<open>ParseElements\<close> are the loops of \<open>ParseObject\<close> and
  \<open>ParseArray\<close>; they return what is read from the current position on.
\<close>

fun ParseValue :: "nat \<Rightarrow> stream \<Rightarrow> json presult option"
  and ParseObject :: "nat \<Rightarrow> stream \<Rightarrow> json presult option"
  and ParseArray :: "nat \<Rightarrow> stream \<Rightarrow> json presult option"
  and ParseMembers :: "nat \<Rightarrow> stream \<Rightarrow> (bytes \<times> json) list presult option"
  and ParseElements :: "nat \<Rightarrow> stream \<Rightarrow> json list presult option" where
  "ParseValue 0 is = None"
| "ParseValue (Suc n) is =
     (let c = Peek is in
      if c = CHR ''n'' then Some (ParseNull is)
      else if c = CHR ''t'' then Some (ParseTrue is)
      else if c = CHR ''f'' then Some (ParseFalse is)
      else if c = CHR 0x22 then pbind (Some (ParseString is)) (\<lambda>s is. Some (Inr (JString s, is)))
      else if c = CHR ''{'' then ParseObject n is
      else if c = CHR ''['' then ParseArray n is
      else Some (ParseNumber is))"
| "ParseObject 0 is = None"
| "ParseObject (Suc n) is =
     (let is = SkipWhitespace (tl is) in
      if Peek is = CHR ''}'' then Some (Inr (JObject [], tl is))
      else pbind (ParseMembers n is) (\<lambda>ms is. Some (Inr (JObject ms, is))))"
| "ParseArray 0 is = None"
| "ParseArray (Suc n) is =
     (let is = SkipWhitespace (tl is) in
      if Peek is = CHR '']'' then Some (Inr (JArray [], tl is))
      else pbind (ParseElements n is) (\<lambda>vs is. Some (Inr (JArray vs, is))))"
| "ParseMembers 0 is = None"
| "ParseMembers (Suc n) is =
     (if Peek is \<noteq> CHR 0x22 then Some (Inl (kParseErrorObjectMissName, is))
      else
        pbind (Some (ParseString is)) (\<lambda>k is.
          let is = SkipWhitespace is in
          if Peek is \<noteq> CHR '':'' then Some (Inl (kParseErrorObjectMissColon, is))
          else
            pbind (ParseValue n (SkipWhitespace (tl is))) (\<lambda>v is.
              let is = SkipWhitespace is in
              if Peek is = CHR '','' then
                pbind (ParseMembers n (SkipWhitespace (tl is))) (\<lambda>ms is. Some (Inr ((k, v) # ms, is)))
              else if Peek is = CHR ''}'' then Some (Inr ([(k, v)], tl is))
              else Some (Inl (kParseErrorObjectMissCommaOrCurlyBracket, is)))))"
| "ParseElements 0 is = None"
| "ParseElements (Suc n) is =
     pbind (ParseValue n is) (\<lambda>v is.
       let is = SkipWhitespace is in
       if Peek is = CHR '','' then
         pbind (ParseElements n (SkipWhitespace (tl is))) (\<lambda>vs is. Some (Inr (v # vs, is)))
       else if Peek is = CHR '']'' then Some (Inr ([v], tl is))
       else Some (Inl (kParseErrorArrayMissCommaOrSquareBracket, is)))"

text \<open>
  \<open>Document::Parse\<close> on a C string: the error with its offset, or the value.
\<close>

definition parse_text :: "nat \<Rightarrow> stream \<Rightarrow> json presult option" where
  "parse_text n str =
     (let is = SkipWhitespace str in
      if Peek is = CHR 0x00 then Some (Inl (kParseErrorDocumentEmpty, is))
      else
        pbind (ParseValue n is) (\<lambda>v is.
          let is = SkipWhitespace is in
          if Peek is \<noteq> CHR 0x00 then Some (Inl (kParseErrorDocumentRootNotSingular, is))
          else Some (Inr (v, is))))"

definition parse_fuel :: "stream \<Rightarrow> nat" where
  "parse_fuel str = 3 * length str + 3"

definition document_Parse :: "stream \<Rightarrow> ((ParseErrorCode \<times> nat) + json) option" where
  "document_Parse str =
     map_option (\<lambda>r. case r of
         Inl (code, is) \<Rightarrow> Inl (code, length str - length is)
       | Inr (v, is) \<Rightarrow> Inr v)
       (parse_text (parse_fuel str) str)"

subsection \<open>Parsers consume their input\<close>

named_theorems shorter \<open>what a parser leaves is not longer than what it was given\<close>

lemma SkipWhitespace_length: "length (SkipWhitespace is) \<le> length is"
  by (induction "is" rule: SkipWhitespace.induct) auto

lemma int_loop_length [shorter]: "int_loop l m i k is = (i', b, k', is') \<Longrightarrow> length is' \<le> length is"
  by (induction l m i k "is" rule: int_loop.induct) (auto split: if_splits)

lemma big_loop_length [shorter]: "big_loop d is = Some (d', is') \<Longrightarrow> length is' \<le> length is"
  by (induction d "is" rule: big_loop.induct) (auto split: if_splits)

lemma frac_int_loop_length [shorter]:
  "frac_int_loop i e k is = (i', e', k', is') \<Longrightarrow> length is' \<le> length is"
  by (induction i e k "is" rule: frac_int_loop.induct) (auto simp: Let_def split: if_splits)

lemma frac_dbl_loop_length [shorter]:
  "frac_dbl_loop d e k is = (d', e', is') \<Longrightarrow> length is' \<le> length is"
  by (induction d e k "is" rule: frac_dbl_loop.induct) (auto simp: Let_def split: if_splits)

lemma exp_minus_loop_length [shorter]: "exp_minus_loop e is = (e', is') \<Longrightarrow> length is' \<le> length is"
  by (induction e "is" rule: exp_minus_loop.induct)
    (auto simp: Let_def length_dropWhile_le le_SucI split: if_splits)

lemma exp_plus_loop_length [shorter]:
  "exp_plus_loop m e is = Some (e', is') \<Longrightarrow> length is' \<le> length is"
  by (induction m e "is" rule: exp_plus_loop.induct) (auto simp: Let_def split: if_splits)

lemma parse_digits_length [shorter]:
  "parse_digits s i is = Some (x, k, is') \<Longrightarrow> length is' \<le> length is"
  by (fastforce simp: parse_digits_def split: prod.splits if_splits option.splits dest!: shorter)

lemma parse_fraction_length [shorter]:
  assumes "parse_fraction x k is = Inr (y, is')"
  shows "length is' \<le> length is"
proof (cases "Peek is = CHR ''.''")
  case False
  then show ?thesis using assms by (simp add: parse_fraction_def)
next
  case True
  then have "length is' \<le> length (tl is)"
    using assms
    by (cases x) (fastforce simp: parse_fraction_def Let_def split: prod.splits if_splits dest!: shorter)+
  then show ?thesis by simp
qed

lemma parse_exponent_length [shorter]:
  assumes "parse_exponent s x f is = Inr (y, is')"
  shows "length is' \<le> length is"
  using assms unfolding parse_exponent_def Let_def
  by (fastforce split: prod.splits if_splits option.splits dest!: shorter)

lemma is_digit_nonempty: "is_digit (Peek is) \<Longrightarrow> is \<noteq> []"
  by (auto simp: Peek_def is_digit_def)

lemma ParseNumber_length:
  assumes "ParseNumber is = Inr (v, is')"
  shows "length is' < length is"
proof -
  let ?is = "if Peek is = CHR ''-'' then tl is else is"
  obtain x k is1 y is2 z is3 where
    i: "Peek ?is = CHR ''0'' \<and> is1 = tl ?is \<or>
      is_digit (Peek ?is) \<and> parse_digits (Peek is = CHR ''-'') (digit_value (Peek ?is)) (tl ?is) = Some (x, k, is1)"
    and f: "parse_fraction x k is1 = Inr (y, is2)"
    and e: "parse_exponent is (fst y) (snd y) is2 = Inr (z, is')"
    using assms unfolding ParseNumber_def Let_def
    by (fastforce split: sum.splits prod.splits if_splits option.splits)
  have "length is1 \<le> length (tl ?is)" using i by (auto dest: shorter)
  moreover have "?is \<noteq> []"
    using i Peek_nonempty [of ?is] is_digit_nonempty [of ?is] by auto
  moreover have "length is' \<le> length is1" using f e by (auto dest!: shorter)
  ultimately show ?thesis by (cases "is"; cases ?is) (auto split: if_splits)
qed

lemma string_loop_length:
  "string_loop os is = Inr (s, is') \<Longrightarrow> length is' < length is"
proof (induction os "is" rule: string_loop.induct)
  case (1 os "is")
  show ?case
  proof (cases "Peek is = CHR 0x5C")
    case True
    then obtain bs is1 where e: "parse_escape is = Inr (bs, is1)" "string_loop (os @ bs) is1 = Inr (s, is')"
      using "1.prems" by (subst (asm) string_loop.simps) (auto simp: Let_def split: sum.splits)
    then have "length is' < length is1" using "1.IH"(1) [OF refl True e(1) refl] by simp
    moreover have "length is1 < length is"
      using e(1) True by (intro parse_escape_length Peek_nonempty) auto
    ultimately show ?thesis by simp
  next
    case False
    then show ?thesis
      using "1.prems" "1.IH"(2) [OF refl False] Peek_nonempty [of "is"]
      by (subst (asm) string_loop.simps) (cases "is"; auto simp: Let_def split: if_splits)
  qed
qed

lemma ParseString_length: "is \<noteq> [] \<Longrightarrow> ParseString is = Inr (s, is') \<Longrightarrow> length is' < length is"
  unfolding ParseString_def by (drule string_loop_length) (cases "is"; simp)

lemma parse_literal_length:
  "is \<noteq> [] \<Longrightarrow> parse_literal lit v is = Inr (w, is') \<Longrightarrow> length is' < length is"
  unfolding parse_literal_def by (cases "is") (auto split: prod.splits if_splits dest!: consume_word_length)

lemma pbind_Inr:
  "pbind r f = Some (Inr y) \<longleftrightarrow> (\<exists>x is. r = Some (Inr (x, is)) \<and> f x is = Some (Inr y))"
  by (auto simp: pbind_def split: option.split sum.split)

lemma pbind_None:
  "pbind r f = None \<longleftrightarrow> r = None \<or> (\<exists>x is. r = Some (Inr (x, is)) \<and> f x is = None)"
  by (auto simp: pbind_def split: option.split sum.split)

lemma pbind_defined:
  "(\<exists>y. pbind r f = Some y) \<longleftrightarrow>
     r \<noteq> None \<and> (\<forall>x is. r = Some (Inr (x, is)) \<longrightarrow> (\<exists>y. f x is = Some y))"
  using pbind_None [of r f] by (auto simp: not_None_eq)

lemma length_tl_Peek: "Peek is \<noteq> CHR 0x00 \<Longrightarrow> length (tl is) < length is"
  by (cases "is") (auto simp: Peek_def)

lemma length_tl_Skip: "length (tl (SkipWhitespace is)) \<le> length is"
  using SkipWhitespace_length [of "is"] by simp

lemma ParseValue_cases:
  assumes "ParseValue (Suc n) is = Some (Inr (v, is'))"
  obtains (Literal) lit w where "is \<noteq> []" "parse_literal lit w is = Inr (v, is')"
  | (Str) s where "is \<noteq> []" "ParseString is = Inr (s, is')"
  | (Object) "is \<noteq> []" "ParseObject n is = Some (Inr (v, is'))"
  | (Array) "is \<noteq> []" "ParseArray n is = Some (Inr (v, is'))"
  | (Number) "ParseNumber is = Inr (v, is')"
proof (cases "Peek is = CHR 0x00")
  case True
  then show ?thesis using assms Number by (simp add: Let_def)
next
  case False
  then have ne: "is \<noteq> []" by (rule Peek_nonempty)
  have "(\<exists>lit w. parse_literal lit w is = Inr (v, is')) \<or> (\<exists>s. ParseString is = Inr (s, is')) \<or>
      ParseObject n is = Some (Inr (v, is')) \<or> ParseArray n is = Some (Inr (v, is')) \<or>
      ParseNumber is = Inr (v, is')"
    using assms unfolding ParseValue.simps Let_def ParseNull_def ParseTrue_def ParseFalse_def
    by (simp add: pbind_Inr split: if_splits) blast+
  then show ?thesis using ne Literal Str Object Array Number by blast
qed

lemma skip_next_length: "length (SkipWhitespace (tl (SkipWhitespace is))) \<le> length is"
  using SkipWhitespace_length [of "tl (SkipWhitespace is)"] length_tl_Skip [of "is"] by simp

lemma ParseValue_shorter:
  "(\<forall>is v is'. ParseValue n is = Some (Inr (v, is')) \<longrightarrow> length is' < length is) \<and>
   (\<forall>is v is'. ParseObject n is = Some (Inr (v, is')) \<longrightarrow> length is' \<le> length (tl is)) \<and>
   (\<forall>is v is'. ParseArray n is = Some (Inr (v, is')) \<longrightarrow> length is' \<le> length (tl is)) \<and>
   (\<forall>is v is'. ParseMembers n is = Some (Inr (v, is')) \<longrightarrow> length is' < length is) \<and>
   (\<forall>is v is'. ParseElements n is = Some (Inr (v, is')) \<longrightarrow> length is' < length is)"
proof (induction n)
  case 0
  show ?case by simp
next
  case (Suc n)
  have V: "length is' < length is" if "ParseValue n is = Some (Inr (v, is'))" for "is" v is'
    using Suc that by blast
  have O: "length is' \<le> length (tl is)" if "ParseObject n is = Some (Inr (v, is'))" for "is" v is'
    using Suc that by blast
  have A: "length is' \<le> length (tl is)" if "ParseArray n is = Some (Inr (v, is'))" for "is" v is'
    using Suc that by blast
  have M: "length is' < length is" if "ParseMembers n is = Some (Inr (v, is'))" for "is" v is'
    using Suc that by blast
  have E: "length is' < length is" if "ParseElements n is = Some (Inr (v, is'))" for "is" v is'
    using Suc that by blast
  have "length is' < length is" if "ParseValue (Suc n) is = Some (Inr (v, is'))" for "is" v is'
    using that
  proof (cases rule: ParseValue_cases)
    case (Literal lit w)
    then show ?thesis by (intro parse_literal_length)
  next
    case (Str s)
    then show ?thesis by (intro ParseString_length)
  next
    case Object
    then show ?thesis using O [of "is" v is'] by (cases "is") simp_all
  next
    case Array
    then show ?thesis using A [of "is" v is'] by (cases "is") simp_all
  next
    case Number
    then show ?thesis by (rule ParseNumber_length)
  qed
  moreover have "length is' \<le> length (tl is)" if "ParseObject (Suc n) is = Some (Inr (v, is'))" for "is" v is'
    using that M [of "SkipWhitespace (tl is)" _ is'] length_tl_Skip [of "tl is"] SkipWhitespace_length [of "tl is"]
    by (fastforce simp: Let_def pbind_Inr split: if_splits)
  moreover have "length is' \<le> length (tl is)" if "ParseArray (Suc n) is = Some (Inr (v, is'))" for "is" v is'
    using that E [of "SkipWhitespace (tl is)" _ is'] length_tl_Skip [of "tl is"] SkipWhitespace_length [of "tl is"]
    by (fastforce simp: Let_def pbind_Inr split: if_splits)
  moreover have "length is' < length is" if a: "ParseElements (Suc n) is = Some (Inr (v, is'))" for "is" v is'
  proof -
    obtain w is1 where w: "ParseValue n is = Some (Inr (w, is1))"
      and r: "is' = tl (SkipWhitespace is1) \<or>
        (\<exists>vs. ParseElements n (SkipWhitespace (tl (SkipWhitespace is1))) = Some (Inr (vs, is')))"
      using a by (auto simp: Let_def pbind_Inr split: if_splits)
    have "length is' \<le> length is1"
      using r E skip_next_length [of is1] length_tl_Skip [of is1] by fastforce
    then show ?thesis using V [OF w] by simp
  qed
  moreover have "length is' < length is" if a: "ParseMembers (Suc n) is = Some (Inr (v, is'))" for "is" v is'
  proof -
    obtain k is0 w is1 where q: "Peek is = CHR 0x22" and k: "ParseString is = Inr (k, is0)"
      and w: "ParseValue n (SkipWhitespace (tl (SkipWhitespace is0))) = Some (Inr (w, is1))"
      and r: "is' = tl (SkipWhitespace is1) \<or>
        (\<exists>vs. ParseMembers n (SkipWhitespace (tl (SkipWhitespace is1))) = Some (Inr (vs, is')))"
      using a by (auto simp: Let_def pbind_Inr split: if_splits)
    have "length is' \<le> length is1"
      using r M skip_next_length [of is1] length_tl_Skip [of is1] by fastforce
    moreover have "length is1 \<le> length is0"
      using V [OF w] skip_next_length [of is0] by simp
    moreover have "length is0 < length is"
      using q by (intro ParseString_length [OF _ k] Peek_nonempty) simp
    ultimately show ?thesis by simp
  qed
  ultimately show ?case by blast
qed

text \<open>Three units of fuel per character are enough.\<close>

lemma ParseValue_fuel:
  "(\<forall>is. 3 * length is + 3 \<le> n \<longrightarrow> ParseValue n is \<noteq> None) \<and>
   (\<forall>is. 3 * length is + 2 \<le> n \<and> is \<noteq> [] \<longrightarrow> ParseObject n is \<noteq> None) \<and>
   (\<forall>is. 3 * length is + 2 \<le> n \<and> is \<noteq> [] \<longrightarrow> ParseArray n is \<noteq> None) \<and>
   (\<forall>is. 3 * length is + 4 \<le> n \<longrightarrow> ParseMembers n is \<noteq> None) \<and>
   (\<forall>is. 3 * length is + 4 \<le> n \<longrightarrow> ParseElements n is \<noteq> None)"
proof (induction n)
  case 0
  show ?case by simp
next
  case (Suc n)
  have V: "ParseValue n is \<noteq> None" if "3 * length is + 3 \<le> n" for "is" using Suc that by blast
  have O: "ParseObject n is \<noteq> None" if "3 * length is + 2 \<le> n" "is \<noteq> []" for "is"
    using Suc that by blast
  have A: "ParseArray n is \<noteq> None" if "3 * length is + 2 \<le> n" "is \<noteq> []" for "is"
    using Suc that by blast
  have M: "ParseMembers n is \<noteq> None" if "3 * length is + 4 \<le> n" for "is" using Suc that by blast
  have E: "ParseElements n is \<noteq> None" if "3 * length is + 4 \<le> n" for "is" using Suc that by blast
  have "ParseValue (Suc n) is \<noteq> None" if "3 * length is + 3 \<le> Suc n" for "is"
    using that O [of "is"] A [of "is"] Peek_nonempty [of "is"]
    by (simp add: Let_def pbind_defined)
  moreover have "ParseObject (Suc n) is \<noteq> None" if "3 * length is + 2 \<le> Suc n" "is \<noteq> []" for "is"
    using that M [of "SkipWhitespace (tl is)"] SkipWhitespace_length [of "tl is"]
    by (cases "is") (simp_all add: Let_def pbind_defined)
  moreover have "ParseArray (Suc n) is \<noteq> None" if "3 * length is + 2 \<le> Suc n" "is \<noteq> []" for "is"
    using that E [of "SkipWhitespace (tl is)"] SkipWhitespace_length [of "tl is"]
    by (cases "is") (simp_all add: Let_def pbind_defined)
  moreover have "ParseElements (Suc n) is \<noteq> None" if L: "3 * length is + 4 \<le> Suc n" for "is"
  proof -
    have "ParseElements n (SkipWhitespace (tl (SkipWhitespace is1))) \<noteq> None"
      if "ParseValue n is = Some (Inr (v, is1))" for v is1
    proof (rule E)
      have "length is1 < length is" using ParseValue_shorter that by blast
      then show "3 * length (SkipWhitespace (tl (SkipWhitespace is1))) + 4 \<le> n"
        using L skip_next_length [of is1] by linarith
    qed
    then show ?thesis using V [of "is"] L by (auto simp: Let_def pbind_defined)
  qed
  moreover have "ParseMembers (Suc n) is \<noteq> None" if L: "3 * length is + 4 \<le> Suc n" for "is"
  proof (cases "Peek is = CHR 0x22")
    case True
    then have ne: "is \<noteq> []" by (intro Peek_nonempty) simp
    have v: "ParseValue n (SkipWhitespace (tl (SkipWhitespace is0))) \<noteq> None"
      and m: "ParseValue n (SkipWhitespace (tl (SkipWhitespace is0))) = Some (Inr (v, is1)) \<Longrightarrow>
        ParseMembers n (SkipWhitespace (tl (SkipWhitespace is1))) \<noteq> None"
      if k: "ParseString is = Inr (k, is0)" for k is0 v is1
    proof -
      have k0: "length is0 < length is" using ParseString_length [OF ne k] .
      have s0: "length (SkipWhitespace (tl (SkipWhitespace is0))) \<le> length is0"
        using skip_next_length [of is0] by simp
      show "ParseValue n (SkipWhitespace (tl (SkipWhitespace is0))) \<noteq> None"
        by (rule V) (use k0 s0 L in linarith)
      assume "ParseValue n (SkipWhitespace (tl (SkipWhitespace is0))) = Some (Inr (v, is1))"
      then have "length is1 < length (SkipWhitespace (tl (SkipWhitespace is0)))"
        using ParseValue_shorter by blast
      then have "length (SkipWhitespace (tl (SkipWhitespace is1))) < length is0"
        using s0 skip_next_length [of is1] by linarith
      then show "ParseMembers n (SkipWhitespace (tl (SkipWhitespace is1))) \<noteq> None"
        by (intro M) (use k0 L in linarith)
    qed
    then show ?thesis using True by (auto simp: Let_def pbind_defined)
  next
    case False
    then show ?thesis by simp
  qed
  ultimately show ?case by blast
qed

lemma document_Parse_total: "document_Parse str \<noteq> None"
proof -
  have "ParseValue (parse_fuel str) (SkipWhitespace str) \<noteq> None"
    using ParseValue_fuel [of "parse_fuel str"] SkipWhitespace_length [of str]
    by (auto simp: parse_fuel_def)
  then show ?thesis by (auto simp: document_Parse_def parse_text_def Let_def pbind_defined)
qed

end
