(* ===== verification/Json_Roundtrip.thy ===== *)
theory Json_Roundtrip
  imports Json_Reader
begin

text \<open>
  The writer and the reader are inverse: what \<open>Writer\<close> prints for a value without
  doubles, \<open>Document::Parse\<close> reads back as that value. Strings may hold any bytes,
  integers are those of the signed or unsigned 64-bit types.
\<close>

subsection \<open>Strings\<close>

lemma hex_value_digit: "k < 16 \<Longrightarrow> hex_value (hexDigits ! k) = Some k"
proof -
  have "list_all (\<lambda>k. hex_value (hexDigits ! k) = Some k) [0..<16]" by code_simp
  then show "k < 16 \<Longrightarrow> hex_value (hexDigits ! k) = Some k" by (simp add: list_all_iff)
qed

lemma Peek_Cons [simp]: "Peek (c # is) = c"
  by (simp add: Peek_def)

lemma hex_value_0 [simp]: "hex_value (CHR ''0'') = Some 0"
  by code_simp

lemma ParseHex4_4: "ParseHex4 is = hex_loop (Suc (Suc (Suc (Suc 0)))) 0 is"
  unfolding ParseHex4_def by (rule arg_cong [where f = "\<lambda>n. hex_loop n 0 is"]) simp

lemma parse_unicode_small:
  assumes "n < 128"
  shows "parse_unicode esc (CHR ''0'' # CHR ''0'' # hexDigits ! (n div 16) # hexDigits ! (n mod 16) # is) =
    Inr ([char_of n], is)"
proof -
  have "n div 16 < 16" "n mod 16 < 16" using assms by auto
  then have "ParseHex4 (CHR ''0'' # CHR ''0'' # hexDigits ! (n div 16) # hexDigits ! (n mod 16) # is) =
      Some (n, is)"
    unfolding ParseHex4_4 by (simp add: hex_value_digit)
  moreover have "n AND 255 = n"
    using assms take_bit_nat_eq_self [of n 8] take_bit_eq_mask [of 8 n] by (simp add: mask_eq_exp_minus_1)
  ultimately show ?thesis using assms by (simp add: parse_unicode_def UTF8_Encode_def)
qed

lemma read_write_escape:
  "write_escape c = Some e \<Longrightarrow> e \<noteq> CHR ''u'' \<Longrightarrow> read_escape e = Some c"
  by (auto simp: write_escape_def read_escape_def split: if_splits)

lemma write_escape_u:
  "write_escape c = Some (CHR ''u'') \<Longrightarrow> (of_char c :: nat) < 32"
  by (auto simp: write_escape_def split: if_splits)

lemma parse_escape_write:
  assumes "write_escape c = Some e"
  shows "parse_escape (write_char c @ is) = Inr ([c], is)"
proof (cases "e = CHR ''u''")
  case True
  have "read_escape (CHR ''u'') = None" by code_simp
  then show ?thesis
    using True assms write_escape_u [of c] parse_unicode_small [of "of_char c"]
    by (simp add: write_char_def parse_escape_def)
next
  case False
  then show ?thesis
    using assms read_write_escape [OF assms False] by (simp add: write_char_def parse_escape_def)
qed

lemma string_loop_write_char: "string_loop os (write_char c @ is) = string_loop (os @ [c]) is"
proof (cases "write_escape c")
  case None
  then have "c \<noteq> CHR 0x22" "c \<noteq> CHR 0x5C" "\<not> (of_char c :: nat) < 32"
    by (auto simp: write_escape_def split: if_splits)
  then show ?thesis using None by (subst string_loop.simps) (simp add: write_char_def)
next
  case (Some e)
  then have "Peek (write_char c @ is) = CHR 0x5C" by (simp add: write_char_def)
  then show ?thesis by (subst string_loop.simps) (simp add: parse_escape_write [OF Some])
qed

lemma string_loop_write:
  "string_loop os (write_chars s @ CHR 0x22 # is) = Inr (os @ s, is)"
proof (induction s arbitrary: os)
  case Nil
  show ?case by (subst string_loop.simps) simp
next
  case (Cons c s)
  then show ?case by (simp add: string_loop_write_char)
qed

lemma ParseString_write: "ParseString (WriteString s @ is) = Inr (s, is)"
  by (simp add: ParseString_def WriteString_def string_loop_write)

subsection \<open>Numbers\<close>

definition digits_value :: "nat \<Rightarrow> string \<Rightarrow> nat" where
  "digits_value i ds = foldl (\<lambda>i c. i * 10 + digit_value c) i ds"

lemma digits_value_simps [simp]:
  "digits_value i [] = i"
  "digits_value i (c # ds) = digits_value (i * 10 + digit_value c) ds"
  "digits_value i (ds @ es) = digits_value (digits_value i ds) es"
  by (simp_all add: digits_value_def)

lemma digits_value_ge: "i \<le> digits_value i ds"
proof (induction ds arbitrary: i)
  case (Cons c ds)
  have "i \<le> i * 10 + digit_value c" by simp
  also have "\<dots> \<le> digits_value (i * 10 + digit_value c) ds" by (rule Cons.IH)
  finally show ?case by simp
qed simp

lemma digit_value_bound: "is_digit c \<Longrightarrow> digit_value c \<le> 9"
  by (auto simp: is_digit_def digit_value_def)

lemma refuse_iff:
  assumes "is_digit c" and "lst \<le> 9"
  shows "(limit \<le> i \<and> (i \<noteq> limit \<or> lst < digit_value c)) \<longleftrightarrow>
    10 * limit + lst < i * 10 + digit_value c"
  using digit_value_bound [OF assms(1)] assms(2) by auto

text \<open>The loop reads all the digits when the number fits.\<close>

lemma int_loop_fits:
  assumes "\<forall>c \<in> set ds. is_digit c" and "lst \<le> 9" and "\<not> is_digit (Peek is)"
    and "digits_value i ds \<le> 10 * limit + lst"
  shows "int_loop limit lst i k (ds @ is) = (digits_value i ds, False, k + length ds, is)"
  using assms
proof (induction ds arbitrary: i k)
  case Nil
  then show ?case by (cases "is") simp_all
next
  case (Cons c ds)
  have "i * 10 + digit_value c \<le> digits_value i (c # ds)" using digits_value_ge by simp
  then have "\<not> 10 * limit + lst < i * 10 + digit_value c" using Cons.prems(4) by linarith
  then show ?case using Cons refuse_iff [of c lst limit i] by simp
qed

text \<open>Otherwise it stops before the digit that would not fit.\<close>

lemma int_loop_exceeds:
  assumes "\<forall>c \<in> set ds. is_digit c" and "lst \<le> 9" and "10 * limit + lst < digits_value i ds"
    and "i \<le> 10 * limit + lst"
  shows "\<exists>ds1 ds2 k'. ds = ds1 @ ds2 \<and> digits_value i ds1 \<le> 10 * limit + lst \<and>
    int_loop limit lst i k (ds @ is) = (digits_value i ds1, True, k', ds2 @ is)"
  using assms
proof (induction ds arbitrary: i k)
  case Nil
  then show ?case by simp
next
  case (Cons c ds)
  show ?case
  proof (cases "10 * limit + lst < i * 10 + digit_value c")
    case True
    then have "int_loop limit lst i k ((c # ds) @ is) = (i, True, k, (c # ds) @ is)"
      using Cons.prems refuse_iff [of c lst limit i] by simp
    then show ?thesis using Cons.prems(4) by (intro exI [of _ "[]"] exI [of _ "c # ds"] exI [of _ k]) simp
  next
    case False
    then obtain ds1 ds2 k' where "ds = ds1 @ ds2"
      "digits_value (i * 10 + digit_value c) ds1 \<le> 10 * limit + lst"
      "int_loop limit lst (i * 10 + digit_value c) (k + 1) (ds @ is) =
        (digits_value (i * 10 + digit_value c) ds1, True, k', ds2 @ is)"
      using Cons.IH [of "i * 10 + digit_value c" "k + 1"] Cons.prems by auto
    then show ?thesis
      using Cons.prems refuse_iff [of c lst limit i] False
      by (intro exI [of _ "c # ds1"] exI [of _ ds2] exI [of _ k']) auto
  qed
qed

lemma digit_char_digit [simp]: "d < 10 \<Longrightarrow> is_digit (digit_char d)"
  and digit_char_value [simp]: "d < 10 \<Longrightarrow> digit_value (digit_char d) = d"
  by (simp_all add: is_digit_def digit_value_def digit_char_def)

lemma dec_digits: "\<forall>c \<in> set (dec n). is_digit c"
  by (induction n rule: dec.induct) (subst dec.simps, auto)

lemma dec_value: "digits_value 0 (dec n) = n"
proof (induction n rule: dec.induct)
  case (1 n)
  then show ?case by (subst dec.simps) (auto simp: dec_small)
qed

lemma dec_head: "0 < n \<Longrightarrow> \<exists>c ds. dec n = c # ds \<and> c \<noteq> CHR ''0'' \<and> 0 < digit_value c"
proof (induction n rule: dec.induct)
  case (1 n)
  show ?case
  proof (cases "n < 10")
    case True
    have "digit_char n \<noteq> CHR ''0''"
    proof
      assume "digit_char n = CHR ''0''"
      then have "digit_value (digit_char n) = 0" by (simp add: digit_value_def)
      then show False using True "1.prems" by simp
    qed
    then show ?thesis using True "1.prems" by (simp add: dec_small)
  next
    case False
    then obtain c ds where "dec (n div 10) = c # ds" "c \<noteq> CHR ''0''" "0 < digit_value c"
      using "1.IH" False by (auto simp: div_greater_zero_iff)
    then show ?thesis using False by (subst dec.simps) simp
  qed
qed

definition delim :: "stream \<Rightarrow> bool" where
  "delim is \<longleftrightarrow> \<not> is_digit (Peek is) \<and> Peek is \<notin> {CHR ''.'', CHR ''e'', CHR ''E''}"

lemma parse_digits_dec:
  assumes "\<forall>c \<in> set ds. is_digit c" and "\<not> is_digit (Peek is)" and "i \<le> 9"
    and "digits_value i ds \<le> (if s then 9223372036854775808 else 18446744073709551615)"
  shows "\<exists>k. parse_digits s i (ds @ is) =
    Some (if digits_value i ds \<le> (if s then 2147483648 else 4294967295) then Num32 (digits_value i ds)
      else Num64 (digits_value i ds), k, is)"
proof -
  define l m l' m' :: nat where lm: "l = (if s then 214748364 else 429496729)" "m = (if s then 8 else 5)"
    "l' = (if s then 0x0CCCCCCCCCCCCCCC else 0x1999999999999999)" "m' = m"
  have pd: "parse_digits s i is0 =
     (let (i, use64bit, k, is1) = int_loop l m i 0 is0 in
      if \<not> use64bit then Some (Num32 i, k, is1)
      else (let (i64, useDouble, k, is2) = int_loop l' m' i k is1 in
        if \<not> useDouble then Some (Num64 i64, k, is2)
        else (case big_loop (dbl_of_nat i64) is2 of
            None \<Rightarrow> None | Some (d, is) \<Rightarrow> Some (NumDouble d, k, is))))" for is0
  proof (cases s)
    case True
    then have s: "s = True" by simp
    show ?thesis unfolding parse_digits_def lm s if_True by (rule refl)
  next
    case False
    then have s: "s = False" by simp
    show ?thesis unfolding parse_digits_def lm s if_False by (rule refl)
  qed
  have m: "m \<le> 9" "m' \<le> 9" by (simp_all add: lm)
  have b32: "10 * l + m = (if s then 2147483648 else 4294967295)" by (simp add: lm)
  have b64: "10 * l' + m' = (if s then 9223372036854775808 else 18446744073709551615)" by (simp add: lm)
  show ?thesis
  proof (cases "digits_value i ds \<le> 10 * l + m")
    case True
    have "int_loop l m i 0 (ds @ is) = (digits_value i ds, False, 0 + length ds, is)"
      by (rule int_loop_fits [OF assms(1) m(1) assms(2) True])
    then show ?thesis using True unfolding pd b32 [symmetric] by simp
  next
    case False
    have "i \<le> 10 * l + m" using assms(3) by (simp add: lm)
    then obtain ds1 ds2 k where e: "ds = ds1 @ ds2" "digits_value i ds1 \<le> 10 * l + m"
      "int_loop l m i 0 (ds @ is) = (digits_value i ds1, True, k, ds2 @ is)"
      using int_loop_exceeds [OF assms(1) m(1), of l i 0 "is"] False by auto
    have "int_loop l' m' (digits_value i ds1) k (ds2 @ is) =
        (digits_value (digits_value i ds1) ds2, False, k + length ds2, is)"
      by (rule int_loop_fits [OF _ m(2) assms(2)]) (use assms(1,4) e(1) b64 in auto)
    then show ?thesis using e(1,3) False unfolding pd b32 [symmetric] by simp
  qed
qed

lemma sint_neg_of_nat:
  assumes "i \<le> 2 ^ (LENGTH('a::len) - 1)"
  shows "sint (NOT (of_nat i :: 'a word) + 1) = - int i"
proof -
  have "NOT (of_nat i :: 'a word) + 1 = word_of_int (- int i)"
    by (simp add: minus_eq_not_plus_1 [symmetric])
  moreover have "int i \<le> 2 ^ (LENGTH('a) - 1)" using assms by (metis of_nat_le_iff of_nat_numeral of_nat_power)
  then have "signed_take_bit (LENGTH('a) - Suc 0) (- int i) = - int i"
    by (intro signed_take_bit_int_eq_self) (simp_all add: order_le_less_trans [of "- int i" 0])
  ultimately show ?thesis by (simp only: signed_of_int of_int_eq_id id_apply)
qed

lemma parse_tail: "delim is \<Longrightarrow> parse_fraction x k is = Inr ((x, 0), is)"
  "delim is \<Longrightarrow> parse_exponent start x f is = Inr ((x, 0), is)"
  by (simp_all add: delim_def parse_fraction_def parse_exponent_def)

lemma number_value_fits:
  assumes "v \<le> (if s then 9223372036854775808 else 18446744073709551615)"
  shows "number_value s (if v \<le> (if s then 2147483648 else 4294967295) then Num32 v else Num64 v) p =
    JInt (if s then - int v else int v)"
  using assms sint_neg_of_nat [where 'a = 32, of v] sint_neg_of_nat [where 'a = 64, of v]
  by (cases s) (simp_all add: number_value_def)

lemma ParseNumber_dec:
  assumes "delim is" and "- (2 ^ 63) \<le> n" and "n < 2 ^ 64"
  shows "ParseNumber (dec_int n @ is) = Inr (JInt n, is)"
proof (cases "n = 0")
  case True
  have "dec 0 = ''0''" by code_simp
  then show ?thesis
    using True assms(1) by (simp add: ParseNumber_def dec_int_def parse_tail number_value_def)
next
  case False
  define s where "s \<longleftrightarrow> n < 0"
  let ?v = "nat \<bar>n\<bar>"
  obtain c ds where d: "dec ?v = c # ds" "c \<noteq> CHR ''0''" "0 < digit_value c"
    using dec_head [of ?v] False by auto
  have digits: "is_digit c" "\<forall>c \<in> set ds. is_digit c" using dec_digits [of ?v] d(1) by auto
  have val: "digits_value (digit_value c) ds = ?v" using dec_value [of ?v] d(1) by simp
  have le: "?v \<le> (if s then 9223372036854775808 else 18446744073709551615)"
    using assms(2,3) by (auto simp: s_def)
  obtain k where k: "parse_digits s (digit_value c) (ds @ is) =
      Some (if ?v \<le> (if s then 2147483648 else 4294967295) then Num32 ?v else Num64 ?v, k, is)"
    using parse_digits_dec [of ds "is" "digit_value c" s] digits(2) assms(1)
      digit_value_bound [OF digits(1)] le val by (auto simp: delim_def)
  have c: "c \<noteq> CHR ''-''" using digits(1) by (auto simp: is_digit_def)
  have str: "dec_int n @ is = (if s then CHR ''-'' # c # ds @ is else c # ds @ is)"
    using d(1) by (auto simp: dec_int_def s_def abs_if)
  have "ParseNumber (dec_int n @ is) = Inr (number_value s
      (if ?v \<le> (if s then 2147483648 else 4294967295) then Num32 ?v else Num64 ?v) 0, is)"
    unfolding str
    using c d(2) digits(1) k assms(1) by (cases s) (simp_all add: ParseNumber_def parse_tail)
  also have "\<dots> = Inr (JInt (if s then - int ?v else int ?v), is)"
    by (simp only: number_value_fits [OF le])
  also have "(if s then - int ?v else int ?v) = n" by (simp add: s_def)
  finally show ?thesis .
qed

subsection \<open>Values\<close>

definition value_start :: "char \<Rightarrow> bool" where
  "value_start c \<longleftrightarrow> c \<notin> {CHR '' '', CHR 0x0A, CHR 0x0D, CHR 0x09, CHR '']'', CHR ''}'', CHR 0x00}"

lemma number_start:
  assumes "is_digit c \<or> c = CHR ''-''"
  shows "value_start c" and "c \<notin> {CHR ''n'', CHR ''t'', CHR ''f'', CHR 0x22, CHR ''{'', CHR ''[''}"
  using assms by (auto simp: is_digit_def value_start_def)

lemma dec_int_start: "\<exists>c cs. dec_int n = c # cs \<and> (is_digit c \<or> c = CHR ''-'')"
proof -
  obtain c cs where "dec (nat n) = c # cs" by (cases "dec (nat n)") (auto simp: dec.simps [of "nat n"] split: if_splits)
  moreover from this have "is_digit c" using dec_digits [of "nat n"] by simp
  ultimately show ?thesis by (auto simp: dec_int_def)
qed

lemma print_start: "printable v \<Longrightarrow> \<exists>c cs. print_json v = c # cs \<and> value_start c"
  using dec_int_start number_start(1)
  by (cases v) (fastforce simp: WriteString_def value_start_def)+

lemma SkipWhitespace_start: "value_start c \<Longrightarrow> SkipWhitespace (c # is) = c # is"
  by (simp add: value_start_def)

lemma SkipWhitespace_print: "printable v \<Longrightarrow> SkipWhitespace (print_json v @ is) = print_json v @ is"
  using print_start [of v] by (auto simp: value_start_def)

lemma SkipWhitespace_WriteString: "SkipWhitespace (WriteString k @ is) = WriteString k @ is"
  by (simp add: WriteString_def)

lemma Peek_WriteString [simp]: "Peek (WriteString k @ is) = CHR 0x22"
  by (simp add: WriteString_def)

lemma delim_separators [simp]: "delim (CHR '','' # is)" "delim (CHR '']'' # is)" "delim (CHR ''}'' # is)"
  by (simp_all add: delim_def is_digit_def)

lemma consume_word_append: "consume_word cs (cs @ is) = (True, is)"
  by (induction cs) simp_all

lemma ParseValue_number:
  assumes "is_digit c \<or> c = CHR ''-''"
  shows "ParseValue (Suc n) (c # is) = Some (ParseNumber (c # is))"
  using number_start(2) [OF assms] by (simp add: Let_def)

lemma print_elements_start:
  assumes "vs \<noteq> []" and "\<forall>v \<in> set vs. printable v"
  shows "SkipWhitespace (print_elements vs @ is) = print_elements vs @ is"
    and "Peek (print_elements vs @ is) \<noteq> CHR '']''"
  using assms print_start [of "hd vs"] SkipWhitespace_print [of "hd vs"]
  by (cases vs; auto simp: value_start_def)+

lemma print_members_start:
  assumes "ms \<noteq> []"
  shows "SkipWhitespace (print_members ms @ is) = print_members ms @ is"
    and "Peek (print_members ms @ is) = CHR 0x22"
  using assms by (cases ms; auto simp: SkipWhitespace_WriteString)+

lemma ParseValue_print:
  "printable v \<Longrightarrow> delim is \<Longrightarrow> 3 * length (print_json v) + 3 \<le> n \<Longrightarrow>
     ParseValue n (print_json v @ is) = Some (Inr (v, is))"
  "vs \<noteq> [] \<Longrightarrow> \<forall>v \<in> set vs. printable v \<Longrightarrow> 3 * length (print_elements vs) + 4 \<le> n \<Longrightarrow>
     ParseElements n (print_elements vs @ CHR '']'' # is) = Some (Inr (vs, is))"
  "ms \<noteq> [] \<Longrightarrow> printable_members ms \<Longrightarrow> 3 * length (print_members ms) + 4 \<le> n \<Longrightarrow>
     ParseMembers n (print_members ms @ CHR ''}'' # is) = Some (Inr (ms, is))"
proof (induction v and vs and ms arbitrary: n "is" and n "is" and n "is"
    rule: print_json_print_elements_print_members.induct)
  case 1
  then show ?case using consume_word_append [of "''ull''"]
    by (cases n) (simp_all add: ParseNull_def parse_literal_def)
next
  case (2 b)
  then show ?case using consume_word_append [of "''rue''"] consume_word_append [of "''alse''"]
    by (cases n) (simp_all add: ParseTrue_def ParseFalse_def parse_literal_def)
next
  case (3 i)
  obtain m where n: "n = Suc m" using "3.prems" by (cases n) simp_all
  obtain c cs where c: "dec_int i = c # cs" "is_digit c \<or> c = CHR ''-''" using dec_int_start by blast
  have "ParseNumber (dec_int i @ is) = Inr (JInt i, is)" using "3.prems" by (intro ParseNumber_dec) simp_all
  then show ?case using ParseValue_number [OF c(2), of m "cs @ is"] by (simp add: c(1) n)
next
  case (5 s)
  then show ?case by (cases n) (simp_all add: ParseString_write)
next
  case (6 vs)
  then obtain m where n: "n = Suc (Suc m)" by (cases n; cases "n - 1") simp_all
  show ?case
  proof (cases "vs = []")
    case True
    then show ?thesis by (simp add: n)
  next
    case False
    then have "ParseElements m (print_elements vs @ CHR '']'' # is) = Some (Inr (vs, is))"
      using "6.IH" "6.prems" n by simp
    then show ?thesis using False "6.prems" print_elements_start [of vs "CHR '']'' # is"]
      by (simp add: n Let_def)
  qed
next
  case (7 ms)
  then obtain m where n: "n = Suc (Suc m)" by (cases n; cases "n - 1") simp_all
  show ?case
  proof (cases "ms = []")
    case True
    then show ?thesis by (simp add: n)
  next
    case False
    then have "ParseMembers m (print_members ms @ CHR ''}'' # is) = Some (Inr (ms, is))"
      using "7.IH" "7.prems" n by simp
    then show ?thesis using False print_members_start [of ms "CHR ''}'' # is"]
      by (simp add: n Let_def)
  qed
next
  case (9 v vs)
  then obtain m where n: "n = Suc m" by (cases n) auto
  have p: "print_json v \<noteq> []" using print_start [of v] "9.prems" by auto
  show ?case
  proof (cases "vs = []")
    case True
    then have "ParseValue m (print_json v @ CHR '']'' # is) = Some (Inr (v, CHR '']'' # is))"
      using "9.IH"(1) "9.prems" n by simp
    then show ?thesis using True n by simp
  next
    case False
    have v: "ParseValue m (print_json v @ CHR '','' # print_elements vs @ CHR '']'' # is) =
        Some (Inr (v, CHR '','' # print_elements vs @ CHR '']'' # is))"
      using "9.IH"(1) "9.prems" n False by simp
    have "ParseElements m (print_elements vs @ CHR '']'' # is) = Some (Inr (vs, is))"
      using "9.IH"(2) "9.prems" n False by simp
    then show ?thesis
      using False v n "9.prems" print_elements_start(1) [of vs "CHR '']'' # is"] by simp
  qed
next
  case (11 k v ms)
  then obtain m where n: "n = Suc m" by (cases n) auto
  show ?case
  proof (cases "ms = []")
    case True
    then have "ParseValue m (print_json v @ CHR ''}'' # is) = Some (Inr (v, CHR ''}'' # is))"
      using "11.IH"(1) "11.prems" n by simp
    then show ?thesis using True n "11.prems" SkipWhitespace_print [of v]
      by (simp add: ParseString_write Let_def)
  next
    case False
    have v: "ParseValue m (print_json v @ CHR '','' # print_members ms @ CHR ''}'' # is) =
        Some (Inr (v, CHR '','' # print_members ms @ CHR ''}'' # is))"
      using "11.IH"(1) "11.prems" n False by simp
    have "ParseMembers m (print_members ms @ CHR ''}'' # is) = Some (Inr (ms, is))"
      using "11.IH"(2) "11.prems" n False by simp
    then show ?thesis
      using False v n "11.prems" SkipWhitespace_print [of v] print_members_start(1) [of ms "CHR ''}'' # is"]
      by (simp add: ParseString_write Let_def)
  qed
qed simp_all

text \<open>Parsing what the writer prints, followed by white space, returns the value.\<close>

lemma document_Parse_print:
  assumes "printable v" and "SkipWhitespace ws = []"
  shows "document_Parse (print_json v @ ws) = Some (Inr v)"
proof -
  have "delim ws" using assms(2) by (cases ws) (auto simp: delim_def is_digit_def Peek_def split: if_splits)
  then have "ParseValue (parse_fuel (print_json v @ ws)) (print_json v @ ws) = Some (Inr (v, ws))"
    using assms(1) by (intro ParseValue_print) (simp_all add: parse_fuel_def)
  moreover have "Peek (print_json v @ ws) \<noteq> CHR 0x00"
    using print_start [OF assms(1)] by (auto simp: value_start_def)
  ultimately show ?thesis
    using assms SkipWhitespace_print [OF assms(1)]
    by (simp add: document_Parse_def parse_text_def Peek_def)
qed

text \<open>No control character is printed: a printed value is one line and one C string.\<close>

definition plain_char :: "char \<Rightarrow> bool" where
  "plain_char c \<longleftrightarrow> 32 \<le> (of_char c :: nat)"

lemma plain_hexDigits: "k < 16 \<Longrightarrow> plain_char (hexDigits ! k)"
proof -
  have "list_all (\<lambda>k. plain_char (hexDigits ! k)) [0..<16]" by code_simp
  then show "k < 16 \<Longrightarrow> plain_char (hexDigits ! k)" by (simp add: list_all_iff)
qed

lemma plain_write_char: "c' \<in> set (write_char c) \<Longrightarrow> plain_char c'"
proof (cases "write_escape c")
  case None
  assume "c' \<in> set (write_char c)"
  then show ?thesis using None
    by (auto simp: write_char_def plain_char_def write_escape_def split: if_splits)
next
  case (Some e)
  assume a: "c' \<in> set (write_char c)"
  have e: "plain_char e" using Some by (auto simp: write_escape_def plain_char_def split: if_splits)
  have "(of_char c :: nat) < 16 * 16" by (simp add: of_char_def horner_sum_bound)
  then have "(of_char c :: nat) div 16 < 16" by (rule less_mult_imp_div_less)
  then have "plain_char (hexDigits ! (of_char c div 16))" "plain_char (hexDigits ! (of_char c mod 16))"
    by (simp_all add: plain_hexDigits)
  moreover have "plain_char (CHR 0x5C)" "plain_char (CHR ''0'')" by (simp_all add: plain_char_def)
  ultimately show ?thesis using a Some e by (auto simp: write_char_def split: if_splits)
qed

lemma plain_WriteString: "c \<in> set (WriteString s) \<Longrightarrow> plain_char c"
proof -
  have "c \<in> set (write_chars s) \<Longrightarrow> plain_char c" for c
    by (induction s) (auto dest: plain_write_char)
  then show "c \<in> set (WriteString s) \<Longrightarrow> plain_char c"
    by (auto simp: WriteString_def) (simp_all add: plain_char_def)
qed

lemma plain_dec_int: "c \<in> set (dec_int n) \<Longrightarrow> plain_char c"
  using dec_digits by (fastforce simp: dec_int_def plain_char_def is_digit_def split: if_splits)

lemma plain_print:
  "c \<in> set (print_json v) \<Longrightarrow> plain_char c"
  "c \<in> set (print_elements vs) \<Longrightarrow> plain_char c"
  "c \<in> set (print_members ms) \<Longrightarrow> plain_char c"
  by (induction v and vs and ms rule: print_json_print_elements_print_members.induct)
    (auto simp: plain_char_def [of "char.Char _ _ _ _ _ _ _ _"] dest: plain_WriteString plain_dec_int split: if_splits)

end
