(* ===== verification/Handlers.thy ===== *)
theory Handlers
  imports Db_Query Json_Roundtrip
begin

text \<open>
  handler.cpp: the handlers of the five requests. A handler runs to its end on
  one thread; what it hands to the io thread (\<open>io_service.post\<close>) is the list of
  actions of the posted closure, in order, all on the session it was called for.
  It returns them with the database after it, and the selected namespace where it
  changes it. \<open>crypto_hash_sha256\<close> belongs to libsodium and is the parameter
  \<open>sha256\<close>, \<open>None\<close> being its failure; the outcomes of the calls that may fail are
  the schedule \<open>faults\<close>.
\<close>

subsection \<open>Requests and responses\<close>

definition EOL :: string where "EOL = [CHR 0x0D, CHR 0x0A]"
definition ACK_OK :: string where "ACK_OK = ''0'' @ EOL"
definition ACK_ERR :: string where "ACK_ERR = ''1'' @ EOL"

datatype io_action =
    Write bytes
  | ReadRequest
  | Leave namespace_t
  | Publish namespace_t bytes

text \<open>\<open>session::argument\<close>: the C string after the first character of the line.\<close>

definition argument :: "bytes \<Rightarrow> bytes" where
  "argument arg = takeWhile (\<lambda>c. c \<noteq> CHR 0x00) (tl arg)"

definition parse_argument :: "bytes \<Rightarrow> json option" where
  "parse_argument arg =
     (case document_Parse (argument arg) of Some (Inr v) \<Rightarrow> Some v | _ \<Rightarrow> None)"

text \<open>\<open>PERROR\<close>: the closure that reports an error and goes on with the next request.\<close>

definition perror :: "io_action list" where
  "perror = [Write ACK_ERR, ReadRequest]"

definition make_response :: "json \<Rightarrow> bytes" where
  "make_response res =
     (case write_json res of None \<Rightarrow> [] | Some s \<Rightarrow> takeWhile (\<lambda>c. c \<noteq> CHR 0x00) s) @ EOL"

subsection \<open>ping, namespace, select\<close>

definition handle_ping :: "bytes \<Rightarrow> io_action list" where
  "handle_ping arg = [Write (argument arg @ EOL)]"

definition handle_namespace :: "cenv \<Rightarrow> int list \<Rightarrow> bytes \<Rightarrow> cenv \<times> io_action list" where
  "handle_namespace env faults arg =
     (case parse_argument arg of
        None \<Rightarrow> (env, perror)
      | Some doc \<Rightarrow>
          if \<not> IsInt64 doc then (env, perror)
          else
            (let (rc, txn) = mdb_txn_begin env faults in
             if rc \<noteq> 0 then (env, perror)
             else
               (let (_, txn) = db_setup txn (ucast (GetInt64 doc));
                    (rc, env') = mdb_txn_commit env txn
                in if rc \<noteq> 0 then (env', perror) else (env', [Write ACK_OK, ReadRequest]))))"

text \<open>Renewing the reader's transaction gives it the current state of the database.\<close>

definition mdb_txn_renew :: "'k env \<Rightarrow> int list \<Rightarrow> int \<times> 'k txn" where
  "mdb_txn_renew env faults = mdb_txn_begin env faults"

definition handle_select ::
  "cenv \<Rightarrow> int list \<Rightarrow> bytes \<Rightarrow> namespace_t \<Rightarrow> namespace_t \<times> io_action list" where
  "handle_select env faults arg selected =
     (case parse_argument arg of
        None \<Rightarrow> (selected, perror)
      | Some doc \<Rightarrow>
          if \<not> IsInt64 doc then (selected, perror)
          else
            (let (rc, txn) = mdb_txn_renew env faults in
             if rc \<noteq> 0 then (selected, perror)
             else
               (let ns = ucast (GetInt64 doc) in
                if exists_ns txn ns then (ns, [Leave ns, Write ACK_OK, ReadRequest])
                else (selected, perror))))"

subsection \<open>facts\<close>

record facts_st =
  fs_facts :: "json list"
  fs_current :: current
  fs_last_e :: entity_t
  fs_last_a :: attribute_t

definition cell_json :: "entity_t \<Rightarrow> attribute_t \<Rightarrow> cell \<Rightarrow> json" where
  "cell_json e a c =
     (case c of (is_str, i, s, t) \<Rightarrow>
        JArray [JInt (sint e), JInt (sint a), if is_str then JString s else JInt (sint i),
          JInt (sint t), JBool False])"

definition facts_write_batch :: "facts_st \<Rightarrow> facts_st" where
  "facts_write_batch st =
     st\<lparr>fs_facts := fs_facts st @
         map (\<lambda>(_, c). cell_json (fs_last_e st) (fs_last_a st) c) (fs_current st),
       fs_current := []\<rparr>"

definition facts_visitor ::
  "namespace_t \<Rightarrow> transaction_t \<Rightarrow> entity_t list \<Rightarrow> facts_st visitor" where
  "facts_visitor ns tx many k d st =
     (if ck_ns k \<noteq> ns \<or> ck_sort k \<noteq> SORT_EATV then (True, st)
      else if sint tx < sint (ck_t k) then (False, st)
      else
        (let st = (if ck_e k \<noteq> fs_last_e st \<or> ck_a k \<noteq> fs_last_a st
                   then facts_write_batch st else st);
             st = (if ck_a k \<notin> set many then st\<lparr>fs_current := []\<rparr> else st)
         in (False, st\<lparr>fs_current := step_current k d (fs_current st),
               fs_last_e := ck_e k, fs_last_a := ck_a k\<rparr>)))"

definition facts_response :: "transaction_t \<Rightarrow> json list \<Rightarrow> json" where
  "facts_response tx facts =
     AddMember (AddMember (AddMember (JObject []) ''type'' (JString ''response''))
       ''tx'' (JInt (sint tx))) ''facts'' (JArray facts)"

definition handle_facts :: "cenv \<Rightarrow> int list \<Rightarrow> bytes \<Rightarrow> namespace_t \<Rightarrow> io_action list" where
  "handle_facts env faults arg ns =
     (case parse_argument arg of
        None \<Rightarrow> perror
      | Some doc \<Rightarrow>
          if \<not> IsInt64 doc then perror
          else
            (let (rc, txn) = mdb_txn_renew env faults in
             if rc \<noteq> 0 then perror
             else
               (case (if sint (GetInt64 doc) < 0 then get_meta txn ns META_TX
                      else Some (GetInt64 doc)) of
                  None \<Rightarrow> perror
                | Some tx \<Rightarrow>
                    (let (rc, txn) = mdb_cursor_open txn in
                     if rc \<noteq> 0 then perror
                     else
                       (let min_key = zero_key\<lparr>ck_ns := ns, ck_type := KEY_MIN_SENTINEL,
                              ck_sort := SORT_EATV\<rparr>
                        in case mdb_cursor_get cmp txn None min_key MDB_SET_RANGE of
                             Inl rc \<Rightarrow> perror
                           | Inr (i, k, d) \<Rightarrow>
                               (let (txn, cards) = query_a txn ns tx db_cardinality;
                                    many = map d_e (filter (\<lambda>x. d_v x = db_cardinality_many) cards);
                                    st = query_loop txn (facts_visitor ns (push_bit 1 tx + 1) many) i k d
                                      \<lparr>fs_facts = [], fs_current = [], fs_last_e = -1, fs_last_a = -1\<rparr>;
                                    st = facts_write_batch st
                                in [Write (make_response (facts_response tx (fs_facts st))),
                                    ReadRequest]))))))"

subsection \<open>transact\<close>

text \<open>
  The variables of \<open>handle_transact\<close> that the loop over the facts changes: the
  transaction, the next entity id, the ids given to temporary ids (in the order
  they were given), and the facts of the response.
\<close>

record transact_st =
  tr_txn :: ctxn
  tr_id :: entity_t
  tr_new_ids :: "(entity_t \<times> entity_t) list"
  tr_facts :: "json list"

text \<open>The entity of a temporary id: the one it was given before, or the next id.\<close>

definition resolve_tempid :: "entity_t \<Rightarrow> transact_st \<Rightarrow> entity_t \<times> transact_st" where
  "resolve_tempid e st =
     (case map_of (tr_new_ids st) e of
        Some x \<Rightarrow> (x, st)
      | None \<Rightarrow>
          (tr_id st,
           st\<lparr>tr_new_ids := tr_new_ids st @ [(e, tr_id st)], tr_id := tr_id st + 1\<rparr>))"

text \<open>The entity of a fact; \<open>None\<close> for an invalid one.\<close>

definition fact_entity :: "json \<Rightarrow> transact_st \<Rightarrow> (entity_t \<times> transact_st) option" where
  "fact_entity x st =
     (if \<not> IsInt64 x then None
      else
        (let e = GetInt64 x in
         if sint e < 0 then Some (resolve_tempid e st)
         else if sint e < sint db_initial_id then None
         else Some (e, st)))"

text \<open>
  The value of a fact: the key with its value fields, the data of the put, and the
  value of the response. \<open>None\<close> is the failure of the hash; a value that is
  neither an integer nor a string (\<open>Skip\<close>) makes the loop skip the fact.
\<close>

datatype fact_value = Skip | FactValue custom_key bytes json

definition string_value :: "(bytes \<Rightarrow> bytes option) \<Rightarrow> custom_key \<Rightarrow> bytes \<Rightarrow> fact_value option" where
  "string_value sha256 ck v =
     (let vlen = length v; ck = ck\<lparr>ck_type := KEY_BLOB\<rparr> in
      if vlen > 32 then
        (case sha256 v of
           None \<Rightarrow> None
         | Some h \<Rightarrow>
             Some (FactValue (ck\<lparr>ck_v := h,
                 ck_pad := (if vlen mod 8 = 0 then 0 else - (8 - of_nat (vlen mod 8)))\<rparr>) v (JString v)))
      else
        Some (FactValue (ck\<lparr>ck_v := v @ drop vlen (ck_v ck), ck_pad := of_nat (vlen + 1)\<rparr>) []
          (JString v)))"

definition fact_val ::
  "(bytes \<Rightarrow> bytes option) \<Rightarrow> entity_t list \<Rightarrow> custom_key \<Rightarrow> attribute_t \<Rightarrow> json \<Rightarrow> transact_st \<Rightarrow>
     (fact_value \<times> transact_st) option" where
  "fact_val sha256 e_ref ck a x st =
     (if IsInt64 x then
        (let v = GetInt64 x;
             (v, st) = (if a \<in> set e_ref \<and> sint v < 0 then resolve_tempid v st else (v, st))
         in Some (FactValue (ck\<lparr>ck_type := KEY_INTEGER, ck_v := set_v_i v (ck_v ck)\<rparr>) []
              (JInt (sint v)), st))
      else if IsString x then
        (case string_value sha256 ck (GetString x) of
           None \<Rightarrow> None
         | Some fv \<Rightarrow> Some (fv, st))
      else Some (Skip, st))"

definition unique_key :: "namespace_t \<Rightarrow> custom_key \<Rightarrow> custom_key" where
  "unique_key ns ck =
     ck\<lparr>ck_ns := ns, ck_type := KEY_UNIQUE, ck_sort := 0, ck_pad := 0, ck_e := 0, ck_t := 0\<rparr>"

text \<open>
  The unique index for a fact of a unique attribute; \<open>None\<close> when the transaction
  is to be given up.
\<close>

definition check_unique ::
  "namespace_t \<Rightarrow> custom_key \<Rightarrow> entity_t \<Rightarrow> bool \<Rightarrow> ctxn \<Rightarrow> ctxn option" where
  "check_unique ns ck e retract txn =
     (let uk = unique_key ns ck in
      if retract then
        (let (rc, txn) = mdb_del cmp txn uk in if rc \<noteq> 0 then None else Some txn)
      else
        (case (case mdb_get cmp txn uk of
                 Inr tmp \<Rightarrow> if bytes_i64 tmp \<noteq> e then None else Some txn
               | Inl _ \<Rightarrow>
                   (let (failed, txn, lst) = last_datom txn ck in
                    if failed then Some txn
                    else
                      (let (rc, txn) = mdb_del cmp txn (unique_key ns lst) in
                       if rc \<noteq> 0 then None else Some txn))) of
           None \<Rightarrow> None
         | Some txn \<Rightarrow>
             (let (rc, txn) = mdb_put cmp txn uk (i64_bytes e) 0 in
              if rc \<noteq> 0 then None else Some txn)))"

text \<open>The puts of a fact: in the \<open>EATV\<close> index, and in \<open>AETV\<close> for a schema attribute.\<close>

definition insert_fact :: "custom_key \<Rightarrow> bytes \<Rightarrow> ctxn \<Rightarrow> ctxn option" where
  "insert_fact ck val txn =
     (let (rc, txn) = cursor_put_padded txn (ck\<lparr>ck_sort := SORT_EATV\<rparr>) val in
      if rc \<noteq> 0 then None
      else if sint (ck_a ck) < sint db_initial_id then
        (let (rc, txn) = cursor_put_padded txn (ck\<lparr>ck_sort := SORT_AETV\<rparr>) val in
         if rc \<noteq> 0 then None else Some txn)
      else Some txn)"

text \<open>The part of the loop's body once the entity, attribute and value are known.\<close>

definition store_fact ::
  "entity_t list \<Rightarrow> namespace_t \<Rightarrow> transaction_t \<Rightarrow> entity_t \<Rightarrow> attribute_t \<Rightarrow> bool \<Rightarrow>
     custom_key \<Rightarrow> bytes \<Rightarrow> json \<Rightarrow> transact_st \<Rightarrow> transact_st option" where
  "store_fact e_unique ns tx e a retract ck val jv st =
     (let ck = ck\<lparr>ck_e := e, ck_a := a\<rparr> in
      case (if a \<in> set e_unique then check_unique ns ck e retract (tr_txn st)
            else Some (tr_txn st)) of
        None \<Rightarrow> None
      | Some txn \<Rightarrow>
          (case insert_fact (ck\<lparr>ck_t := push_bit 1 tx + (if retract then 1 else 0)\<rparr>) val txn of
             None \<Rightarrow> None
           | Some txn \<Rightarrow>
               Some (st\<lparr>tr_txn := txn,
                 tr_facts := tr_facts st @
                   [JArray [JInt (sint e), JInt (sint a), jv, JInt (sint tx), JBool retract]]\<rparr>)))"

text \<open>The loop's body; \<open>None\<close> is its jump to \<open>err_cur\<close>.\<close>

definition transact_fact ::
  "(bytes \<Rightarrow> bytes option) \<Rightarrow> entity_t list \<Rightarrow> entity_t list \<Rightarrow> namespace_t \<Rightarrow> transaction_t \<Rightarrow>
     json \<Rightarrow> transact_st \<Rightarrow> transact_st option" where
  "transact_fact sha256 e_unique e_ref ns tx v st =
     (let eav = GetArray v in
      if \<not> IsArray v \<or> length eav \<noteq> 4 \<or> \<not> IsInt64 (eav ! 1) then None
      else
        (let a = GetInt64 (eav ! 1) in
         case fact_entity (eav ! 0) st of
           None \<Rightarrow> None
         | Some (e, st) \<Rightarrow>
             (case fact_val sha256 e_ref (zero_key\<lparr>ck_ns := ns\<rparr>) a (eav ! 2) st of
                None \<Rightarrow> None
              | Some (Skip, st) \<Rightarrow> Some st
              | Some (FactValue ck val jv, st) \<Rightarrow>
                  store_fact e_unique ns tx e a
                    (IsInt64 (eav ! 3) \<and> GetInt64 (eav ! 3) \<noteq> 0) ck val jv st)))"

fun transact_facts ::
  "(bytes \<Rightarrow> bytes option) \<Rightarrow> entity_t list \<Rightarrow> entity_t list \<Rightarrow> namespace_t \<Rightarrow> transaction_t \<Rightarrow>
     json list \<Rightarrow> transact_st \<Rightarrow> transact_st option" where
  "transact_facts sha256 e_unique e_ref ns tx [] st = Some st"
| "transact_facts sha256 e_unique e_ref ns tx (v # vs) st =
     (case transact_fact sha256 e_unique e_ref ns tx v st of
        None \<Rightarrow> None
      | Some st \<Rightarrow> transact_facts sha256 e_unique e_ref ns tx vs st)"

definition transact_response :: "transaction_t \<Rightarrow> transact_st \<Rightarrow> json" where
  "transact_response tx st =
     AddMember (AddMember (AddMember (AddMember (JObject []) ''type'' (JString ''response''))
       ''tx'' (JInt (sint tx))) ''facts'' (JArray (tr_facts st)))
       ''new_ids'' (JArray (map (\<lambda>(t, e). JArray [JInt (sint t), JInt (sint e)]) (tr_new_ids st)))"

definition transact_event :: "json \<Rightarrow> json" where
  "transact_event res =
     AddMember (RemoveMember (RemoveMember res ''new_ids'') ''type'') ''type'' (JString ''event'')"

text \<open>
  What \<open>handle_transact\<close> does within its transaction: \<open>None\<close> is one of the jumps
  that abort it; otherwise the id of the transaction and the state to commit.
\<close>

definition transact_body ::
  "(bytes \<Rightarrow> bytes option) \<Rightarrow> namespace_t \<Rightarrow> json list \<Rightarrow> ctxn \<Rightarrow> (transaction_t \<times> transact_st) option" where
  "transact_body sha256 ns facts txn =
     (case get_meta txn ns META_TX of
        None \<Rightarrow> None
      | Some tx \<Rightarrow>
          (case get_meta txn ns META_ID of
             None \<Rightarrow> None
           | Some nid \<Rightarrow>
               (let (txn, uniques) = query_a txn ns tx db_unique;
                    e_unique = map d_e (filter (\<lambda>d. d_v d = db_unique_yes) uniques);
                    (txn, cards) = query_a txn ns tx db_cardinality;
                    (txn, types) = query_a txn ns tx db_type;
                    e_ref = map d_e types;
                    (rc, txn) = mdb_cursor_open txn
                in if rc \<noteq> 0 then None
                   else
                     (case transact_facts sha256 e_unique e_ref ns tx facts
                             \<lparr>tr_txn = txn, tr_id = nid, tr_new_ids = [], tr_facts = []\<rparr> of
                        None \<Rightarrow> None
                      | Some st \<Rightarrow>
                          (let (failed, txn) = put_meta (tr_txn st) ns META_TX (tx + 1) in
                           if failed then None
                           else
                             (let (failed, txn) = put_meta txn ns META_ID (tr_id st) in
                              if failed then None else Some (tx, st\<lparr>tr_txn := txn\<rparr>)))))))"

definition handle_transact ::
  "(bytes \<Rightarrow> bytes option) \<Rightarrow> cenv \<Rightarrow> int list \<Rightarrow> bytes \<Rightarrow> namespace_t \<Rightarrow> cenv \<times> io_action list" where
  "handle_transact sha256 env faults arg ns =
     (case parse_argument arg of
        None \<Rightarrow> (env, perror)
      | Some doc \<Rightarrow>
          if \<not> IsArray doc \<or> GetArray doc = [] then (env, perror)
          else
            (let (rc, txn) = mdb_txn_begin env faults in
             if rc \<noteq> 0 then (env, perror)
             else
               (case transact_body sha256 ns (GetArray doc) txn of
                  None \<Rightarrow> (mdb_txn_abort env txn, perror)
                | Some (tx, st) \<Rightarrow>
                    (let (rc, env') = mdb_txn_commit env (tr_txn st) in
                     if rc \<noteq> 0 then (mdb_txn_abort env' (tr_txn st), perror)
                     else
                       (let res = transact_response tx st in
                        (env', [Write (make_response res),
                          Publish ns (make_response (transact_event res)), ReadRequest]))))))"

end
