(* ===== verification/Facts.thy ===== *)
theory Facts
  imports Handlers
begin

text \<open>
  What a facts request answers. The response holds, for every entity and
  attribute, the values whose last event up to the asked transaction is an
  assertion; for an attribute that is not of cardinality many, the last event of
  the entity and attribute alone decides.
\<close>

subsection \<open>The log a facts request reads\<close>

definition in_EATV :: "namespace_t \<Rightarrow> entry \<Rightarrow> bool" where
  "in_EATV ns x \<longleftrightarrow> ck_ns (fst x) = ns \<and> \<not> ck_type (fst x) < KEY_MIN_SENTINEL \<and>
     ck_sort (fst x) = SORT_EATV"

definition facts_log :: "custom_key tree \<Rightarrow> namespace_t \<Rightarrow> transaction_t \<Rightarrow> entry list" where
  "facts_log t ns tx =
     filter (\<lambda>x. in_EATV ns x \<and> sint (ck_t (fst x)) \<le> sint (push_bit 1 tx + 1)) t"

definition ea_of :: "entry \<Rightarrow> entity_t \<times> attribute_t" where
  "ea_of x = (ck_e (fst x), ck_a (fst x))"

definition step_fact :: "entity_t list \<Rightarrow> entry \<Rightarrow> current \<Rightarrow> current" where
  "step_fact many x cur = step_entry x (if ck_a (fst x) \<notin> set many then [] else cur)"

definition emit_facts :: "entity_t \<times> attribute_t \<Rightarrow> current \<Rightarrow> json list" where
  "emit_facts ea cur = map (\<lambda>(_, c). cell_json (fst ea) (snd ea) c) cur"

text \<open>The facts of the response, one batch per entity and attribute.\<close>

definition facts_at :: "custom_key tree \<Rightarrow> namespace_t \<Rightarrow> transaction_t \<Rightarrow> entity_t list \<Rightarrow> json list" where
  "facts_at t ns tx many = batch_result ea_of (step_fact many) emit_facts (facts_log t ns tx)"

definition facts_min :: "namespace_t \<Rightarrow> custom_key" where
  "facts_min ns = zero_key\<lparr>ck_ns := ns, ck_type := KEY_MIN_SENTINEL, ck_sort := SORT_EATV\<rparr>"

lemma facts_min_ok: "ns_ok ns \<Longrightarrow> key_ok (facts_min ns)"
  by (simp add: facts_min_def key_ok_def zero_key_def ns_ok_def)

lemma facts_min_rank: "key_rank (facts_min ns) = [uint ns, 3, 180] @ [0, 0, 0, 3]"
proof -
  have "key_rank (facts_min ns) = uint (ck_ns (facts_min ns)) # 3 # 180 #
     sint (ck_e (facts_min ns)) # sint (ck_a (facts_min ns)) #
     sint (ck_t (facts_min ns)) # value_rank (facts_min ns)"
    by (rule rank_EATV) (simp_all add: facts_min_def)
  then show ?thesis by (simp add: facts_min_def zero_key_def value_rank_def)
qed

lemma in_EATV_rank:
  assumes "key_inv (fst x)"
  shows "in_EATV ns x \<longleftrightarrow> (\<exists>z. key_rank (fst x) = [uint ns, 3, 180] @ z)"
proof (cases "ck_type (fst x) < 3")
  case True
  then show ?thesis using rank_type_small [OF True] by (auto simp: in_EATV_def)
next
  case False
  then show ?thesis
    using assms
    by (auto simp: in_EATV_def key_inv_def rank_AETV rank_EATV)
qed

lemma in_EATV_ge:
  assumes "key_inv (fst x)" and "in_EATV ns x"
  shows "key_rank (facts_min ns) \<le> key_rank (fst x)"
  using assms by (auto simp: facts_min_rank rank_EATV in_EATV_def key_inv_def order_le_less)

lemma facts_guard:
  assumes "key_inv (fst x)" and "key_rank (facts_min ns) \<le> key_rank (fst x)"
  shows "(ck_ns (fst x) = ns \<and> ck_sort (fst x) = SORT_EATV) \<longleftrightarrow> in_EATV ns x"
proof (cases "ck_type (fst x) < 3")
  case True
  then obtain y z where "key_rank (fst x) = uint (ck_ns (fst x)) # y # z" "y < 3"
    using rank_type_small by blast
  then show ?thesis using assms(2) True by (auto simp: facts_min_rank in_EATV_def)
next
  case False
  then show ?thesis by (auto simp: in_EATV_def)
qed

subsection \<open>The loop as one batch per entity and attribute\<close>

definition facts_tuple :: "facts_st \<Rightarrow> json list \<times> current \<times> entity_t \<times> attribute_t" where
  "facts_tuple st = (fs_facts st, fs_current st, fs_last_e st, fs_last_a st)"

definition facts_step :: "transaction_t \<Rightarrow> entity_t list \<Rightarrow> facts_st \<Rightarrow> entry \<Rightarrow> facts_st" where
  "facts_step tx many st x =
     (if sint tx < sint (ck_t (fst x)) then st
      else snd (facts_visitor (ck_ns (fst x)) tx many ((fst x)\<lparr>ck_sort := SORT_EATV\<rparr>) (snd x) st))"

lemma step_entry_sort [simp]: "step_current (k\<lparr>ck_sort := s\<rparr>) d cur = step_current k d cur"
  by (simp add: step_current_def entry_cell_def)

lemma facts_step_tuple:
  "facts_tuple (facts_step tx many st x) =
     (if sint tx < sint (ck_t (fst x)) then facts_tuple st
      else batch_step ea_of (step_fact many) emit_facts (facts_tuple st) x)"
  by (auto simp: facts_step_def facts_visitor_def facts_tuple_def batch_step_def ea_of_def step_fact_def
      facts_write_batch_def emit_facts_def Let_def)

lemma facts_fold:
  "facts_tuple (foldl (facts_step tx many) st xs) =
     foldl (batch_step ea_of (step_fact many) emit_facts) (facts_tuple st)
       (filter (\<lambda>x. sint (ck_t (fst x)) \<le> sint tx) xs)"
  by (induction xs arbitrary: st) (auto simp: facts_step_tuple)

lemma facts_visit:
  "visit (facts_visitor ns tx many) es st =
     foldl (facts_step tx many) st
       (takeWhile (\<lambda>x. ck_ns (fst x) = ns \<and> ck_sort (fst x) = SORT_EATV) es)"
proof (rule visit_takeWhile)
  fix k :: custom_key and d :: bytes and s :: facts_st
  assume "ck_ns (fst (k, d)) = ns \<and> ck_sort (fst (k, d)) = SORT_EATV"
  moreover from this have "k\<lparr>ck_sort := SORT_EATV\<rparr> = k" by simp
  ultimately show "facts_visitor ns tx many k d s = (False, facts_step tx many s (k, d))"
    by (simp add: facts_step_def facts_visitor_def Let_def)
qed (auto simp: facts_visitor_def)

lemma facts_log_grouped:
  assumes "tree_inv t"
  shows "distinct (remdups_adj (map ea_of (facts_log t ns tx)))"
proof (rule distinct_remdups_adj_mono [where r = "\<lambda>(e, a). [sint e, sint a]"])
  have "sorted_wrt (\<lambda>x y. key_rank (fst x) < key_rank (fst y)) (facts_log t ns tx)"
    using assms unfolding facts_log_def tree_inv_def sorted_tree_def
    by (auto simp: sorted_wrt_map intro: sorted_wrt_filter)
  then show "sorted_wrt (\<lambda>x y. (case x of (e, a) \<Rightarrow> [sint e, sint a]) \<le> (case y of (e, a) \<Rightarrow> [sint e, sint a]))
      (map ea_of (facts_log t ns tx))"
    unfolding sorted_wrt_map
    by (rule sorted_wrt_mono_rel [rotated])
      (auto simp: facts_log_def in_EATV_def rank_EATV ea_of_def)
qed (auto simp: inj_on_def ea_of_def)

text \<open>The scan of a facts request over a sorted tree.\<close>

lemma facts_scan:
  assumes "tree_inv t" and "ns_ok ns"
  shows "fs_facts (facts_write_batch (visit (facts_visitor ns (push_bit 1 tx + 1) many)
      (drop (lower_bound key_rank t (facts_min ns)) t)
      \<lparr>fs_facts = [], fs_current = [], fs_last_e = -1, fs_last_a = -1\<rparr>)) = facts_at t ns tx many"
proof -
  let ?tx = "push_bit 1 tx + 1 :: i64"
  let ?st0 = "\<lparr>fs_facts = [], fs_current = [], fs_last_e = -1, fs_last_a = -1\<rparr> :: facts_st"
  have sorted: "sorted_tree key_rank key_ok t" and inv: "\<And>x. x \<in> set t \<Longrightarrow> key_inv (fst x)"
    using assms(1) by (auto simp: tree_inv_def)
  have "takeWhile (\<lambda>x. ck_ns (fst x) = ns \<and> ck_sort (fst x) = SORT_EATV)
      (drop (lower_bound key_rank t (facts_min ns)) t) = filter (in_EATV ns) t"
    by (rule scan_filter [OF sorted facts_min_rank])
      (use inv in_EATV_rank in_EATV_ge facts_guard in blast)+
  then have st: "visit (facts_visitor ns ?tx many) (drop (lower_bound key_rank t (facts_min ns)) t) ?st0 =
      foldl (facts_step ?tx many) ?st0 (filter (in_EATV ns) t)"
    by (simp only: facts_visit)
  define st where "st = foldl (facts_step ?tx many) ?st0 (filter (in_EATV ns) t)"
  have tup: "facts_tuple st = foldl (batch_step ea_of (step_fact many) emit_facts)
      ([], [], -1, -1) (facts_log t ns tx)"
    unfolding st_def facts_fold by (simp add: facts_tuple_def facts_log_def conj_commute)
  have "fs_facts st @ emit_facts (fs_last_e st, fs_last_a st) (fs_current st) = facts_at t ns tx many"
    unfolding facts_at_def
  proof (rule batch_run [OF facts_log_grouped [OF assms(1)]])
    show "emit_facts (-1, -1) [] = []" by (simp add: emit_facts_def)
    have "-1 \<notin> (\<lambda>x. ck_e (fst x)) ` set (facts_log t ns tx)"
      by (rule minus_one_notin) (use inv in \<open>fastforce simp: facts_log_def in_EATV_def key_inv_def\<close>)
    then show "(-1, -1) \<notin> ea_of ` set (facts_log t ns tx)" by (auto simp: ea_of_def)
    show "foldl (batch_step ea_of (step_fact many) emit_facts) ([], [], - 1, - 1) (facts_log t ns tx) =
        (fs_facts st, fs_current st, fs_last_e st, fs_last_a st)"
      using tup by (simp add: facts_tuple_def)
  qed
  then show ?thesis
    unfolding st st_def [symmetric] by (simp add: facts_write_batch_def emit_facts_def)
qed

subsection \<open>The facts of the response\<close>

text \<open>Two events are on the same slot when the later one replaces the earlier one.\<close>

definition same_slot :: "entity_t list \<Rightarrow> custom_key \<Rightarrow> custom_key \<Rightarrow> bool" where
  "same_slot many k k' \<longleftrightarrow> ck_e k = ck_e k' \<and> ck_a k = ck_a k' \<and>
     (ck_a k \<in> set many \<longrightarrow> ck_v k = ck_v k')"

lemma foldl_step_fact_many:
  "\<forall>x \<in> set evs. ck_a (fst x) \<in> set many \<Longrightarrow>
     foldl (\<lambda>cur x. step_fact many x cur) cur evs = foldl (\<lambda>cur x. step_entry x cur) cur evs"
  by (induction evs arbitrary: cur) (simp_all add: step_fact_def)

lemma foldl_step_fact_one:
  "\<forall>x \<in> set evs. ck_a (fst x) \<notin> set many \<Longrightarrow> evs \<noteq> [] \<Longrightarrow>
     foldl (\<lambda>cur x. step_fact many x cur) cur evs = step_entry (last evs) []"
  by (induction evs arbitrary: cur rule: rev_induct) (simp_all add: step_fact_def)

lemma group_of_facts:
  fixes log :: "entry list"
  defines "evs e a \<equiv> filter (\<lambda>x. ea_of x = (e, a)) log"
  shows "(vb, c) \<in> set (group_of ea_of (step_fact many) log (e, a)) \<longleftrightarrow>
    (\<exists>k d. find_last (\<lambda>x. ea_of x = (e, a) \<and> (a \<in> set many \<longrightarrow> ck_v (fst x) = vb)) log = Some (k, d) \<and>
       is_assert k \<and> ck_v k = vb \<and> c = entry_cell k d)"
proof (cases "a \<in> set many")
  case True
  then have "\<forall>x \<in> set (evs e a). ck_a (fst x) \<in> set many" by (auto simp: evs_def ea_of_def)
  then have "group_of ea_of (step_fact many) log (e, a) = foldl (\<lambda>cur x. step_entry x cur) [] (evs e a)"
    by (simp add: group_of_def evs_def foldl_step_fact_many)
  then show ?thesis
    using True find_last_Some by (fastforce simp: set_foldl_step_entry evs_def live_cell_of_group)
next
  case False
  then have one: "\<forall>x \<in> set (evs e a). ck_a (fst x) \<notin> set many" by (auto simp: evs_def ea_of_def)
  show ?thesis
  proof (cases "evs e a = []")
    case True
    then show ?thesis using False by (simp add: group_of_def evs_def find_last_def)
  next
    case ne: False
    then have "group_of ea_of (step_fact many) log (e, a) = step_entry (last (evs e a)) []"
      using foldl_step_fact_one [OF one ne, of "[]"] by (simp add: group_of_def evs_def)
    moreover have "find_last (\<lambda>x. ea_of x = (e, a)) log = Some (last (evs e a))"
      using ne by (simp add: find_last_def evs_def)
    ultimately show ?thesis
      using False by (cases "last (evs e a)") (auto simp: step_current_def is_assert_def)
  qed
qed

lemma set_emit_facts:
  "y \<in> set (emit_facts ea cur) \<longleftrightarrow> (\<exists>vb c. (vb, c) \<in> set cur \<and> y = cell_json (fst ea) (snd ea) c)"
  unfolding emit_facts_def set_map image_iff case_prod_beta
  by (metis fst_conv prod.exhaust_sel snd_conv)

lemma facts_at_mem:
  "y \<in> set (facts_at t ns tx many) \<longleftrightarrow>
     (\<exists>k d. find_last (\<lambda>x. same_slot many k (fst x)) (facts_log t ns tx) = Some (k, d) \<and> is_assert k \<and>
        y = cell_json (ck_e k) (ck_a k) (entry_cell k d))" (is "_ \<longleftrightarrow> ?R")
proof -
  let ?log = "facts_log t ns tx"
  let ?P = "\<lambda>e a vb x. ea_of x = (e, a) \<and> (a \<in> set many \<longrightarrow> ck_v (fst x) = vb)"
  have P: "?P (ck_e k) (ck_a k) (ck_v k) = (\<lambda>x. same_slot many k (fst x))" for k
    by (auto simp: ea_of_def same_slot_def)
  have "y \<in> set (facts_at t ns tx many) \<longleftrightarrow>
      (\<exists>e a. (e, a) \<in> ea_of ` set ?log \<and> (\<exists>vb k d. find_last (?P e a vb) ?log = Some (k, d) \<and>
         is_assert k \<and> ck_v k = vb \<and> y = cell_json e a (entry_cell k d)))"
  proof -
    have "y \<in> set (facts_at t ns tx many) \<longleftrightarrow> (\<exists>ea. ea \<in> ea_of ` set ?log \<and>
        (\<exists>vb c. (vb, c) \<in> set (group_of ea_of (step_fact many) ?log ea) \<and> y = cell_json (fst ea) (snd ea) c))"
      unfolding facts_at_def set_batch_result UN_iff set_emit_facts Bex_def by (rule refl)
    then have "y \<in> set (facts_at t ns tx many) \<longleftrightarrow> (\<exists>e a. (e, a) \<in> ea_of ` set ?log \<and>
        (\<exists>vb c. (vb, c) \<in> set (group_of ea_of (step_fact many) ?log (e, a)) \<and> y = cell_json e a c))"
      unfolding split_paired_Ex [where P = "\<lambda>ea. ea \<in> ea_of ` set ?log \<and> _ ea"] fst_conv snd_conv .
    then show ?thesis unfolding group_of_facts by blast
  qed
  also have "\<dots> \<longleftrightarrow> ?R"
  proof
    assume "\<exists>e a. (e, a) \<in> ea_of ` set ?log \<and> (\<exists>vb k d. find_last (?P e a vb) ?log = Some (k, d) \<and>
         is_assert k \<and> ck_v k = vb \<and> y = cell_json e a (entry_cell k d))"
    then obtain e a k d where f: "find_last (?P e a (ck_v k)) ?log = Some (k, d)" "is_assert k"
      "y = cell_json e a (entry_cell k d)" by blast
    moreover from this have "ck_e k = e" "ck_a k = a"
      using find_last_Some [OF f(1)] by (auto simp: ea_of_def)
    ultimately show ?R using P [of k] by auto
  next
    assume ?R
    then obtain k d where f: "find_last (\<lambda>x. same_slot many k (fst x)) ?log = Some (k, d)"
      "is_assert k" "y = cell_json (ck_e k) (ck_a k) (entry_cell k d)" by blast
    then have "(ck_e k, ck_a k) \<in> ea_of ` set ?log"
      using find_last_Some [OF f(1)] by (force simp: ea_of_def)
    with f show "\<exists>e a. (e, a) \<in> ea_of ` set ?log \<and> (\<exists>vb k d. find_last (?P e a vb) ?log = Some (k, d) \<and>
         is_assert k \<and> ck_v k = vb \<and> y = cell_json e a (entry_cell k d))"
      unfolding P [symmetric] by blast
  qed
  finally show ?thesis .
qed

subsection \<open>The request\<close>

definition begun :: "cenv \<Rightarrow> ctxn" where
  "begun env = \<lparr>mt_tree = me_tree env, mt_error = False, mt_faults = [], mt_junk = me_junk env,
     mt_mc = None\<rparr>"

lemma mdb_txn_begin_live: "mdb_txn_begin env [] = (0, begun env)" "mdb_txn_renew env [] = (0, begun env)"
  by (simp_all add: mdb_txn_begin_def mdb_txn_renew_def next_fault_def begun_def)

lemma begun_tree [simp]: "mt_tree (begun env) = me_tree env"
  by (simp add: begun_def)

lemma begun_live: "tree_inv (me_tree env) \<Longrightarrow> clive (begun env)"
  by (simp add: begun_def live_def tree_inv_def)

text \<open>The attributes of cardinality many at a transaction, as the handler collects them.\<close>

definition many_at :: "cenv \<Rightarrow> namespace_t \<Rightarrow> transaction_t \<Rightarrow> entity_t list" where
  "many_at env ns tx =
     map d_e (filter (\<lambda>x. d_v x = db_cardinality_many) (snd (query_a (begun env) ns tx db_cardinality)))"

text \<open>The transaction a request asks for; a negative number asks for the current one.\<close>

definition asked_tx :: "cenv \<Rightarrow> namespace_t \<Rightarrow> json \<Rightarrow> transaction_t option" where
  "asked_tx env ns doc =
     (if sint (GetInt64 doc) < 0 then get_meta (begun env) ns META_TX else Some (GetInt64 doc))"

lemma facts_first_entry:
  assumes "tree_inv t" and "x \<in> set t" and "in_EATV ns x"
  shows "lower_bound key_rank t (facts_min ns) < length t"
proof (rule ccontr)
  assume "\<not> ?thesis"
  then have "lower_bound key_rank t (facts_min ns) = length t"
    using ck.lower_bound_le [of t "facts_min ns"] by simp
  then have "key_rank (fst x) < key_rank (facts_min ns)"
    using ck.take_lower_bound [of x t "facts_min ns"] assms(2) by simp
  moreover have "key_rank (facts_min ns) \<le> key_rank (fst x)"
    using assms by (intro in_EATV_ge) (auto simp: tree_inv_def)
  ultimately show False by simp
qed

lemma handle_facts_live:
  assumes inv: "tree_inv (me_tree env)" and ns: "ns_ok ns"
    and doc: "parse_argument arg = Some doc" "IsInt64 doc" "asked_tx env ns doc = Some tx"
    and x: "x \<in> set (me_tree env)" "in_EATV ns x"
  shows "handle_facts env [] arg ns =
    [Write (make_response (facts_response tx (facts_at (me_tree env) ns tx (many_at env ns tx)))), ReadRequest]"
proof -
  let ?txn = "begun env" and ?i = "lower_bound key_rank (me_tree env) (facts_min ns)"
  have live: "clive ?txn" using begun_live [OF inv] .
  have i: "?i < length (me_tree env)" using facts_first_entry [OF inv x] .
  obtain k d where e: "me_tree env ! ?i = (k, d)" by fastforce
  have "fst (mdb_node_search cmp (map fst (me_tree env)) (facts_min ns)) = ?i"
    using ck.node_search_spec [OF _ facts_min_ok [OF ns], of "me_tree env"] inv by (simp add: tree_inv_def)
  then have g: "mdb_cursor_get cmp ?txn None (facts_min ns) MDB_SET_RANGE = Inr (?i, k, d)"
    using i e by (simp add: mdb_cursor_get_def begun_def)
  obtain cards where q: "query_a ?txn ns tx db_cardinality = (?txn, cards)"
    using query_a_batches [OF live _ ns, of db_cardinality tx] inv by simp
  then have m: "map d_e (filter (\<lambda>x. d_v x = db_cardinality_many) cards) = many_at env ns tx"
    by (simp add: many_at_def)
  let ?s0 = "\<lparr>fs_facts = [], fs_current = [], fs_last_e = -1, fs_last_a = -1\<rparr> :: facts_st"
  have l: "query_loop ?txn v ?i k d s = visit v (drop ?i (me_tree env)) s" for v and s :: facts_st
    using query_loop_visit [of ?txn ?i k d v s] i e by (simp add: begun_def)
  have o: "mdb_cursor_open ?txn = (0, ?txn)"
    by (simp add: mdb_cursor_open_def begun_def next_fault_def)
  have f: "fs_facts (facts_write_batch (visit (facts_visitor ns (push_bit 1 tx + 1) (many_at env ns tx))
      (drop ?i (me_tree env)) ?s0)) = facts_at (me_tree env) ns tx (many_at env ns tx)"
    by (rule facts_scan [OF inv ns])
  show ?thesis
    unfolding handle_facts_def doc(1) option.case mdb_txn_begin_live prod.case Let_def
      doc(3) [unfolded asked_tx_def] o facts_min_def [symmetric] g sum.case q m l f
    using doc(2) by simp
qed

text \<open>A namespace request, on a new and on an existing namespace.\<close>

lemma handle_namespace_setup:
  assumes "tree_inv (me_tree env)" and "ns_ok ns" and "parse_argument arg = Some doc" and "IsInt64 doc"
    and "ns = ucast (GetInt64 doc)"
  shows "\<exists>env'. handle_namespace env [] arg = (env', [Write ACK_OK, ReadRequest]) \<and>
    (exists_ns (begun env) ns \<longrightarrow> env' = env) \<and>
    (\<not> exists_ns (begun env) ns \<longrightarrow>
       get_meta (begun env') ns META_TX = Some 1 \<and> get_meta (begun env') ns META_ID = Some db_initial_id)"
proof (cases "exists_ns (begun env) ns")
  case True
  then have "handle_namespace env [] arg = (env, [Write ACK_OK, ReadRequest])"
    using assms(3-5)
    by (simp add: handle_namespace_def mdb_txn_begin_live db_setup_def mdb_txn_commit_def begun_def next_fault_def)
  then show ?thesis using True by blast
next
  case False
  then obtain txn where s: "db_setup (begun env) ns = (False, txn)" "clive txn"
    and m: "get_meta txn ns META_TX = Some 1" "get_meta txn ns META_ID = Some db_initial_id"
    using db_setup_live [OF begun_live [OF assms(1)] assms(2)] by blast
  let ?env = "env\<lparr>me_tree := mt_tree txn\<rparr>"
  have "clive (begun ?env)" using s(2) by (simp add: begun_def live_def)
  then have "get_meta (begun ?env) ns k = get_meta txn ns k" if "k = META_TX \<or> k = META_ID" for k
    using get_meta_live [OF _ assms(2)] s(2) that by auto
  moreover have "handle_namespace env [] arg = (?env, [Write ACK_OK, ReadRequest])"
    using s assms(3-5)
    by (simp add: handle_namespace_def mdb_txn_begin_live mdb_txn_commit_def live_def next_fault_def)
  ultimately show ?thesis using False m by auto
qed

end
