(* ===== verification/Updates.thy ===== *)
theory Updates
  imports Facts
begin

text \<open>
  What the writes of a transact request do to the database. Every write changes
  the entry of one key; \<open>upd_txn\<close> says so for the map, for the keys of the tree and
  for every selection of entries by rank. \<open>evolves\<close> collects what follows for a
  transaction of a namespace: the facts of earlier transactions and the other
  namespaces stay as they were, no fact is removed, and the invariant of the tree
  is kept.
\<close>

subsection \<open>Selections of entries by rank\<close>

context comparator
begin

lemma filter_write_at:
  assumes "sorted_tree rank ok t" and "present \<longleftrightarrow> (\<exists>x \<in> set t. rank (fst x) = rank key)"
    and "\<not> R (rank key)"
  shows "filter (\<lambda>x. R (rank (fst x))) (write_at t (lower_bound rank t key) (\<not> present) key d) =
    filter (\<lambda>x. R (rank (fst x))) t"
proof (cases present)
  case False
  then show ?thesis using assms(3)
    by (simp add: write_at_def) (metis append_take_drop_id filter_append)
next
  case True
  let ?i = "lower_bound rank t key"
  have i: "?i < length t" "rank (fst (t ! ?i)) = rank key"
    using True assms(2) by (simp_all add: present_iff_at_lower_bound [OF assms(1)])
  have "t = take ?i t @ t ! ?i # drop (Suc ?i) t" using i(1) by (rule id_take_nth_drop)
  then have "filter (\<lambda>x. R (rank (fst x))) t =
      filter (\<lambda>x. R (rank (fst x))) (take ?i t @ t ! ?i # drop (Suc ?i) t)" by simp
  then show ?thesis
    using True assms(3) i by (simp add: write_at_def upd_conv_take_nth_drop)
qed

lemma filter_delete_at:
  assumes "i < length t" and "\<not> R (rank (fst (t ! i)))"
  shows "filter (\<lambda>x. R (rank (fst x))) (take i t @ drop (i + 1) t) = filter (\<lambda>x. R (rank (fst x))) t"
proof -
  have "t = take i t @ t ! i # drop (Suc i) t" using assms(1) by (rule id_take_nth_drop)
  then have "filter (\<lambda>x. R (rank (fst x))) t =
      filter (\<lambda>x. R (rank (fst x))) (take i t @ t ! i # drop (Suc i) t)" by simp
  then show ?thesis using assms(2) by simp
qed

lemma keys_write_at:
  assumes "sorted_tree rank ok t" and "present \<longleftrightarrow> (\<exists>x \<in> set t. rank (fst x) = rank key)"
  shows "fst ` set (write_at t (lower_bound rank t key) (\<not> present) key d) \<subseteq> insert key (fst ` set t)"
proof (cases present)
  case False
  then show ?thesis by (auto simp: write_at_def dest: in_set_takeD in_set_dropD)
next
  case True
  let ?i = "lower_bound rank t key"
  have "?i < length t"
    using True assms(2) by (simp add: present_iff_at_lower_bound [OF assms(1)])
  then have "insert (fst (t ! ?i)) (fst ` set t) = fst ` set t" by auto
  moreover have "fst ` set (t[?i := x]) \<subseteq> insert (fst x) (fst ` set t)" for x
    using image_mono [OF set_update_subset_insert [of t ?i x], of fst] by simp
  ultimately show ?thesis
    using True by (simp add: write_at_def) (metis fst_conv subset_insertI2)
qed

end

subsection \<open>One write\<close>

definition upd_txn :: "ctxn \<Rightarrow> int list \<Rightarrow> bytes option \<Rightarrow> custom_key set \<Rightarrow> ctxn \<Rightarrow> bool" where
  "upd_txn txn r d ks txn' \<longleftrightarrow> clive txn' \<and> cmap txn' = (cmap txn)(r := d) \<and>
     fst ` set (mt_tree txn') \<subseteq> ks \<union> fst ` set (mt_tree txn) \<and> mt_junk txn' = mt_junk txn \<and>
     (\<forall>R. \<not> R r \<longrightarrow> filter (\<lambda>x. R (key_rank (fst x))) (mt_tree txn') =
        filter (\<lambda>x. R (key_rank (fst x))) (mt_tree txn))"

lemma upd_write_at:
  assumes "clive txn" and "key_ok k"
  shows "upd_txn txn (key_rank k) (Some d) {k}
    (txn\<lparr>mt_tree := write_at (mt_tree txn) (lower_bound key_rank (mt_tree txn) k)
       (\<not> (\<exists>x \<in> set (mt_tree txn). key_rank (fst x) = key_rank k)) k d, mt_mc := mc\<rparr>)"
proof -
  have t: "sorted_tree key_rank key_ok (mt_tree txn)" using assms(1) by (simp add: live_def)
  show ?thesis
    using ck.live_write_at [OF assms, of d] ck.tree_map_write_at [OF t refl, of k d]
      ck.keys_write_at [OF t refl, of k d] ck.filter_write_at [OF t refl, of _ k d]
    by (simp add: upd_txn_def live_def)
qed

lemma put_upd:
  assumes "clive txn" and "key_ok k"
  shows "\<exists>txn'. mdb_put cmp txn k d 0 = (0, txn') \<and> upd_txn txn (key_rank k) (Some d) {k} txn'"
proof -
  obtain mc where "mdb_put cmp txn k d 0 = (0, txn\<lparr>mt_tree := write_at (mt_tree txn)
      (lower_bound key_rank (mt_tree txn) k)
      (\<not> (\<exists>x \<in> set (mt_tree txn). key_rank (fst x) = key_rank k)) k d, mt_mc := mc\<rparr>)"
    using ck.mdb_put_live [OF assms, of d] by (elim exE)
  then show ?thesis using upd_write_at [OF assms, of d mc] by (intro exI conjI)
qed

lemma del_upd:
  assumes "clive txn" and "key_ok k" and "mdb_del cmp txn k = (0, txn')"
  shows "upd_txn txn (key_rank k) None {} txn'"
proof -
  let ?t = "mt_tree txn"
  let ?i = "lower_bound key_rank ?t k"
  have t: "sorted_tree key_rank key_ok ?t" using assms(1) by (simp add: live_def)
  have present: "\<exists>x \<in> set ?t. key_rank (fst x) = key_rank k"
    using ck.mdb_del_absent [OF assms(1,2)] assms(3) by fastforce
  then obtain mc where txn': "txn' = txn\<lparr>mt_tree := take ?i ?t @ drop (?i + 1) ?t, mt_mc := mc\<rparr>"
    using ck.mdb_del_present [OF assms(1,2)] assms(3) by fastforce
  have i: "?i < length ?t" "key_rank (fst (?t ! ?i)) = key_rank k"
    using present by (simp_all add: ck.present_iff_at_lower_bound [OF t])
  have "fst ` set (take ?i ?t @ drop (?i + 1) ?t) \<subseteq> fst ` set ?t"
    by (auto dest: in_set_takeD in_set_dropD)
  then show ?thesis
    using i ck.sorted_delete_at [OF t, of ?i] ck.tree_map_delete_at [OF t i(1)] assms(1)
      ck.filter_delete_at [OF i(1)]
    by (simp add: txn' upd_txn_def live_def)
qed


lemma cursor_put_upd:
  assumes "clive txn" and "key_ok k" and "flags = 0 \<or> flags = MDB_RESERVE"
  shows "\<exists>txn'. mdb_cursor_put cmp txn k d flags = (0, txn') \<and>
    upd_txn txn (key_rank k) (Some (put_data txn d flags)) {k} txn' \<and>
    mt_mc txn' = Some (lower_bound key_rank (mt_tree txn') k)"
proof -
  let ?t = "mt_tree txn" and ?d = "put_data txn d flags"
  let ?i = "lower_bound key_rank ?t k" and ?p = "\<exists>x \<in> set ?t. key_rank (fst x) = key_rank k"
  let ?txn' = "txn\<lparr>mt_tree := write_at ?t ?i (\<not> ?p) k ?d, mt_mc := Some ?i\<rparr>"
  have put: "mdb_cursor_put cmp txn k d flags = (0, ?txn')"
    by (rule ck.mdb_cursor_put_live [OF assms])
  have upd: "upd_txn txn (key_rank k) (Some ?d) {k} ?txn'" by (rule upd_write_at [OF assms(1,2)])
  have t: "sorted_tree key_rank key_ok ?t" using assms(1) by (simp add: live_def)
  have t': "sorted_tree key_rank key_ok (mt_tree ?txn')" using upd by (simp add: upd_txn_def live_def)
  have "?i < length (mt_tree ?txn') \<and> key_rank (fst (mt_tree ?txn' ! ?i)) = key_rank k"
    using ck.present_iff_at_lower_bound [OF t, of k] ck.lower_bound_le [of ?t k]
    by (auto simp: write_at_def nth_append)
  then have "lower_bound key_rank (mt_tree ?txn') k = ?i"
    using t' by (intro ck.lower_bound_eqI) (auto dest: ck.sorted_tree_nth_less)
  then show ?thesis using put upd by auto
qed


lemma subset_Un_trans: "B \<subseteq> ks \<union> A \<Longrightarrow> C \<subseteq> ks' \<union> B \<Longrightarrow> C \<subseteq> (ks \<union> ks') \<union> A"
  by blast

lemma upd_same:
  assumes "upd_txn txn r d ks txn'" and "upd_txn txn' r d' ks' txn''"
  shows "upd_txn txn r d' (ks \<union> ks') txn''"
  using assms subset_Un_trans [of "fst ` set (mt_tree txn')" ks "fst ` set (mt_tree txn)"]
  unfolding upd_txn_def by simp

lemma filter_update_same:
  "i < length t \<Longrightarrow> key_rank k = key_rank (fst (t ! i)) \<Longrightarrow> \<not> R (key_rank k) \<Longrightarrow>
     filter (\<lambda>x. R (key_rank (fst x))) (t[i := (k, d)]) = filter (\<lambda>x. R (key_rank (fst x))) t"
  by (subst (2) id_take_nth_drop) (auto simp: upd_conv_take_nth_drop)

lemma memcpy_upd:
  assumes "clive txn" and "mt_mc txn = Some i" and "i < length (mt_tree txn)"
    and "mt_tree txn ! i = (k, old)"
  shows "upd_txn txn (key_rank k) (Some (d @ drop (length d) old)) {} (memcpy_reserved txn d)"
proof -
  let ?t = "mt_tree txn" and ?d = "d @ drop (length d) old"
  have t: "sorted_tree key_rank key_ok ?t" using assms(1) by (simp add: live_def)
  have k: "key_rank k = key_rank (fst (?t ! i))" "key_ok k"
    using t assms(3,4) nth_mem [OF assms(3)] by (auto simp: sorted_tree_def)
  have "map fst (?t[i := (k, ?d)]) = map fst ?t"
    using assms(3,4) by (simp add: map_update list_update_same_conv)
  then have "fst ` set (?t[i := (k, ?d)]) = fst ` set ?t" by (metis list.set_map)
  then show ?thesis
    using ck.sorted_tree_update [OF t assms(3) k] ck.tree_map_update [OF t assms(3) k(1)] assms
      filter_update_same [OF assms(3) k(1)]
    by (simp add: memcpy_reserved_def upd_txn_def live_def)
qed

lemma padded_upd:
  assumes "clive txn" and "key_ok k" and "sint (ck_pad k) < 0 \<or> d = []"
  shows "\<exists>txn' d'. cursor_put_padded txn k d = (0, txn') \<and>
    upd_txn txn (key_rank k) (Some d') {k} txn' \<and>
    d' = d @ drop (length d) d' \<and> length d' = length d + nat (- sint (ck_pad k))"
proof (cases "sint (ck_pad k) < 0")
  case False
  then have "d = []" "cursor_put_padded txn k d = mdb_cursor_put cmp txn k [] 0"
    using assms(3) by (simp_all add: cursor_put_padded_def)
  moreover obtain txn' where "mdb_cursor_put cmp txn k [] 0 = (0, txn')"
    "upd_txn txn (key_rank k) (Some (put_data txn [] 0)) {k} txn'"
    using cursor_put_upd [OF assms(1,2), of 0 "[]"] by auto
  ultimately show ?thesis using False by (auto simp: put_data_def)
next
  case True
  let ?v = "replicate (length d + nat (- sint (ck_pad k))) (CHR 0x00)"
  let ?d = "put_data txn ?v MDB_RESERVE"
  obtain txn' where put: "mdb_cursor_put cmp txn k ?v MDB_RESERVE = (0, txn')"
    "upd_txn txn (key_rank k) (Some ?d) {k} txn'"
    "mt_mc txn' = Some (lower_bound key_rank (mt_tree txn') k)"
    using cursor_put_upd [OF assms(1,2), of MDB_RESERVE ?v] by blast
  let ?i = "lower_bound key_rank (mt_tree txn') k"
  have live: "clive txn'" "cmap txn' (key_rank k) = Some ?d" using put(2) by (auto simp: upd_txn_def)
  then have t: "sorted_tree key_rank key_ok (mt_tree txn')" by (simp add: live_def)
  have present: "\<exists>x \<in> set (mt_tree txn'). key_rank (fst x) = key_rank k"
    using live(2) ck.tree_map_None [of "mt_tree txn'" "key_rank k"] by auto
  have i: "?i < length (mt_tree txn')" "key_rank (fst (mt_tree txn' ! ?i)) = key_rank k"
    using present by (simp_all add: ck.present_iff_at_lower_bound [OF t])
  have "snd (mt_tree txn' ! ?i) = ?d"
    using ck.tree_map_at_lower_bound [OF t present] live(2) by simp
  then obtain k0 where e: "mt_tree txn' ! ?i = (k0, ?d)" by (metis prod.collapse)
  let ?d' = "d @ drop (length d) ?d"
  have "upd_txn txn (key_rank k) (Some ?d') ({k} \<union> {}) (memcpy_reserved txn' d)"
    using upd_same [OF put(2)] memcpy_upd [OF live(1) put(3) i(1) e, of d] i(2) e by simp
  moreover have "cursor_put_padded txn k d = (0, memcpy_reserved txn' d)"
    using True put(1) by (simp add: cursor_put_padded_def Let_def)
  moreover have "length ?d = length d + nat (- sint (ck_pad k))" by (simp add: put_data_def)
  ultimately show ?thesis by (intro exI [of _ "memcpy_reserved txn' d"] exI [of _ ?d']) simp
qed


subsection \<open>What a transaction leaves as it was\<close>

text \<open>
  The ranks a transaction must not touch: those of the other namespaces, and those
  of the facts of earlier transactions.
\<close>

fun past_rank :: "namespace_t \<Rightarrow> transaction_t \<Rightarrow> int list \<Rightarrow> bool" where
  "past_rank ns tx (n # k # s # x # y # t # vs) \<longleftrightarrow> n \<noteq> uint ns \<or> k = 3 \<and> t < 2 * sint tx"
| "past_rank ns tx (n # vs) \<longleftrightarrow> n \<noteq> uint ns"
| "past_rank ns tx [] \<longleftrightarrow> False"

definition past :: "namespace_t \<Rightarrow> transaction_t \<Rightarrow> custom_key tree \<Rightarrow> custom_key tree" where
  "past ns tx t = filter (\<lambda>x. past_rank ns tx (key_rank (fst x))) t"

definition data_rank :: "int list \<Rightarrow> bool" where
  "data_rank r \<longleftrightarrow> (\<exists>n vs. r = n # 3 # vs)"

definition evolves :: "namespace_t \<Rightarrow> transaction_t \<Rightarrow> ctxn \<Rightarrow> ctxn \<Rightarrow> bool" where
  "evolves ns tx txn txn' \<longleftrightarrow> clive txn' \<and> tree_inv (mt_tree txn') \<and> mt_junk txn' = mt_junk txn \<and>
     past ns tx (mt_tree txn') = past ns tx (mt_tree txn) \<and>
     (\<forall>r. data_rank r \<longrightarrow> cmap txn r \<noteq> None \<longrightarrow> cmap txn' r \<noteq> None) \<and>
     (\<forall>m. cmap txn' [uint ns, 0, m] = cmap txn [uint ns, 0, m])"

lemma evolves_refl: "clive txn \<Longrightarrow> tree_inv (mt_tree txn) \<Longrightarrow> evolves ns tx txn txn"
  by (simp add: evolves_def)

lemma evolves_trans: "evolves ns tx txn txn' \<Longrightarrow> evolves ns tx txn' txn'' \<Longrightarrow> evolves ns tx txn txn''"
  unfolding evolves_def by presburger

lemma evolves_mc [simp]: "evolves ns tx txn (txn'\<lparr>mt_mc := mc\<rparr>) = evolves ns tx txn txn'"
  by (simp add: evolves_def live_def)

lemma upd_tree_inv:
  assumes "upd_txn txn r d ks txn'" and "tree_inv (mt_tree txn)" and "\<forall>k \<in> ks. key_inv k"
  shows "tree_inv (mt_tree txn')"
proof -
  have u: "clive txn'" "fst ` set (mt_tree txn') \<subseteq> ks \<union> fst ` set (mt_tree txn)"
    using assms(1) by (simp_all add: upd_txn_def)
  have "\<forall>k \<in> fst ` set (mt_tree txn'). key_inv k"
  proof
    fix k assume "k \<in> fst ` set (mt_tree txn')"
    then have "k \<in> ks \<union> fst ` set (mt_tree txn)" by (rule subsetD [OF u(2)])
    then show "key_inv k" using assms(2,3) by (auto simp: tree_inv_def)
  qed
  then show ?thesis using u(1) by (simp add: tree_inv_def live_def)
qed

lemma upd_evolves:
  assumes "upd_txn txn r d ks txn'" and "tree_inv (mt_tree txn)" and "\<forall>k \<in> ks. key_inv k"
    and "\<not> past_rank ns tx r" and "d = None \<Longrightarrow> \<not> data_rank r" and "\<And>m. r \<noteq> [uint ns, 0, m]"
  shows "evolves ns tx txn txn'"
proof -
  have u: "clive txn'" "cmap txn' = (cmap txn)(r := d)" "mt_junk txn' = mt_junk txn"
    "fst ` set (mt_tree txn') \<subseteq> ks \<union> fst ` set (mt_tree txn)"
    "past ns tx (mt_tree txn') = past ns tx (mt_tree txn)"
    using assms(1,4) by (simp_all add: upd_txn_def past_def)
  have inv: "tree_inv (mt_tree txn')" by (rule upd_tree_inv [OF assms(1-3)])
  have "cmap txn' q \<noteq> None" if "data_rank q" "cmap txn q \<noteq> None" for q
    using that assms(5) u(2) by (cases "q = r") auto
  moreover have "cmap txn' [uint ns, 0, m] = cmap txn [uint ns, 0, m]" for m
    using u(2) assms(6) [of m] by simp
  ultimately show ?thesis
    unfolding evolves_def using u(1,3,5) inv by blast
qed

lemma unique_rank:
  "ck_type k = 1 \<Longrightarrow> key_rank k = uint (ck_ns k) # 1 # sint (ck_a k) # byte_ranks (ck_v k)"
  by (simp add: key_rank_def)

lemma not_past_unique:
  "\<not> past_rank ns tx (uint ns # 1 # vs)"
  by (cases "(ns, tx, uint ns # 1 # vs)" rule: past_rank.cases) auto

lemma unique_key_inv:
  assumes "ns_ok ns" and "in_window (ck_a k)" and "length (ck_v k) = 32"
  shows "key_inv (unique_key ns k)"
  using assms by (simp add: unique_key_def key_inv_def key_ok_def ns_ok_def)

lemma unique_key_rank: "key_rank (unique_key ns k) = uint ns # 1 # sint (ck_a k) # byte_ranks (ck_v k)"
  by (simp add: unique_key_def unique_rank)

lemma evolves_put_unique:
  assumes "clive txn" and "tree_inv (mt_tree txn)" and "ns_ok ns" and "in_window (ck_a k)"
    and "length (ck_v k) = 32"
  shows "\<exists>txn'. mdb_put cmp txn (unique_key ns k) d 0 = (0, txn') \<and> evolves ns tx txn txn'"
proof -
  have k: "key_inv (unique_key ns k)" using unique_key_inv [OF assms(3-5)] .
  then have "key_ok (unique_key ns k)" by (simp add: key_inv_def)
  then obtain txn' where p: "mdb_put cmp txn (unique_key ns k) d 0 = (0, txn')"
    "upd_txn txn (key_rank (unique_key ns k)) (Some d) {unique_key ns k} txn'"
    using put_upd [OF assms(1)] by blast
  have "evolves ns tx txn txn'"
    using upd_evolves [OF p(2) assms(2)] k by (simp add: unique_key_rank not_past_unique)
  then show ?thesis using p(1) by blast
qed

lemma evolves_del_unique:
  assumes "clive txn" and "tree_inv (mt_tree txn)" and "ns_ok ns" and "in_window (ck_a k)"
    and "length (ck_v k) = 32" and "mdb_del cmp txn (unique_key ns k) = (0, txn')"
  shows "evolves ns tx txn txn'"
proof -
  have "key_ok (unique_key ns k)" using unique_key_inv [OF assms(3-5)] by (simp add: key_inv_def)
  then have "upd_txn txn (key_rank (unique_key ns k)) None {} txn'"
    using del_upd [OF assms(1) _ assms(6)] by blast
  then show ?thesis
    using upd_evolves [OF _ assms(2)] by (simp add: unique_key_rank not_past_unique data_rank_def)
qed

lemma last_datom_live:
  assumes "clive txn"
  shows "fst (snd (last_datom txn k)) = txn"
    and "\<not> fst (last_datom txn k) \<Longrightarrow> snd (snd (last_datom txn k)) \<in> fst ` set (mt_tree txn)"
proof -
  have o: "mdb_cursor_open txn = (0, txn)"
    using assms by (simp add: mdb_cursor_open_def live_def next_fault_def)
  have range: "mdb_cursor_get cmp txn None k0 MDB_SET_RANGE = Inr (i, k', d') \<Longrightarrow> i < length (mt_tree txn)"
    for k0 i k' d'
    by (auto simp: mdb_cursor_get_def Let_def split: if_splits)
  have in_tree: "k' \<in> fst ` set (mt_tree txn)"
    if "i < length (mt_tree txn)" "mdb_cursor_get cmp txn (Some i) k0 MDB_PREV = Inr (i', k', d')"
    for i k0 i' k' d'
  proof -
    have "(k', d') = mt_tree txn ! (i - 1)"
      using that(2) by (auto simp: mdb_cursor_get_def Let_def split: if_splits)
    then have "(k', d') \<in> set (mt_tree txn)" using that(1) by simp
    then show ?thesis by force
  qed
  show "fst (snd (last_datom txn k)) = txn"
    by (simp add: last_datom_def o Let_def split: sum.split prod.split)
  show "\<not> fst (last_datom txn k) \<Longrightarrow> snd (snd (last_datom txn k)) \<in> fst ` set (mt_tree txn)"
    by (auto simp: last_datom_def o Let_def split: sum.splits prod.splits dest!: in_tree [OF range])
      (metis fst_conv image_eqI)
qed

text \<open>
  An assertion on a unique attribute ends with the put of its key in the unique
  index, after at most the removal of the entity's former value.
\<close>

lemma check_unique_puts:
  assumes "clive txn" and "tree_inv (mt_tree txn)" and "ns_ok ns"
    and "check_unique ns k e False txn = Some txn'"
  shows "\<exists>txn1. evolves ns tx txn txn1 \<and> mdb_put cmp txn1 (unique_key ns k) (i64_bytes e) 0 = (0, txn')"
proof -
  let ?m = "case mdb_get cmp txn (unique_key ns k) of
      Inr tmp \<Rightarrow> if bytes_i64 tmp \<noteq> e then None else Some txn
    | Inl _ \<Rightarrow>
        (let (failed, txn, lst) = last_datom txn k in
         if failed then Some txn
         else (let (rc, txn) = mdb_del cmp txn (unique_key ns lst) in if rc \<noteq> 0 then None else Some txn))"
  obtain txn1 where m: "?m = Some txn1"
    and p: "mdb_put cmp txn1 (unique_key ns k) (i64_bytes e) 0 = (0, txn')"
    using assms(4) by (auto simp: check_unique_def Let_def split: option.splits prod.splits if_splits)
  obtain failed txn0 lst where l: "last_datom txn k = (failed, txn0, lst)" by (metis prod_cases3)
  have l0: "txn0 = txn" using last_datom_live(1) [OF assms(1), of k] l by simp
  consider "txn1 = txn" | "\<not> failed" "mdb_del cmp txn (unique_key ns lst) = (0, txn1)"
    using m l l0 by (auto split: sum.splits if_splits prod.splits)
  then have "evolves ns tx txn txn1"
  proof cases
    case 1
    then show ?thesis using evolves_refl [OF assms(1,2)] by simp
  next
    case 2
    then have "lst \<in> fst ` set (mt_tree txn)" using last_datom_live(2) [OF assms(1), of k] l by simp
    then have "key_inv lst" using assms(2) by (auto simp: tree_inv_def)
    then show ?thesis
      using evolves_del_unique [OF assms(1-3) _ _ 2(2)] by (simp add: key_inv_def key_ok_def)
  qed
  then show ?thesis using p by blast
qed

lemma check_unique_evolves:
  assumes "clive txn" and "tree_inv (mt_tree txn)" and "ns_ok ns" and "in_window (ck_a k)"
    and "length (ck_v k) = 32" and "check_unique ns k e retract txn = Some txn'"
  shows "evolves ns tx txn txn'"
proof (cases retract)
  case True
  then obtain rc where "mdb_del cmp txn (unique_key ns k) = (rc, txn')" "rc = 0"
    using assms(6) by (auto simp: check_unique_def split: prod.splits if_splits)
  then show ?thesis using evolves_del_unique [OF assms(1-5)] by simp
next
  case False
  then have "check_unique ns k e False txn = Some txn'" using assms(6) by simp
  then obtain txn1 where ev1: "evolves ns tx txn txn1"
    and p: "mdb_put cmp txn1 (unique_key ns k) (i64_bytes e) 0 = (0, txn')"
    using check_unique_puts [OF assms(1-3)] by blast
  then have "clive txn1" "tree_inv (mt_tree txn1)" by (simp_all add: evolves_def)
  then have "evolves ns tx txn1 txn'"
    using evolves_put_unique [of txn1 ns k "i64_bytes e" tx] assms(3-5) p by auto
  then show ?thesis using ev1 evolves_trans by blast
qed

text \<open>What the unique index promises.\<close>

lemma check_unique_taken:
  assumes "clive txn" and "ns_ok ns" and "in_window (ck_a k)" and "length (ck_v k) = 32"
    and "cmap txn (key_rank (unique_key ns k)) = Some d" and "bytes_i64 d \<noteq> e"
  shows "check_unique ns k e False txn = None"
proof -
  have "key_ok (unique_key ns k)" using unique_key_inv [OF assms(2-4)] by (simp add: key_inv_def)
  then have "mdb_get cmp txn (unique_key ns k) = Inr d"
    using ck.mdb_get_live [OF assms(1)] assms(5) by simp
  then show ?thesis using assms(6) by (simp add: check_unique_def)
qed

lemma check_unique_records:
  assumes "clive txn" and "tree_inv (mt_tree txn)" and "ns_ok ns" and "in_window (ck_a k)"
    and "length (ck_v k) = 32" and "check_unique ns k e False txn = Some txn'"
  shows "clive txn' \<and> cmap txn' (key_rank (unique_key ns k)) = Some (i64_bytes e)"
proof -
  obtain txn1 where ev1: "evolves ns 0 txn txn1"
    and p: "mdb_put cmp txn1 (unique_key ns k) (i64_bytes e) 0 = (0, txn')"
    using check_unique_puts [OF assms(1-3,6)] by blast
  have "clive txn1" using ev1 by (simp add: evolves_def)
  moreover have "key_ok (unique_key ns k)" using unique_key_inv [OF assms(3-5)] by (simp add: key_inv_def)
  ultimately have "upd_txn txn1 (key_rank (unique_key ns k)) (Some (i64_bytes e)) {unique_key ns k} txn'"
    using put_upd [of txn1 "unique_key ns k" "i64_bytes e"] p by auto
  then show ?thesis by (simp add: upd_txn_def)
qed

lemma check_unique_retract:
  assumes "clive txn" and "ns_ok ns" and "in_window (ck_a k)" and "length (ck_v k) = 32"
  shows "if cmap txn (key_rank (unique_key ns k)) = None then check_unique ns k e True txn = None
    else \<exists>txn'. check_unique ns k e True txn = Some txn' \<and>
      cmap txn' = (cmap txn)(key_rank (unique_key ns k) := None)"
proof -
  let ?u = "unique_key ns k"
  have ok: "key_ok ?u" using unique_key_inv [OF assms(2-4)] by (simp add: key_inv_def)
  obtain rc txn' where d: "mdb_del cmp txn ?u = (rc, txn')" by fastforce
  have "rc = 0 \<longleftrightarrow> cmap txn (key_rank ?u) \<noteq> None"
    using ck.mdb_del_absent [OF assms(1) ok] ck.mdb_del_present [OF assms(1) ok] d
      ck.tree_map_None [of "mt_tree txn" "key_rank ?u"] by fastforce
  moreover have "cmap txn' = (cmap txn)(key_rank ?u := None)" if "rc = 0"
    using del_upd [OF assms(1) ok] d that by (simp add: upd_txn_def)
  ultimately show ?thesis using d by (simp add: check_unique_def)
qed

text \<open>
  The last argument of the put without padding is the size of the data: with 64
  bytes it is the flag \<open>MDB_CURRENT\<close>.
\<close>

lemma put_64_bytes:
  assumes "\<not> mt_error txn" and "mt_faults txn = []" and "0 \<le> sint (ck_pad k)" and "length d = 64"
  shows "cursor_put_padded txn k d = (case mt_mc txn of
      None \<Rightarrow> (EINVAL, txn)
    | Some i \<Rightarrow> if i < length (mt_tree txn)
        then (0, txn\<lparr>mt_tree := write_at (mt_tree txn) i False k d, mt_mc := Some i\<rparr>) else (EINVAL, txn))"
  using assms
  by (auto simp: cursor_put_padded_def Let_def mdb_cursor_put_def put_position_def put_data_def next_fault_def
      split: option.split)

text \<open>The key and data of a fact of the transaction.\<close>

definition new_key :: "namespace_t \<Rightarrow> transaction_t \<Rightarrow> custom_key \<Rightarrow> bytes \<Rightarrow> bool" where
  "new_key ns tx ck val \<longleftrightarrow> ck_ns ck = ns \<and> (ck_type ck = KEY_INTEGER \<or> ck_type ck = KEY_BLOB) \<and>
     key_ok ck \<and> 0 < sint (ck_e ck) \<and> 0 \<le> sint tx \<and> 2 * sint tx \<le> sint (ck_t ck) \<and>
     (sint (ck_pad ck) < 0 \<or> val = [])"

lemma evolves_padded:
  assumes "clive txn" and "tree_inv (mt_tree txn)" and "new_key ns tx ck val"
    and "ck_sort ck = SORT_EATV \<or> ck_sort ck = SORT_AETV"
  shows "\<exists>txn'. cursor_put_padded txn ck val = (0, txn') \<and> evolves ns tx txn txn' \<and>
    cmap txn' (key_rank ck) \<noteq> None"
proof -
  have k: "key_ok ck" "key_inv ck" "sint (ck_pad ck) < 0 \<or> val = []"
    using assms(3,4) by (auto simp: new_key_def key_inv_def)
  obtain txn' d' where p: "cursor_put_padded txn ck val = (0, txn')"
    "upd_txn txn (key_rank ck) (Some d') {ck} txn'"
    using padded_upd [OF assms(1) k(1,3)] by blast
  have "\<exists>s x y t vs. key_rank ck = uint ns # 3 # s # x # y # t # vs \<and> 2 * sint tx \<le> t"
    using assms(3,4) by (auto simp: new_key_def rank_EATV rank_AETV)
  then have "evolves ns tx txn txn'"
    using upd_evolves [OF p(2) assms(2)] k(2) by auto
  then show ?thesis using p by (auto simp: upd_txn_def)
qed

lemma new_key_sort [simp]: "new_key ns tx (ck\<lparr>ck_sort := s\<rparr>) val = new_key ns tx ck val"
  by (simp add: new_key_def key_ok_def)

lemma data_rank_key: "\<not> ck_type k < 3 \<Longrightarrow> data_rank (key_rank k)"
  by (simp add: data_rank_def key_rank_def)

lemma insert_fact_evolves:
  assumes "clive txn" and "tree_inv (mt_tree txn)" and "new_key ns tx ck val"
  shows "\<exists>txn'. insert_fact ck val txn = Some txn' \<and> evolves ns tx txn txn' \<and>
    cmap txn' (key_rank (ck\<lparr>ck_sort := SORT_EATV\<rparr>)) \<noteq> None"
proof -
  let ?E = "ck\<lparr>ck_sort := SORT_EATV\<rparr>" and ?A = "ck\<lparr>ck_sort := SORT_AETV\<rparr>"
  have "\<not> ck_type ck < 3" using assms(3) by (auto simp: new_key_def)
  then have dr: "data_rank (key_rank ?E)" by (intro data_rank_key) simp
  obtain txn1 where e: "cursor_put_padded txn ?E val = (0, txn1)" "evolves ns tx txn txn1"
    "cmap txn1 (key_rank ?E) \<noteq> None"
    using evolves_padded [OF assms(1,2), of ns tx ?E val] assms(3) by auto
  show ?thesis
  proof (cases "sint (ck_a ck) < sint db_initial_id")
    case False
    then show ?thesis using e by (auto simp: insert_fact_def)
  next
    case True
    have "clive txn1" "tree_inv (mt_tree txn1)" using e(2) by (simp_all add: evolves_def)
    then obtain txn2 where a: "cursor_put_padded txn1 ?A val = (0, txn2)" "evolves ns tx txn1 txn2"
      using evolves_padded [of txn1 ns tx ?A val] assms(3) by auto
    have "cmap txn2 (key_rank ?E) \<noteq> None" using a(2) e(3) dr unfolding evolves_def by blast
    moreover have "insert_fact ck val txn = Some txn2"
      using True e(1) a(1) by (simp add: insert_fact_def)
    ultimately show ?thesis using evolves_trans [OF e(2) a(2)] by blast
  qed
qed

end
