(* ===== verification/Transact.thy ===== *)
theory Transact
  imports Updates
begin

text \<open>
  The transact request: the ids it gives, the facts it stores, and what it leaves
  as it was. On a request within the window of the key order, the request is
  either rejected with the database as it was, or commits all of its facts; in
  both cases the past of the database cannot be told from what it was before.
\<close>

subsection \<open>Temporary ids\<close>

text \<open>The ids given in a transaction are consecutive, from the one it started with.\<close>

definition ids_inv :: "entity_t \<Rightarrow> transact_st \<Rightarrow> bool" where
  "ids_inv nid st \<longleftrightarrow> distinct (map fst (tr_new_ids st)) \<and> (\<forall>x \<in> set (tr_new_ids st). sint (fst x) < 0) \<and>
     sint nid \<le> sint (tr_id st) \<and>
     map (\<lambda>x. sint (snd x)) (tr_new_ids st) = [sint nid .. sint (tr_id st) - 1]"

definition ids_step :: "entity_t \<Rightarrow> int \<Rightarrow> transact_st \<Rightarrow> transact_st \<Rightarrow> bool" where
  "ids_step nid n st st' \<longleftrightarrow> ids_inv nid st' \<and> sint (tr_id st) \<le> sint (tr_id st') \<and>
     sint (tr_id st') \<le> sint (tr_id st) + n \<and> tr_txn st' = tr_txn st \<and> tr_facts st' = tr_facts st \<and>
     map_of (tr_new_ids st) \<subseteq>\<^sub>m map_of (tr_new_ids st')"

lemma sint_word_of_int_64:
  assumes "- (2 ^ 63) \<le> k" and "k < 2 ^ 63"
  shows "sint (word_of_int k :: i64) = k"
  using assms by (simp add: signed_of_int signed_take_bit_int_eq_self)

lemma sint_i64_ge: "- (2 ^ 63) \<le> sint (w :: i64)"
  using sint_greater_eq [of w] by simp

lemma sint_succ:
  assumes "sint w < 2 ^ 30"
  shows "sint (w + 1 :: i64) = sint w + 1"
proof -
  have "w + 1 = word_of_int (sint w + 1)" by simp
  moreover have "sint (word_of_int (sint w + 1) :: i64) = sint w + 1"
    using assms sint_i64_ge [of w] by (intro sint_word_of_int_64) auto
  ultimately show ?thesis by simp
qed

lemma ids_step_refl: "ids_inv nid st \<Longrightarrow> ids_step nid 0 st st"
  by (simp add: ids_step_def)

lemma ids_step_trans:
  "ids_step nid m st st' \<Longrightarrow> ids_step nid n st' st'' \<Longrightarrow> ids_step nid (m + n) st st''"
  unfolding ids_step_def using map_le_trans by fastforce

lemma ids_step_mono: "ids_step nid m st st' \<Longrightarrow> m \<le> n \<Longrightarrow> ids_step nid n st st'"
  by (simp add: ids_step_def)

lemma resolve_tempid_step:
  assumes "ids_inv nid st" and "sint e < 0" and "sint (tr_id st) < 2 ^ 30"
    and "resolve_tempid e st = (x, st')"
  shows "ids_step nid 1 st st'" and "map_of (tr_new_ids st') e = Some x"
    and "sint nid \<le> sint x \<and> sint x < sint (tr_id st')"
proof -
  have "ids_step nid 1 st st' \<and> map_of (tr_new_ids st') e = Some x \<and>
      sint nid \<le> sint x \<and> sint x < sint (tr_id st')"
  proof (cases "map_of (tr_new_ids st) e")
    case (Some y)
    then have st: "x = y" "st' = st" using assms(4) by (auto simp: resolve_tempid_def)
    have "sint y \<in> set (map (\<lambda>x. sint (snd x)) (tr_new_ids st))"
      using map_of_SomeD [OF Some] by force
    then have "sint nid \<le> sint y \<and> sint y < sint (tr_id st)"
      using assms(1) by (simp only: ids_inv_def set_upto atLeastAtMost_iff) simp
    then show ?thesis using Some st ids_step_mono [OF ids_step_refl [OF assms(1)]] by simp
  next
    case None
    then have st: "x = tr_id st" "tr_new_ids st' = tr_new_ids st @ [(e, x)]" "tr_id st' = tr_id st + 1"
      "tr_txn st' = tr_txn st" "tr_facts st' = tr_facts st"
      using assms(4) by (auto simp: resolve_tempid_def)
    have s: "sint (tr_id st + 1) = sint (tr_id st) + 1" by (rule sint_succ [OF assms(3)])
    have e: "e \<notin> fst ` set (tr_new_ids st)" using None by (simp add: map_of_eq_None_iff)
    have u: "[sint nid..sint (tr_id st)] = [sint nid..sint (tr_id st) - 1] @ [sint (tr_id st)]"
      using assms(1) by (intro upto_rec2) (simp add: ids_inv_def)
    have le: "map_of (tr_new_ids st) \<subseteq>\<^sub>m map_of (tr_new_ids st')"
      using None by (auto simp: st map_le_def map_add_def split: option.split)
    have "ids_inv nid st'"
      using assms(1,2) e s u by (auto simp: ids_inv_def st)
    then show ?thesis
      using s e assms(1) le None by (auto simp: ids_step_def st ids_inv_def map_add_def)
  qed
  then show "ids_step nid 1 st st'" and "map_of (tr_new_ids st') e = Some x"
    and "sint nid \<le> sint x \<and> sint x < sint (tr_id st')" by auto
qed


subsection \<open>Values\<close>

text \<open>
  The strings for which the put of a fact does what it means to: a longer string
  whose length is a multiple of eight has no padding, and its length is passed as
  the flags of the put.
\<close>

definition str_ok :: "(bytes \<Rightarrow> bytes option) \<Rightarrow> bytes \<Rightarrow> bool" where
  "str_ok sha256 s \<longleftrightarrow> length s \<le> 32 \<or>
     length s mod 8 \<noteq> 0 \<and> (case sha256 s of None \<Rightarrow> True | Some h \<Rightarrow> length h = 32)"

text \<open>The facts of a request that stay within the window the key order works on.\<close>

definition fact_ok :: "(bytes \<Rightarrow> bytes option) \<Rightarrow> json \<Rightarrow> bool" where
  "fact_ok sha256 v \<longleftrightarrow>
     (let eav = GetArray v in length eav = 4 \<longrightarrow>
        in_window (GetInt64 (eav ! 0)) \<and> in_window (GetInt64 (eav ! 1)) \<and>
        in_window (GetInt64 (eav ! 2)) \<and> str_ok sha256 (GetString (eav ! 2)))"

definition pad_of :: "nat \<Rightarrow> int" where
  "pad_of n = (if n mod 8 = 0 then 0 else int (n mod 8) - 8)"

text \<open>How a value of the response appears in the rank of its key.\<close>

definition val_rank :: "(bytes \<Rightarrow> bytes option) \<Rightarrow> json \<Rightarrow> int list" where
  "val_rank sha256 jv =
     (case jv of
        JInt n \<Rightarrow> [4, n]
      | JString s \<Rightarrow>
          if length s \<le> 32 then
            5 # (int (length s) + 1) # byte_ranks (s @ replicate (32 - length s) (CHR 0x00))
          else (case sha256 s of None \<Rightarrow> [] | Some h \<Rightarrow> 5 # pad_of (length s) # byte_ranks h)
      | _ \<Rightarrow> [])"

definition value_key :: "namespace_t \<Rightarrow> custom_key \<Rightarrow> bytes \<Rightarrow> bool" where
  "value_key ns ck val \<longleftrightarrow> ck_ns ck = ns \<and> (ck_type ck = KEY_INTEGER \<or> ck_type ck = KEY_BLOB) \<and>
     length (ck_v ck) = 32 \<and> (ck_type ck = KEY_INTEGER \<longrightarrow> in_window (v_i (ck_v ck))) \<and>
     (sint (ck_pad ck) < 0 \<or> val = [])"

lemma sint_i16_small: "n < 100 \<Longrightarrow> sint (of_nat n :: i16) = int n"
  by (simp add: signed_of_nat signed_take_bit_int_eq_self)

lemma mod_8_cases:
  assumes "n mod 8 \<noteq> (0 :: nat)"
  obtains "n mod 8 = 1" | "n mod 8 = 2" | "n mod 8 = 3" | "n mod 8 = 4" | "n mod 8 = 5"
    | "n mod 8 = 6" | "n mod 8 = 7"
  using assms by linarith

lemma sint_pad: "n mod 8 \<noteq> 0 \<Longrightarrow> sint (- (8 - of_nat (n mod 8)) :: i16) = pad_of n"
  by (erule mod_8_cases) (simp_all add: pad_of_def)

lemma value_rank_blob: "ck_type k = 5 \<Longrightarrow> value_rank k = 5 # sint (ck_pad k) # byte_ranks (ck_v k)"
  by (simp add: value_rank_def)

lemma value_rank_upd [simp]:
  "value_rank (k\<lparr>ck_e := e\<rparr>) = value_rank k" "value_rank (k\<lparr>ck_a := a\<rparr>) = value_rank k"
  "value_rank (k\<lparr>ck_t := t\<rparr>) = value_rank k" "value_rank (k\<lparr>ck_sort := s\<rparr>) = value_rank k"
  by (simp_all add: value_rank_def)

lemma string_value_key:
  assumes "string_value sha256 (zero_key\<lparr>ck_ns := ns\<rparr>) s = Some (FactValue ck val jv)" and "str_ok sha256 s"
  shows "value_key ns ck val \<and> value_rank ck = val_rank sha256 jv"
proof (cases "length s \<le> 32")
  case True
  then show ?thesis
    using assms sint_i16_small [of "length s + 1"]
    by (auto simp: string_value_def Let_def value_key_def value_rank_blob val_rank_def zero_key_def
        zero_value_def add.commute)
next
  case False
  then obtain h where h: "sha256 s = Some h" "length h = 32" "length s mod 8 \<noteq> 0"
    using assms by (auto simp: string_value_def str_ok_def split: option.splits)
  then show ?thesis
    using assms(1) False sint_pad [OF h(3)]
    by (auto simp: string_value_def Let_def value_key_def value_rank_def val_rank_def zero_key_def
        pad_of_def)
qed

lemma string_value_not_Skip: "string_value sha256 ck s \<noteq> Some Skip"
  by (simp add: string_value_def Let_def split: option.split)

lemma in_windowI: "- (2 ^ 30) \<le> sint w \<Longrightarrow> sint w < 2 ^ 30 \<Longrightarrow> in_window w"
  by (simp add: in_window_def)

lemma fact_val_step:
  assumes "ids_inv nid st" and "0 \<le> sint nid" and "sint (tr_id st) + 1 < 2 ^ 30"
    and "in_window (GetInt64 x)" and "str_ok sha256 (GetString x)"
    and "fact_val sha256 e_ref (zero_key\<lparr>ck_ns := ns\<rparr>) a x st = Some (fv, st')"
  shows "ids_step nid 1 st st'"
    and "fv = FactValue ck val jv \<Longrightarrow> value_key ns ck val \<and> value_rank ck = val_rank sha256 jv"
proof -
  have "ids_step nid 1 st st' \<and>
    (\<forall>ck val jv. fv = FactValue ck val jv \<longrightarrow> value_key ns ck val \<and> value_rank ck = val_rank sha256 jv)"
  proof (cases "IsInt64 x")
    case True
    obtain v where r: "(if a \<in> set e_ref \<and> sint (GetInt64 x) < 0 then resolve_tempid (GetInt64 x) st
        else (GetInt64 x, st)) = (v, st')" and
      fv: "fv = FactValue (zero_key\<lparr>ck_ns := ns, ck_type := KEY_INTEGER, ck_v := set_v_i v zero_value\<rparr>) []
        (JInt (sint v))"
      using assms(6) True by (auto simp: fact_val_def zero_key_def Let_def split: prod.splits)
    have "ids_step nid 1 st st' \<and> in_window v"
    proof (cases "a \<in> set e_ref \<and> sint (GetInt64 x) < 0")
      case True
      then have "resolve_tempid (GetInt64 x) st = (v, st')" using r by simp
      from resolve_tempid_step [OF assms(1) _ _ this] True assms(2,3)
      have "ids_step nid 1 st st'" "sint nid \<le> sint v" "sint v < sint (tr_id st')" by auto
      then show ?thesis using assms(2,3) by (auto simp: ids_step_def intro: in_windowI)
    next
      case False
      then show ?thesis
        using r assms(4) ids_step_mono [OF ids_step_refl [OF assms(1)]] by auto
    qed
    then show ?thesis
      by (auto simp: fv value_key_def value_rank_def val_rank_def zero_key_def)
  next
    case False
    then have "st' = st"
      using assms(6) by (auto simp: fact_val_def split: if_splits option.splits)
    moreover have "value_key ns ck val \<and> value_rank ck = val_rank sha256 jv"
      if "fv = FactValue ck val jv" for ck val jv
      using string_value_key [of sha256 ns "GetString x" ck val jv] assms(5,6) False that
      by (auto simp: fact_val_def split: if_splits option.splits)
    ultimately show ?thesis using ids_step_mono [OF ids_step_refl [OF assms(1)]] by simp
  qed
  then show "ids_step nid 1 st st'"
    and "fv = FactValue ck val jv \<Longrightarrow> value_key ns ck val \<and> value_rank ck = val_rank sha256 jv" by auto
qed


subsection \<open>The loop over the facts\<close>

text \<open>A fact of the response is in the index of the facts.\<close>

definition stored :: "(bytes \<Rightarrow> bytes option) \<Rightarrow> namespace_t \<Rightarrow> transaction_t \<Rightarrow> ctxn \<Rightarrow> json \<Rightarrow> bool" where
  "stored sha256 ns tx txn f \<longleftrightarrow> (\<exists>e a jv r. f = JArray [JInt e, JInt a, jv, JInt (sint tx), JBool r] \<and>
     cmap txn (uint ns # 3 # 180 # e # a # (2 * sint tx + of_bool r) # val_rank sha256 jv) \<noteq> None)"

definition tr_step ::
  "(bytes \<Rightarrow> bytes option) \<Rightarrow> namespace_t \<Rightarrow> transaction_t \<Rightarrow> entity_t \<Rightarrow> int \<Rightarrow> transact_st \<Rightarrow> transact_st \<Rightarrow> bool" where
  "tr_step sha256 ns tx nid n st st' \<longleftrightarrow> evolves ns tx (tr_txn st) (tr_txn st') \<and> ids_inv nid st' \<and>
     sint (tr_id st) \<le> sint (tr_id st') \<and> sint (tr_id st') \<le> sint (tr_id st) + n \<and>
     map_of (tr_new_ids st) \<subseteq>\<^sub>m map_of (tr_new_ids st') \<and>
     (\<exists>fs. tr_facts st' = tr_facts st @ fs \<and> (\<forall>f \<in> set fs. stored sha256 ns tx (tr_txn st') f))"

lemma stored_evolves:
  assumes "evolves ns tx txn txn'" and "stored sha256 ns tx txn f"
  shows "stored sha256 ns tx txn' f"
proof -
  obtain e a jv r where f: "f = JArray [JInt e, JInt a, jv, JInt (sint tx), JBool r]"
    "cmap txn (uint ns # 3 # 180 # e # a # (2 * sint tx + of_bool r) # val_rank sha256 jv) \<noteq> None"
    using assms(2) unfolding stored_def by blast
  moreover have "data_rank (uint ns # 3 # vs)" for vs by (simp add: data_rank_def)
  ultimately have "cmap txn' (uint ns # 3 # 180 # e # a # (2 * sint tx + of_bool r) # val_rank sha256 jv) \<noteq> None"
    using assms(1) unfolding evolves_def by blast
  then show ?thesis using f(1) unfolding stored_def by blast
qed

lemma tr_step_refl:
  "clive (tr_txn st) \<Longrightarrow> tree_inv (mt_tree (tr_txn st)) \<Longrightarrow> ids_inv nid st \<Longrightarrow> tr_step sha256 ns tx nid 0 st st"
  by (simp add: tr_step_def evolves_refl)

lemma tr_step_trans:
  assumes "tr_step sha256 ns tx nid m st st'" and "tr_step sha256 ns tx nid n st' st''"
  shows "tr_step sha256 ns tx nid (m + n) st st''"
proof -
  obtain fs gs where "tr_facts st' = tr_facts st @ fs" "\<forall>f \<in> set fs. stored sha256 ns tx (tr_txn st') f"
    "tr_facts st'' = tr_facts st' @ gs" "\<forall>f \<in> set gs. stored sha256 ns tx (tr_txn st'') f"
    using assms unfolding tr_step_def by blast
  moreover have "evolves ns tx (tr_txn st') (tr_txn st'')" using assms(2) by (simp add: tr_step_def)
  ultimately have "tr_facts st'' = tr_facts st @ (fs @ gs) \<and>
      (\<forall>f \<in> set (fs @ gs). stored sha256 ns tx (tr_txn st'') f)"
    using stored_evolves by auto
  moreover have "evolves ns tx (tr_txn st) (tr_txn st'')"
    using assms evolves_trans unfolding tr_step_def by blast
  moreover have "map_of (tr_new_ids st) \<subseteq>\<^sub>m map_of (tr_new_ids st'')"
    using assms map_le_trans unfolding tr_step_def by blast
  ultimately show ?thesis using assms unfolding tr_step_def by force
qed

lemma sint_tx:
  assumes "0 \<le> sint tx" and "sint tx < 2 ^ 29"
  shows "sint (push_bit 1 tx + (if r then 1 else 0) :: i64) = 2 * sint tx + of_bool r"
proof -
  have "push_bit 1 tx + (if r then 1 else 0) = word_of_int (2 * sint tx + of_bool r)"
    by (simp add: push_bit_eq_mult)
  moreover have "sint (word_of_int (2 * sint tx + of_bool r) :: i64) = 2 * sint tx + of_bool r"
    using assms by (intro sint_word_of_int_64) auto
  ultimately show ?thesis by (simp only:)
qed

lemma store_fact_step:
  assumes "clive (tr_txn st)" and "tree_inv (mt_tree (tr_txn st))" and "ids_inv nid st" and "ns_ok ns"
    and tx: "0 \<le> sint tx" "sint tx < 2 ^ 29" and e: "0 < sint e" "in_window e" and a: "in_window a"
    and ck: "value_key ns ck val" "value_rank ck = val_rank sha256 jv"
    and st': "store_fact e_unique ns tx e a retract ck val jv st = Some st'"
  shows "tr_step sha256 ns tx nid 0 st st'"
proof -
  let ?ck = "ck\<lparr>ck_e := e, ck_a := a\<rparr>"
  let ?k = "?ck\<lparr>ck_t := push_bit 1 tx + (if retract then 1 else 0)\<rparr>"
  obtain txn1 where u: "(if a \<in> set e_unique then check_unique ns ?ck e retract (tr_txn st)
      else Some (tr_txn st)) = Some txn1"
    using st' by (auto simp: store_fact_def Let_def split: option.splits)
  have ev1: "evolves ns tx (tr_txn st) txn1"
  proof (cases "a \<in> set e_unique")
    case True
    then show ?thesis
      using u check_unique_evolves [OF assms(1,2,4), of ?ck e retract txn1] a ck(1)
      by (simp add: value_key_def)
  next
    case False
    then show ?thesis using u evolves_refl [OF assms(1,2)] by simp
  qed
  have t: "sint (ck_t ?k) = 2 * sint tx + of_bool retract" using sint_tx [OF tx] by simp
  have "in_window (ck_t ?k)" by (rule in_windowI) (use t tx in auto)
  then have nk: "new_key ns tx ?k val"
    using t tx e a ck(1) assms(4) by (auto simp: new_key_def value_key_def key_ok_def ns_ok_def)
  have live1: "clive txn1" "tree_inv (mt_tree txn1)" using ev1 by (simp_all add: evolves_def)
  obtain txn2 where i: "insert_fact ?k val txn1 = Some txn2" "evolves ns tx txn1 txn2"
    "cmap txn2 (key_rank (?k\<lparr>ck_sort := SORT_EATV\<rparr>)) \<noteq> None"
    using insert_fact_evolves [OF live1 nk] by blast
  have s: "st' = st\<lparr>tr_txn := txn2, tr_facts := tr_facts st @
      [JArray [JInt (sint e), JInt (sint a), jv, JInt (sint tx), JBool retract]]\<rparr>"
    using st' u i(1) by (simp add: store_fact_def Let_def)
  have "value_rank (?k\<lparr>ck_sort := SORT_EATV\<rparr>) = val_rank sha256 jv"
    using ck(2) by simp
  then have "key_rank (?k\<lparr>ck_sort := SORT_EATV\<rparr>) =
      uint ns # 3 # 180 # sint e # sint a # (2 * sint tx + of_bool retract) # val_rank sha256 jv"
    using ck(1) t by (subst rank_EATV) (auto simp: value_key_def)
  then have "stored sha256 ns tx txn2 (JArray [JInt (sint e), JInt (sint a), jv, JInt (sint tx), JBool retract])"
    using i(3) unfolding stored_def by auto
  moreover have "ids_inv nid st'" using assms(3) by (simp add: s ids_inv_def)
  ultimately show ?thesis
    using evolves_trans [OF ev1 i(2)] by (simp add: tr_step_def s)
qed

lemma ids_tr_step:
  "ids_step nid n st st' \<Longrightarrow> clive (tr_txn st) \<Longrightarrow> tree_inv (mt_tree (tr_txn st)) \<Longrightarrow>
     tr_step sha256 ns tx nid n st st'"
  by (simp add: tr_step_def ids_step_def evolves_refl)

lemma fact_entity_step:
  assumes "ids_inv nid st" and nid: "0 < sint nid" "sint (tr_id st) + 2 < 2 ^ 30" and "in_window (GetInt64 x)"
    and fe: "fact_entity x st = Some (e, st1)"
  shows "ids_step nid 1 st st1 \<and> 0 < sint e \<and> in_window e"
proof (cases "sint (GetInt64 x) < 0")
  case True
  then have "resolve_tempid (GetInt64 x) st = (e, st1)"
    using fe by (auto simp: fact_entity_def Let_def split: if_splits)
  from resolve_tempid_step [OF assms(1) True _ this] nid
  have "ids_step nid 1 st st1" "sint nid \<le> sint e" "sint e < sint (tr_id st1)" by auto
  then show ?thesis using nid by (auto simp: ids_step_def intro: in_windowI)
next
  case False
  then have "e = GetInt64 x" "st1 = st" "\<not> sint e < sint db_initial_id"
    using fe by (auto simp: fact_entity_def Let_def split: if_splits)
  then show ?thesis
    using assms(4) ids_step_mono [OF ids_step_refl [OF assms(1)]] by auto
qed

lemma transact_fact_step:
  assumes "clive (tr_txn st)" and "tree_inv (mt_tree (tr_txn st))" and "ids_inv nid st" and "ns_ok ns"
    and tx: "0 \<le> sint tx" "sint tx < 2 ^ 29" and nid: "0 < sint nid" "sint (tr_id st) + 2 < 2 ^ 30"
    and v: "fact_ok sha256 v"
    and st': "transact_fact sha256 e_unique e_ref ns tx v st = Some st'"
  shows "tr_step sha256 ns tx nid 2 st st'"
proof -
  let ?x = "GetArray v"
  have four: "length ?x = 4" using st' by (auto simp: transact_fact_def Let_def split: if_splits)
  with v have w: "in_window (GetInt64 (?x ! 0))" "in_window (GetInt64 (?x ! 1))"
    "in_window (GetInt64 (?x ! 2))" "str_ok sha256 (GetString (?x ! 2))"
    by (simp_all add: fact_ok_def Let_def)
  obtain e st1 where fe: "fact_entity (?x ! 0) st = Some (e, st1)"
    using st' by (auto simp: transact_fact_def Let_def split: if_splits option.splits)
  have e: "ids_step nid 1 st st1 \<and> 0 < sint e \<and> in_window e"
    by (rule fact_entity_step [OF assms(3) nid w(1) fe])
  obtain fv st2 where fv: "fact_val sha256 e_ref (zero_key\<lparr>ck_ns := ns\<rparr>) (GetInt64 (?x ! 1)) (?x ! 2) st1 =
      Some (fv, st2)"
    using st' fe by (auto simp: transact_fact_def Let_def split: if_splits option.splits)
  have st1: "ids_inv nid st1" "sint (tr_id st1) + 1 < 2 ^ 30" "0 \<le> sint nid"
    using e nid by (auto simp: ids_step_def)
  have s2: "ids_step nid 1 st1 st2" by (rule fact_val_step(1) [OF st1(1,3,2) w(3,4) fv])
  have step: "ids_step nid 2 st st2" using ids_step_trans [OF _ s2, of 1 st] e by simp
  then have tr: "tr_step sha256 ns tx nid 2 st st2" by (rule ids_tr_step [OF _ assms(1,2)])
  show ?thesis
  proof (cases fv)
    case Skip
    then have "st' = st2" using st' fe fv by (auto simp: transact_fact_def Let_def split: if_splits)
    then show ?thesis using tr by simp
  next
    case (FactValue ck val jv)
    then have sf: "store_fact e_unique ns tx e (GetInt64 (?x ! 1))
        (IsInt64 (?x ! 3) \<and> GetInt64 (?x ! 3) \<noteq> 0) ck val jv st2 = Some st'"
      using st' fe fv by (auto simp: transact_fact_def Let_def split: if_splits)
    have "clive (tr_txn st2)" "tree_inv (mt_tree (tr_txn st2))" "ids_inv nid st2"
      using tr by (simp_all add: tr_step_def evolves_def)
    from store_fact_step [OF this assms(4) tx _ _ w(2) _ _ sf]
      fact_val_step(2) [OF st1(1,3,2) w(3,4) fv FactValue] e
    have "tr_step sha256 ns tx nid 0 st2 st'" by blast
    then have "tr_step sha256 ns tx nid (2 + 0) st st'" by (rule tr_step_trans [OF tr])
    then show ?thesis by simp
  qed
qed

lemma transact_facts_step:
  assumes "clive (tr_txn st)" and "tree_inv (mt_tree (tr_txn st))" and "ids_inv nid st" and "ns_ok ns"
    and tx: "0 \<le> sint tx" "sint tx < 2 ^ 29"
    and nid: "0 < sint nid" "sint (tr_id st) + 2 * int (length vs) < 2 ^ 30"
    and v: "\<forall>v \<in> set vs. fact_ok sha256 v"
    and st': "transact_facts sha256 e_unique e_ref ns tx vs st = Some st'"
  shows "tr_step sha256 ns tx nid (2 * int (length vs)) st st'"
  using assms(1-3) nid(2) v st'
proof (induction vs arbitrary: st)
  case Nil
  then show ?case by (simp add: tr_step_refl)
next
  case (Cons v vs)
  then obtain st1 where s1: "transact_fact sha256 e_unique e_ref ns tx v st = Some st1"
    "transact_facts sha256 e_unique e_ref ns tx vs st1 = Some st'" by (auto split: option.splits)
  have t1: "tr_step sha256 ns tx nid 2 st st1"
    by (rule transact_fact_step [OF Cons.prems(1-3) assms(4) tx nid(1) _ _ s1(1)])
      (use Cons.prems(4,5) in auto)
  then have "clive (tr_txn st1)" "tree_inv (mt_tree (tr_txn st1))" "ids_inv nid st1"
    "sint (tr_id st1) + 2 * int (length vs) < 2 ^ 30"
    using Cons.prems(4) by (simp_all add: tr_step_def evolves_def)
  then have "tr_step sha256 ns tx nid (2 * int (length vs)) st1 st'"
    using Cons.prems(5) s1(2) by (intro Cons.IH) auto
  then have "tr_step sha256 ns tx nid (2 + 2 * int (length vs)) st st'" by (rule tr_step_trans [OF t1])
  moreover have "2 * int (length (v # vs)) = 2 + 2 * int (length vs)" by simp
  ultimately show ?case by (simp only:)
qed


subsection \<open>The transaction\<close>

text \<open>What the whole transaction keeps; the counters of the namespace are not part of it.\<close>

definition keeps :: "namespace_t \<Rightarrow> transaction_t \<Rightarrow> ctxn \<Rightarrow> ctxn \<Rightarrow> bool" where
  "keeps ns tx txn txn' \<longleftrightarrow> clive txn' \<and> tree_inv (mt_tree txn') \<and>
     past ns tx (mt_tree txn') = past ns tx (mt_tree txn) \<and>
     (\<forall>r. data_rank r \<longrightarrow> cmap txn r \<noteq> None \<longrightarrow> cmap txn' r \<noteq> None)"

lemma evolves_keeps: "evolves ns tx txn txn' \<Longrightarrow> keeps ns tx txn txn'"
  by (simp add: evolves_def keeps_def)

lemma keeps_trans: "keeps ns tx txn txn' \<Longrightarrow> keeps ns tx txn' txn'' \<Longrightarrow> keeps ns tx txn txn''"
  unfolding keeps_def by presburger

lemma put_meta_keeps:
  assumes "clive txn" and "tree_inv (mt_tree txn)" and "ns_ok ns" and "in_window m"
  shows "\<exists>txn'. put_meta txn ns m val = (False, txn') \<and> keeps ns tx txn txn' \<and>
    cmap txn' = (cmap txn)([uint ns, 0, sint m] \<mapsto> i64_bytes val)"
proof -
  let ?k = "fill_meta_key zero_key ns m"
  have k: "key_ok ?k" using meta_key_ok [OF assms(3,4)] .
  obtain txn' where p: "mdb_put cmp txn ?k (i64_bytes val) 0 = (0, txn')"
    "upd_txn txn (key_rank ?k) (Some (i64_bytes val)) {?k} txn'"
    using put_upd [OF assms(1) k] by blast
  have "key_inv ?k" using k by (simp add: key_inv_def fill_meta_key_def)
  then have "tree_inv (mt_tree txn')" using upd_tree_inv [OF p(2) assms(2)] by simp
  moreover have "\<not> past_rank ns tx (key_rank ?k)" by (simp add: meta_key_rank)
  ultimately have "keeps ns tx txn txn'"
    using p(2) by (simp add: keeps_def upd_txn_def past_def)
  then show ?thesis using p by (auto simp: put_meta_def upd_txn_def meta_key_rank)
qed

lemma query_a_txn:
  assumes "clive txn" and "tree_inv (mt_tree txn)" and "ns_ok ns" and "in_window a"
  shows "\<exists>q. query_a txn ns tx a = (txn, q)"
  using query_a_batches [OF assms] by auto

definition room :: "transaction_t \<Rightarrow> entity_t \<Rightarrow> nat \<Rightarrow> bool" where
  "room tx nid n \<longleftrightarrow> 0 \<le> sint tx \<and> sint tx < 2 ^ 29 \<and> 0 < sint nid \<and> sint nid + 2 * int n < 2 ^ 30"

definition start_st :: "ctxn \<Rightarrow> entity_t \<Rightarrow> transact_st" where
  "start_st txn nid = \<lparr>tr_txn = txn, tr_id = nid, tr_new_ids = [], tr_facts = []\<rparr>"

definition uniques_at :: "ctxn \<Rightarrow> namespace_t \<Rightarrow> transaction_t \<Rightarrow> entity_t list" where
  "uniques_at txn ns tx =
     map d_e (filter (\<lambda>d. d_v d = db_unique_yes) (snd (query_a txn ns tx db_unique)))"

text \<open>The end of the transaction: the two counters.\<close>

definition finish :: "namespace_t \<Rightarrow> transaction_t \<Rightarrow> transact_st \<Rightarrow> (transaction_t \<times> transact_st) option" where
  "finish ns tx st =
     (let (failed, txn) = put_meta (tr_txn st) ns META_TX (tx + 1) in
      if failed then None
      else
        (let (failed, txn) = put_meta txn ns META_ID (tr_id st) in
         if failed then None else Some (tx, st\<lparr>tr_txn := txn\<rparr>)))"

lemma finish_live:
  assumes live: "clive (tr_txn st)" "tree_inv (mt_tree (tr_txn st))" and ns: "ns_ok ns"
  shows "\<exists>txn. finish ns tx st = Some (tx, st\<lparr>tr_txn := txn\<rparr>) \<and> keeps ns tx (tr_txn st) txn \<and>
    get_meta txn ns META_TX = Some (tx + 1) \<and> get_meta txn ns META_ID = Some (tr_id st)"
proof -
  obtain txn2 where p2: "put_meta (tr_txn st) ns META_TX (tx + 1) = (False, txn2)"
    "keeps ns tx (tr_txn st) txn2"
    "cmap txn2 = (cmap (tr_txn st))([uint ns, 0, sint META_TX] \<mapsto> i64_bytes (tx + 1))"
    using put_meta_keeps [OF live ns] by (metis META_TX_def in_window_numeral(1))
  have l2: "clive txn2" "tree_inv (mt_tree txn2)" using p2(2) by (simp_all add: keeps_def)
  obtain txn3 where p3: "put_meta txn2 ns META_ID (tr_id st) = (False, txn3)"
    "keeps ns tx txn2 txn3"
    "cmap txn3 = (cmap txn2)([uint ns, 0, sint META_ID] \<mapsto> i64_bytes (tr_id st))"
    using put_meta_keeps [OF l2 ns] by (metis META_ID_def in_window_numeral(2))
  have "clive txn3" using p3(2) by (simp add: keeps_def)
  then have "get_meta txn3 ns META_TX = Some (tx + 1)" "get_meta txn3 ns META_ID = Some (tr_id st)"
    using get_meta_live [of txn3 ns] ns p2(3) p3(3) by simp_all
  moreover have "finish ns tx st = Some (tx, st\<lparr>tr_txn := txn3\<rparr>)"
    using p2(1) p3(1) by (simp add: finish_def)
  ultimately show ?thesis using keeps_trans [OF p2(2) p3(2)] by blast
qed

lemma transact_body_eq:
  assumes live: "clive txn" "tree_inv (mt_tree txn)" and ns: "ns_ok ns"
    and m: "get_meta txn ns META_TX = Some tx" "get_meta txn ns META_ID = Some nid"
  shows "\<exists>e_ref. transact_body sha256 ns facts txn =
    (case transact_facts sha256 (uniques_at txn ns tx) e_ref ns tx facts (start_st txn nid) of
       None \<Rightarrow> None | Some st \<Rightarrow> finish ns tx st)"
proof -
  obtain q1 q2 q3 where q: "query_a txn ns tx db_unique = (txn, q1)"
    "query_a txn ns tx db_cardinality = (txn, q2)" "query_a txn ns tx db_type = (txn, q3)"
    using query_a_txn [OF live ns] by (metis db_unique_def db_cardinality_def db_type_def in_window_small(1-3))
  have u: "uniques_at txn ns tx = map d_e (filter (\<lambda>d. d_v d = db_unique_yes) q1)"
    by (simp only: uniques_at_def q snd_conv)
  have o: "mdb_cursor_open txn = (0, txn)"
    using live(1) by (simp add: mdb_cursor_open_def live_def next_fault_def)
  show ?thesis
    unfolding transact_body_def start_st_def m option.case Let_def q prod.case o u finish_def
    by (rule exI [of _ "map d_e q3"]) simp
qed

lemma transact_body_step:
  assumes live: "clive txn" "tree_inv (mt_tree txn)" and ns: "ns_ok ns"
    and m: "get_meta txn ns META_TX = Some tx" "get_meta txn ns META_ID = Some nid"
    and room: "room tx nid (length facts)" and facts: "\<forall>v \<in> set facts. fact_ok sha256 v"
    and body: "transact_body sha256 ns facts txn = Some (tx', st)"
  shows "tx' = tx \<and> keeps ns tx txn (tr_txn st) \<and> ids_inv nid st \<and>
    sint (tr_id st) \<le> sint nid + 2 * int (length facts) \<and>
    (\<forall>f \<in> set (tr_facts st). stored sha256 ns tx (tr_txn st) f) \<and>
    get_meta (tr_txn st) ns META_TX = Some (tx + 1) \<and> get_meta (tr_txn st) ns META_ID = Some (tr_id st)"
proof -
  obtain e_ref st1 where st1: "transact_facts sha256 (uniques_at txn ns tx) e_ref ns tx facts (start_st txn nid) = Some st1"
    "finish ns tx st1 = Some (tx', st)"
    using body transact_body_eq [OF live ns m, of sha256 facts] by (auto split: option.splits)
  have tr: "tr_step sha256 ns tx nid (2 * int (length facts)) (start_st txn nid) st1"
    by (rule transact_facts_step [OF _ _ _ ns _ _ _ _ facts st1(1)])
      (use live room in \<open>auto simp: start_st_def ids_inv_def room_def\<close>)
  then have l1: "clive (tr_txn st1)" "tree_inv (mt_tree (tr_txn st1))" "keeps ns tx txn (tr_txn st1)"
    using evolves_keeps by (auto simp: tr_step_def start_st_def evolves_def keeps_def)
  obtain txn3 where f: "tx' = tx" "st = st1\<lparr>tr_txn := txn3\<rparr>" "keeps ns tx (tr_txn st1) txn3"
    "get_meta txn3 ns META_TX = Some (tx + 1)" "get_meta txn3 ns META_ID = Some (tr_id st1)"
    using finish_live [OF l1(1,2) ns, of tx] st1(2) by auto
  have "stored sha256 ns tx txn3 f" if "stored sha256 ns tx (tr_txn st1) f" for f
    using that f(3) unfolding stored_def keeps_def data_rank_def by blast
  moreover have "\<forall>f \<in> set (tr_facts st1). stored sha256 ns tx (tr_txn st1) f"
    using tr by (auto simp: tr_step_def start_st_def)
  ultimately have "\<forall>f \<in> set (tr_facts st). stored sha256 ns tx (tr_txn st) f" by (simp add: f(2))
  moreover have "ids_inv nid st" "sint (tr_id st) \<le> sint nid + 2 * int (length facts)"
    using tr by (simp_all add: tr_step_def start_st_def f(2) ids_inv_def)
  ultimately show ?thesis using keeps_trans [OF l1(3) f(3)] f by simp
qed

subsection \<open>The request\<close>

lemma mdb_txn_commit_env:
  "mdb_txn_commit env txn = (rc, env') \<Longrightarrow> env' = (if rc = 0 then env\<lparr>me_tree := mt_tree txn\<rparr> else env)"
  by (auto simp: mdb_txn_commit_def next_fault_def split: if_splits list.splits)

text \<open>A transact request either leaves the database as it was and answers with the error, or commits.\<close>

lemma handle_transact_cases:
  "handle_transact sha256 env faults arg ns = (env, perror) \<or>
   (\<exists>doc txn tx st. parse_argument arg = Some doc \<and> IsArray doc \<and> mdb_txn_begin env faults = (0, txn) \<and>
      transact_body sha256 ns (GetArray doc) txn = Some (tx, st) \<and>
      handle_transact sha256 env faults arg ns =
        (env\<lparr>me_tree := mt_tree (tr_txn st)\<rparr>,
         [Write (make_response (transact_response tx st)),
          Publish ns (make_response (transact_event (transact_response tx st))), ReadRequest]))"
proof -
  obtain rc txn where b: "mdb_txn_begin env faults = (rc, txn)" by fastforce
  show ?thesis
  proof (cases "\<exists>doc. parse_argument arg = Some doc \<and> IsArray doc \<and> GetArray doc \<noteq> [] \<and> rc = 0 \<and>
      transact_body sha256 ns (GetArray doc) txn \<noteq> None")
    case False
    then show ?thesis
      by (auto simp: handle_transact_def b mdb_txn_abort_def split: option.split)
  next
    case True
    then obtain doc tx st where d: "parse_argument arg = Some doc" "IsArray doc" "GetArray doc \<noteq> []" "rc = 0"
      "transact_body sha256 ns (GetArray doc) txn = Some (tx, st)" by fastforce
    obtain rc' env' where m: "mdb_txn_commit env (tr_txn st) = (rc', env')" by fastforce
    have h: "handle_transact sha256 env faults arg ns = (if rc' \<noteq> 0 then (env', perror) else
        (env', [Write (make_response (transact_response tx st)),
          Publish ns (make_response (transact_event (transact_response tx st))), ReadRequest]))"
      by (simp add: handle_transact_def d b m mdb_txn_abort_def Let_def)
    show ?thesis
    proof (cases "rc' = 0")
      case True
      then have "env' = env\<lparr>me_tree := mt_tree (tr_txn st)\<rparr>" using mdb_txn_commit_env [OF m] by simp
      then show ?thesis using h d b True by simp
    next
      case False
      then show ?thesis using h mdb_txn_commit_env [OF m] by simp
    qed
  qed
qed

text \<open>A request on which the window does not run out.\<close>

definition transact_ok :: "(bytes \<Rightarrow> bytes option) \<Rightarrow> cenv \<Rightarrow> namespace_t \<Rightarrow> transaction_t \<Rightarrow> entity_t \<Rightarrow> json \<Rightarrow> bool" where
  "transact_ok sha256 env ns tx nid doc \<longleftrightarrow>
     tree_inv (me_tree env) \<and> ns_ok ns \<and> get_meta (begun env) ns META_TX = Some tx \<and>
     get_meta (begun env) ns META_ID = Some nid \<and> room tx nid (length (GetArray doc)) \<and>
     (\<forall>v \<in> set (GetArray doc). fact_ok sha256 v)"

lemma handle_transact_step:
  assumes "transact_ok sha256 env ns tx nid doc" and "parse_argument arg = Some doc"
  shows "handle_transact sha256 env [] arg ns = (env, perror) \<or>
    (\<exists>st. handle_transact sha256 env [] arg ns =
        (env\<lparr>me_tree := mt_tree (tr_txn st)\<rparr>,
         [Write (make_response (transact_response tx st)),
          Publish ns (make_response (transact_event (transact_response tx st))), ReadRequest]) \<and>
      keeps ns tx (begun env) (tr_txn st) \<and> ids_inv nid st \<and>
      sint (tr_id st) \<le> sint nid + 2 * int (length (GetArray doc)) \<and>
      (\<forall>f \<in> set (tr_facts st). stored sha256 ns tx (tr_txn st) f) \<and>
      get_meta (tr_txn st) ns META_TX = Some (tx + 1) \<and> get_meta (tr_txn st) ns META_ID = Some (tr_id st))"
  using handle_transact_cases [of sha256 env "[]" arg ns]
proof
  assume "\<exists>doc' txn tx' st. parse_argument arg = Some doc' \<and> IsArray doc' \<and> mdb_txn_begin env [] = (0, txn) \<and>
      transact_body sha256 ns (GetArray doc') txn = Some (tx', st) \<and>
      handle_transact sha256 env [] arg ns =
        (env\<lparr>me_tree := mt_tree (tr_txn st)\<rparr>,
         [Write (make_response (transact_response tx' st)),
          Publish ns (make_response (transact_event (transact_response tx' st))), ReadRequest])"
  then obtain tx' st where b: "transact_body sha256 ns (GetArray doc) (begun env) = Some (tx', st)"
    "handle_transact sha256 env [] arg ns =
        (env\<lparr>me_tree := mt_tree (tr_txn st)\<rparr>,
         [Write (make_response (transact_response tx' st)),
          Publish ns (make_response (transact_event (transact_response tx' st))), ReadRequest])"
    using assms(2) by (auto simp: mdb_txn_begin_live)
  have "tree_inv (mt_tree (begun env))" "clive (begun env)"
    using assms(1) begun_live by (auto simp: transact_ok_def)
  from transact_body_step [OF this(2,1) _ _ _ _ _ b(1)] assms(1) b(2) show ?thesis
    unfolding transact_ok_def by blast
qed simp

lemma committed_meta:
  assumes "clive txn" and "ns_ok ns" and "in_window i"
  shows "get_meta (begun (env\<lparr>me_tree := mt_tree txn\<rparr>)) ns i = get_meta txn ns i"
proof -
  have "clive (begun (env\<lparr>me_tree := mt_tree txn\<rparr>))" using assms(1) by (simp add: begun_def live_def)
  then show ?thesis using assms get_meta_live by simp
qed

subsection \<open>History\<close>

lemma past_facts_log:
  assumes "tree_inv t" and "ns' \<noteq> ns \<or> sint (push_bit 1 tx' + 1) < 2 * sint tx"
  shows "facts_log t ns' tx' = facts_log (past ns tx t) ns' tx'"
proof -
  have "past_rank ns tx (key_rank (fst x))"
    if "x \<in> set t" "in_EATV ns' x" "sint (ck_t (fst x)) \<le> sint (push_bit 1 tx' + 1)" for x
    using that assms by (auto simp: in_EATV_def rank_EATV)
  then show ?thesis unfolding facts_log_def past_def filter_filter by (intro filter_cong) auto
qed

lemma past_attr_log:
  assumes "tree_inv t" and "ns' \<noteq> ns \<or> sint (push_bit 1 tx' + 1) < 2 * sint tx"
  shows "attr_log t ns' a tx' = attr_log (past ns tx t) ns' a tx'"
proof -
  have "past_rank ns tx (key_rank (fst x))"
    if "x \<in> set t" "in_AETV ns' a x" "sint (ck_t (fst x)) \<le> sint (push_bit 1 tx' + 1)" for x
    using that assms by (auto simp: in_AETV_def rank_AETV)
  then show ?thesis unfolding attr_log_def past_def filter_filter by (intro filter_cong) auto
qed

text \<open>The instants a transaction of \<open>ns\<close> at \<open>tx\<close> does not change.\<close>

definition before :: "namespace_t \<Rightarrow> transaction_t \<Rightarrow> namespace_t \<Rightarrow> transaction_t \<Rightarrow> bool" where
  "before ns tx ns' tx' \<longleftrightarrow> ns' \<noteq> ns \<or> 0 \<le> sint tx' \<and> sint tx' < sint tx"

lemma before_past:
  assumes "before ns tx ns' tx'" and "sint tx < 2 ^ 29"
  shows "ns' \<noteq> ns \<or> sint (push_bit 1 tx' + 1) < 2 * sint tx"
  using assms sint_tx [of tx' True] by (auto simp: before_def)

lemma handle_transact_history:
  assumes "transact_ok sha256 env ns tx nid doc" and "parse_argument arg = Some doc"
    and "handle_transact sha256 env [] arg ns = (env', acts)"
  shows "tree_inv (me_tree env')" and "me_junk env' = me_junk env"
    and "past ns tx (me_tree env') = past ns tx (me_tree env)"
    and "\<And>r. data_rank r \<Longrightarrow> cmap (begun env) r \<noteq> None \<Longrightarrow> cmap (begun env') r \<noteq> None"
  using handle_transact_step [OF assms(1,2)] assms(1,3)
  by (auto simp: keeps_def transact_ok_def)

lemma history_logs:
  assumes "transact_ok sha256 env ns tx nid doc" and "parse_argument arg = Some doc"
    and "handle_transact sha256 env [] arg ns = (env', acts)" and "before ns tx ns' tx'"
  shows "facts_log (me_tree env') ns' tx' = facts_log (me_tree env) ns' tx'"
    and "attr_log (me_tree env') ns' a tx' = attr_log (me_tree env) ns' a tx'"
proof -
  note h = handle_transact_history [OF assms(1-3)]
  have tx: "sint tx < 2 ^ 29" and inv: "tree_inv (me_tree env)"
    using assms(1) by (simp_all add: transact_ok_def room_def)
  note b = before_past [OF assms(4) tx]
  show "facts_log (me_tree env') ns' tx' = facts_log (me_tree env) ns' tx'"
    using past_facts_log [OF h(1) b] past_facts_log [OF inv b] h(3) by simp
  show "attr_log (me_tree env') ns' a tx' = attr_log (me_tree env) ns' a tx'"
    using past_attr_log [OF h(1) b] past_attr_log [OF inv b] h(3) by simp
qed

lemma history_query_a:
  assumes "transact_ok sha256 env ns tx nid doc" and "parse_argument arg = Some doc"
    and "handle_transact sha256 env [] arg ns = (env', acts)" and "before ns tx ns' tx'"
    and "ns_ok ns'" and "in_window a"
  shows "snd (query_a (begun env') ns' tx' a) = snd (query_a (begun env) ns' tx' a)"
proof -
  note h = handle_transact_history [OF assms(1-3)]
  have inv: "tree_inv (mt_tree (begun env))" "tree_inv (mt_tree (begun env'))" "junk_i64 (begun env') = junk_i64 (begun env)"
    using assms(1) h(1,2) by (simp_all add: transact_ok_def junk_i64_def begun_def)
  have "clive (begun env)" "clive (begun env')" using inv begun_live by auto
  then show ?thesis
    using query_a_batches [OF _ inv(1) assms(5,6), of tx'] query_a_batches [OF _ inv(2) assms(5,6), of tx']
      history_logs(2) [OF assms(1-4)] inv(3) by simp
qed

lemma history_facts:
  assumes "transact_ok sha256 env ns tx nid doc" and "parse_argument arg = Some doc"
    and "handle_transact sha256 env [] arg ns = (env', acts)" and "before ns tx ns' tx'"
    and "ns_ok ns'" and "parse_argument arg' = Some (JInt (sint tx'))" and "0 \<le> sint tx'"
    and "x \<in> set (me_tree env)" and "in_EATV ns' x"
  shows "handle_facts env' [] arg' ns' = handle_facts env [] arg' ns'"
proof -
  note h = handle_transact_history [OF assms(1-3)]
  have inv: "tree_inv (me_tree env)" using assms(1) by (simp add: transact_ok_def)
  have i: "IsInt64 (JInt (sint tx'))" "GetInt64 (JInt (sint tx')) = tx'"
    using sint_i64_ge [of tx'] sint_less [of tx'] by (simp_all add: IsInt64_def GetInt64_def)
  then have asked: "asked_tx e ns' (JInt (sint tx')) = Some tx'" for e
    using assms(7) by (simp add: asked_tx_def)
  have "key_inv (fst x)" using inv assms(8) by (simp add: tree_inv_def)
  then have "data_rank (key_rank (fst x))" using assms(9) by (intro data_rank_key) (simp add: in_EATV_def)
  moreover have "cmap (begun env) (key_rank (fst x)) \<noteq> None"
    using assms(8) by (auto simp: ck.tree_map_None)
  ultimately have "cmap (begun env') (key_rank (fst x)) \<noteq> None" using h(4) by blast
  then obtain y where y: "y \<in> set (me_tree env')" "key_rank (fst y) = key_rank (fst x)"
    by (auto simp: ck.tree_map_None)
  have "key_inv (fst y)" using h(1) y(1) by (simp add: tree_inv_def)
  then have y': "in_EATV ns' y"
    using y(2) assms(9) in_EATV_rank [of y ns'] in_EATV_rank [OF \<open>key_inv (fst x)\<close>, of ns'] by simp
  have "many_at env' ns' tx' = many_at env ns' tx'"
    using history_query_a [OF assms(1-5), of db_cardinality] by (simp add: many_at_def)
  moreover have "facts_at (me_tree env') ns' tx' m = facts_at (me_tree env) ns' tx' m" for m
    using history_logs(1) [OF assms(1-4)] by (simp add: facts_at_def)
  ultimately show ?thesis
    using handle_facts_live [OF inv assms(5,6) i(1) asked assms(8,9)]
      handle_facts_live [OF h(1) assms(5,6) i(1) asked y(1) y'] by simp
qed

subsection \<open>Requests that commit\<close>

text \<open>A fact the handler does not reject for its form.\<close>

definition wf_fact :: "(bytes \<Rightarrow> bytes option) \<Rightarrow> json \<Rightarrow> bool" where
  "wf_fact sha256 v \<longleftrightarrow>
     (let eav = GetArray v in IsArray v \<and> length eav = 4 \<and> IsInt64 (eav ! 0) \<and> IsInt64 (eav ! 1) \<and>
        (sint (GetInt64 (eav ! 0)) < 0 \<or> sint db_initial_id \<le> sint (GetInt64 (eav ! 0))) \<and>
        (32 < length (GetString (eav ! 2)) \<longrightarrow> sha256 (GetString (eav ! 2)) \<noteq> None))"

lemma store_fact_some:
  assumes "clive (tr_txn st)" and "tree_inv (mt_tree (tr_txn st))" and "ns_ok ns"
    and tx: "0 \<le> sint tx" "sint tx < 2 ^ 29" and e: "0 < sint e" "in_window e" and a: "in_window a"
    and ck: "value_key ns ck val" and u: "a \<notin> set e_unique"
  shows "store_fact e_unique ns tx e a retract ck val jv st \<noteq> None"
proof -
  let ?k = "ck\<lparr>ck_e := e, ck_a := a, ck_t := push_bit 1 tx + (if retract then 1 else 0)\<rparr>"
  have t: "sint (ck_t ?k) = 2 * sint tx + of_bool retract" using sint_tx [OF tx] by simp
  have "in_window (ck_t ?k)" by (rule in_windowI) (use t tx in auto)
  then have "new_key ns tx ?k val"
    using t tx e a ck assms(3) by (auto simp: new_key_def value_key_def key_ok_def ns_ok_def)
  then obtain txn' where "insert_fact ?k val (tr_txn st) = Some txn'"
    using insert_fact_evolves [OF assms(1,2)] by blast
  then show ?thesis using u unfolding store_fact_def Let_def by simp
qed

lemma transact_fact_some:
  assumes "clive (tr_txn st)" and "tree_inv (mt_tree (tr_txn st))" and "ids_inv nid st" and "ns_ok ns"
    and tx: "0 \<le> sint tx" "sint tx < 2 ^ 29" and nid: "0 < sint nid" "sint (tr_id st) + 2 < 2 ^ 30"
    and v: "fact_ok sha256 v" "wf_fact sha256 v" and u: "GetInt64 (GetArray v ! 1) \<notin> set e_unique"
  shows "transact_fact sha256 e_unique e_ref ns tx v st \<noteq> None"
proof -
  let ?x = "GetArray v"
  have w: "in_window (GetInt64 (?x ! 0))" "in_window (GetInt64 (?x ! 1))"
    "in_window (GetInt64 (?x ! 2))" "str_ok sha256 (GetString (?x ! 2))"
    "IsArray v" "length ?x = 4" "IsInt64 (?x ! 0)" "IsInt64 (?x ! 1)"
    "sint (GetInt64 (?x ! 0)) < 0 \<or> sint db_initial_id \<le> sint (GetInt64 (?x ! 0))"
    "32 < length (GetString (?x ! 2)) \<longrightarrow> sha256 (GetString (?x ! 2)) \<noteq> None"
    using v by (simp_all add: fact_ok_def wf_fact_def Let_def)
  obtain e st1 where fe: "fact_entity (?x ! 0) st = Some (e, st1)"
    using w(7,9) by (cases "resolve_tempid (GetInt64 (?x ! 0)) st") (auto simp: fact_entity_def Let_def)
  have e: "ids_step nid 1 st st1" "0 < sint e" "in_window e"
    using fact_entity_step [OF assms(3) nid w(1) fe] by auto
  have "fact_val sha256 e_ref (zero_key\<lparr>ck_ns := ns\<rparr>) (GetInt64 (?x ! 1)) (?x ! 2) st1 \<noteq> None"
    using w(10) by (auto simp: fact_val_def Let_def string_value_def split: prod.split option.split)
  then obtain fv st2 where fv: "fact_val sha256 e_ref (zero_key\<lparr>ck_ns := ns\<rparr>) (GetInt64 (?x ! 1)) (?x ! 2) st1 =
      Some (fv, st2)" by auto
  have st1: "ids_inv nid st1" "sint (tr_id st1) + 1 < 2 ^ 30" "0 \<le> sint nid"
    using e nid by (auto simp: ids_step_def)
  have s2: "tr_txn st2 = tr_txn st"
    using fact_val_step(1) [OF st1(1,3,2) w(3,4) fv] e(1) by (simp add: ids_step_def)
  show ?thesis
  proof (cases fv)
    case Skip
    then show ?thesis using w(5,6,8) fe fv by (simp add: transact_fact_def Let_def)
  next
    case (FactValue ck val jv)
    then have "value_key ns ck val" using fact_val_step(2) [OF st1(1,3,2) w(3,4) fv FactValue] by simp
    then have "store_fact e_unique ns tx e (GetInt64 (?x ! 1)) r ck val jv st2 \<noteq> None" for r
      using store_fact_some [OF _ _ assms(4) tx e(2,3) w(2) _ u] assms(1,2) s2 by simp
    then show ?thesis using w(5,6,8) fe fv FactValue by (simp add: transact_fact_def Let_def)
  qed
qed

lemma transact_facts_some:
  assumes "clive (tr_txn st)" and "tree_inv (mt_tree (tr_txn st))" and "ids_inv nid st" and "ns_ok ns"
    and tx: "0 \<le> sint tx" "sint tx < 2 ^ 29"
    and nid: "0 < sint nid" "sint (tr_id st) + 2 * int (length vs) < 2 ^ 30"
    and v: "\<forall>v \<in> set vs. fact_ok sha256 v \<and> wf_fact sha256 v \<and> GetInt64 (GetArray v ! 1) \<notin> set e_unique"
  shows "transact_facts sha256 e_unique e_ref ns tx vs st \<noteq> None"
  using assms(1-3) nid(2) v
proof (induction vs arbitrary: st)
  case Nil
  then show ?case by simp
next
  case (Cons v vs)
  have room: "sint (tr_id st) + 2 < 2 ^ 30" using Cons.prems(4) by simp
  then obtain st1 where s1: "transact_fact sha256 e_unique e_ref ns tx v st = Some st1"
    using transact_fact_some [OF Cons.prems(1-3) assms(4) tx nid(1)] Cons.prems(5) by fastforce
  have "tr_step sha256 ns tx nid 2 st st1"
    using transact_fact_step [OF Cons.prems(1-3) assms(4) tx nid(1) room _ s1] Cons.prems(5) by simp
  then have "transact_facts sha256 e_unique e_ref ns tx vs st1 \<noteq> None"
    using Cons.prems(4,5) by (intro Cons.IH) (auto simp: tr_step_def evolves_def)
  then show ?case using s1 by simp
qed

lemma handle_transact_commits:
  assumes ok: "transact_ok sha256 env ns tx nid doc" and doc: "parse_argument arg = Some doc" "IsArray doc" "GetArray doc \<noteq> []"
    and v: "\<forall>v \<in> set (GetArray doc). wf_fact sha256 v \<and>
      GetInt64 (GetArray v ! 1) \<notin> set (uniques_at (begun env) ns tx)"
  shows "snd (handle_transact sha256 env [] arg ns) \<noteq> perror"
proof -
  let ?txn = "begun env"
  have live: "clive ?txn" "tree_inv (mt_tree ?txn)" and ns: "ns_ok ns"
    and m: "get_meta ?txn ns META_TX = Some tx" "get_meta ?txn ns META_ID = Some nid"
    and room: "room tx nid (length (GetArray doc))" and facts: "\<forall>v \<in> set (GetArray doc). fact_ok sha256 v"
    using ok begun_live by (auto simp: transact_ok_def)
  obtain e_ref where body: "transact_body sha256 ns (GetArray doc) ?txn =
      (case transact_facts sha256 (uniques_at ?txn ns tx) e_ref ns tx (GetArray doc) (start_st ?txn nid) of
         None \<Rightarrow> None | Some st \<Rightarrow> finish ns tx st)"
    using transact_body_eq [OF live ns m] by blast
  have pre: "ids_inv nid (start_st ?txn nid)" "tr_txn (start_st ?txn nid) = ?txn"
    "tr_id (start_st ?txn nid) = nid" by (simp_all add: start_st_def ids_inv_def)
  have "transact_facts sha256 (uniques_at ?txn ns tx) e_ref ns tx (GetArray doc) (start_st ?txn nid) \<noteq> None"
    by (rule transact_facts_some [where nid = nid]) (use pre live ns room facts v in \<open>auto simp: room_def\<close>)
  then obtain st1 where st1: "transact_facts sha256 (uniques_at ?txn ns tx) e_ref ns tx (GetArray doc)
      (start_st ?txn nid) = Some st1" by blast
  have "tr_step sha256 ns tx nid (2 * int (length (GetArray doc))) (start_st ?txn nid) st1"
    by (rule transact_facts_step [OF _ _ _ ns _ _ _ _ facts st1]) (use pre live room in \<open>auto simp: room_def\<close>)
  then have l1: "clive (tr_txn st1)" "tree_inv (mt_tree (tr_txn st1))" by (simp_all add: tr_step_def evolves_def)
  obtain txn3 where f: "finish ns tx st1 = Some (tx, st1\<lparr>tr_txn := txn3\<rparr>)" "keeps ns tx (tr_txn st1) txn3"
    using finish_live [OF l1 ns] by blast
  have "clive txn3" using f(2) by (simp add: keeps_def)
  then have "mdb_txn_commit env txn3 = (0, env\<lparr>me_tree := mt_tree txn3\<rparr>)"
    by (simp add: mdb_txn_commit_def live_def next_fault_def)
  then show ?thesis
    using body st1 f(1) doc by (simp add: handle_transact_def mdb_txn_begin_live perror_def Let_def)
qed

end
