(* ===== verification/Channel.thy ===== *)
theory Channel
  imports Nstore_Prelude Keys
begin

text \<open>
  channel.cpp: the registry of the sessions that listen on a namespace. A session
  is a number, its identity; the map from namespaces to sets keeps an entry once
  it was created.
\<close>

type_synonym members = "namespace_t \<rightharpoonup> nat set"

definition join :: "namespace_t \<Rightarrow> nat \<Rightarrow> members \<Rightarrow> members" where
  "join ns member ms =
     (let ms = (if ms ns = None then ms(ns \<mapsto> {}) else ms) in
      case ms ns of None \<Rightarrow> ms | Some s \<Rightarrow> ms(ns \<mapsto> insert member s))"

definition leave :: "namespace_t \<Rightarrow> nat \<Rightarrow> members \<Rightarrow> members" where
  "leave ns member ms =
     (case ms ns of None \<Rightarrow> ms | Some s \<Rightarrow> ms(ns \<mapsto> s - {member}))"

text \<open>The sessions \<open>publish\<close> writes the message to.\<close>

definition publish_to :: "namespace_t \<Rightarrow> nat \<Rightarrow> members \<Rightarrow> nat set" where
  "publish_to ns from ms = (case ms ns of None \<Rightarrow> {} | Some s \<Rightarrow> {m \<in> s. m \<noteq> from})"

definition clear_members :: "members \<Rightarrow> members" where
  "clear_members ms = Map.empty"

text \<open>
  What the server relies on: membership of the channels after each operation, and
  that a message does not come back to its sender.
\<close>

locale pubsub =
  fixes joins :: "'n \<Rightarrow> 'm \<Rightarrow> 's \<Rightarrow> 's"
    and leaves :: "'n \<Rightarrow> 'm \<Rightarrow> 's \<Rightarrow> 's"
    and receivers :: "'n \<Rightarrow> 'm \<Rightarrow> 's \<Rightarrow> 'm set"
    and none :: 's
  assumes receivers_join:
      "receivers n from (joins n' m s) = receivers n from s \<union> (if n' = n \<and> m \<noteq> from then {m} else {})"
    and receivers_leave:
      "receivers n from (leaves n' m s) = receivers n from s - (if n' = n then {m} else {})"
    and receivers_none: "receivers n from none = {}"
begin

lemma sender_not_receiver: "from \<in> receivers n from (joins n' m s) \<longleftrightarrow> from \<in> receivers n from s"
  by (auto simp: receivers_join)

lemma joined_receives: "m \<noteq> from \<Longrightarrow> m \<in> receivers n from (joins n m s)"
  by (simp add: receivers_join)

lemma left_not_receives: "m \<notin> receivers n from (leaves n m s)"
  by (simp add: receivers_leave)

text \<open>The receivers after a sequence of joins and leaves: those whose last one was a join.\<close>

definition run :: "(bool \<times> 'n \<times> 'm) list \<Rightarrow> 's" where
  "run ops = foldl (\<lambda>s (b, n, m). if b then joins n m s else leaves n m s) none ops"

lemma receivers_run:
  "m \<in> receivers n from (run ops) \<longleftrightarrow>
     m \<noteq> from \<and> (\<exists>ops1 ops2. ops = ops1 @ (True, n, m) # ops2 \<and> (False, n, m) \<notin> set ops2)"
proof (induction ops rule: rev_induct)
  case Nil
  show ?case by (simp add: run_def receivers_none)
next
  case (snoc x ops)
  obtain b n' m' where x: "x = (b, n', m')" by (cases x) auto
  have run: "run (ops @ [x]) = (if b then joins n' m' (run ops) else leaves n' m' (run ops))"
    by (simp add: run_def x)
  have ex: "(\<exists>ops1 ops2. ops @ [x] = ops1 @ (True, n, m) # ops2 \<and> (False, n, m) \<notin> set ops2) \<longleftrightarrow>
      x = (True, n, m) \<or> x \<noteq> (False, n, m) \<and>
      (\<exists>ops1 ops2. ops = ops1 @ (True, n, m) # ops2 \<and> (False, n, m) \<notin> set ops2)" (is "?L \<longleftrightarrow> ?R")
  proof
    assume ?L
    then obtain o1 o2 where o: "ops @ [x] = o1 @ (True, n, m) # o2" "(False, n, m) \<notin> set o2" by blast
    show ?R
    proof (cases o2 rule: rev_cases)
      case Nil
      then show ?thesis using o(1) by simp
    next
      case (snoc o3 y)
      then have "ops = o1 @ (True, n, m) # o3" "y = x" using o(1) by simp_all
      then show ?thesis using o(2) snoc by auto
    qed
  next
    assume ?R
    then show ?L
    proof
      assume "x = (True, n, m)"
      then have "ops @ [x] = ops @ (True, n, m) # []" by simp
      then show ?L by (metis empty_iff list.set(1))
    next
      assume "x \<noteq> (False, n, m) \<and>
        (\<exists>ops1 ops2. ops = ops1 @ (True, n, m) # ops2 \<and> (False, n, m) \<notin> set ops2)"
      then obtain o1 o2 where "ops @ [x] = o1 @ (True, n, m) # (o2 @ [x])"
        "(False, n, m) \<notin> set (o2 @ [x])" by auto
      then show ?L by blast
    qed
  qed
  show ?case unfolding run ex using snoc.IH by (auto simp: x receivers_join receivers_leave)
qed

end

interpretation ch: pubsub join leave publish_to Map.empty
  by unfold_locales (auto simp: join_def leave_def publish_to_def Let_def split: option.split)

end
