(* ===== verification/Session.thy ===== *)
theory Session
  imports Handlers Channel
begin

text \<open>
  session.cpp: one connection. The record holds the members of the class; the
  asynchronous operations of asio that are under way are counted
  (\<open>s_reads\<close>, \<open>s_writes\<close>), so that it can be stated that there is never more than
  one of each. \<open>s_sent\<close> and \<open>s_delivered\<close> are not part of the program: the
  messages handed to \<open>write\<close>, and those asio has written to the socket.
\<close>

record session =
  s_ns :: namespace_t
  s_uid :: u64
  s_data :: bytes
  s_arg :: bytes
  s_queue :: "bytes list"
  s_reads :: nat
  s_writes :: nat
  s_sent :: "bytes list"
  s_delivered :: "bytes list"

definition new_session :: "nat \<Rightarrow> session" where
  "new_session next_uid = \<lparr>s_ns = 0, s_uid = of_nat next_uid, s_data = [], s_arg = [], s_queue = [],
     s_reads = 0, s_writes = 0, s_sent = [], s_delivered = []\<rparr>"

subsection \<open>Writing\<close>

text \<open>\<open>do_write\<close> starts the write of the front of the queue.\<close>

definition do_write :: "session \<Rightarrow> session" where
  "do_write s = s\<lparr>s_writes := s_writes s + 1\<rparr>"

definition session_write :: "bytes \<Rightarrow> session \<Rightarrow> session" where
  "session_write msg s =
     (let write_in_progress = (s_queue s \<noteq> []);
          s = s\<lparr>s_queue := s_queue s @ [msg], s_sent := s_sent s @ [msg]\<rparr>
      in if \<not> write_in_progress then do_write s else s)"

text \<open>The completion of a write that succeeded.\<close>

definition write_done :: "session \<Rightarrow> session" where
  "write_done s =
     (let s = s\<lparr>s_writes := s_writes s - 1, s_delivered := s_delivered s @ take 1 (s_queue s),
            s_queue := tl (s_queue s)\<rparr>
      in if s_queue s \<noteq> [] then do_write s else s)"

subsection \<open>Reading\<close>

definition read_request :: "session \<Rightarrow> session" where
  "read_request s = s\<lparr>s_reads := s_reads s + 1\<rparr>"

text \<open>Whether the buffer holds the delimiter \<open>async_read_until\<close> waits for.\<close>

fun has_EOL :: "bytes \<Rightarrow> bool" where
  "has_EOL (a # b # cs) = (a = CHR 0x0D \<and> b = CHR 0x0A \<or> has_EOL (b # cs))"
| "has_EOL _ = False"

text \<open>\<open>std::getline\<close>: the characters before the first newline, and what follows it.\<close>

definition getline :: "bytes \<Rightarrow> bytes \<times> bytes" where
  "getline d = (takeWhile (\<lambda>c. c \<noteq> CHR 0x0A) d, tl (dropWhile (\<lambda>c. c \<noteq> CHR 0x0A) d))"

text \<open>The completion of a read: the next line becomes the argument.\<close>

definition read_line :: "session \<Rightarrow> session" where
  "read_line s =
     (let (arg, rest) = getline (s_data s) in
      s\<lparr>s_reads := s_reads s - 1, s_arg := arg, s_data := rest\<rparr>)"

subsection \<open>The switch on the command\<close>

datatype command = CPing | CNamespace | CSelect | CFacts | CTransact | CInvalid

definition command_of :: "bytes \<Rightarrow> command" where
  "command_of arg =
     (let c = (case arg of [] \<Rightarrow> CHR 0x00 | c # _ \<Rightarrow> c) in
      if c = CHR ''p'' then CPing
      else if c = CHR ''n'' then CNamespace
      else if c = CHR ''s'' then CSelect
      else if c = CHR ''f'' then CFacts
      else if c = CHR ''t'' then CTransact
      else CInvalid)"

subsection \<open>The write queue\<close>

text \<open>
  What asio asks of the program (no write is started while one is under way) and
  what the program promises: the messages reach the socket in the order they were
  handed to \<open>write\<close>, none lost and none twice.
\<close>

definition queue_inv :: "session \<Rightarrow> bool" where
  "queue_inv s \<longleftrightarrow> s_writes s = (if s_queue s = [] then 0 else 1) \<and>
     s_delivered s @ s_queue s = s_sent s"

locale outbox =
  fixes enqueue :: "'m \<Rightarrow> 's \<Rightarrow> 's"
    and complete :: "'s \<Rightarrow> 's"
    and outstanding :: "'s \<Rightarrow> nat"
    and sent :: "'s \<Rightarrow> 'm list"
    and delivered :: "'s \<Rightarrow> 'm list"
    and inv :: "'s \<Rightarrow> bool"
  assumes enqueue_inv: "inv s \<Longrightarrow> inv (enqueue m s)"
    and complete_inv: "inv s \<Longrightarrow> 0 < outstanding s \<Longrightarrow> inv (complete s)"
    and enqueue_sent: "sent (enqueue m s) = sent s @ [m]"
    and enqueue_delivered: "delivered (enqueue m s) = delivered s"
    and complete_sent: "sent (complete s) = sent s"
    and complete_delivered:
      "inv s \<Longrightarrow> 0 < outstanding s \<Longrightarrow> \<exists>m. delivered (complete s) = delivered s @ [m]"
    and outstanding_iff: "inv s \<Longrightarrow> outstanding s = (if delivered s = sent s then 0 else 1)"
    and prefix_sent: "inv s \<Longrightarrow> \<exists>rest. sent s = delivered s @ rest"
begin

lemma one_write: "inv s \<Longrightarrow> outstanding s \<le> 1"
  by (simp add: outstanding_iff)

text \<open>Completions drain the queue: after as many as messages are waiting, all are delivered.\<close>

lemma drain:
  "inv s \<Longrightarrow> length (sent s) = length (delivered s) + n \<Longrightarrow>
     inv ((complete ^^ n) s) \<and> delivered ((complete ^^ n) s) = sent s \<and> sent ((complete ^^ n) s) = sent s"
proof (induction n arbitrary: s)
  case 0
  then show ?case using prefix_sent [of s] by auto
next
  case (Suc n)
  have "delivered s \<noteq> sent s" using Suc.prems(2) by auto
  then have o: "0 < outstanding s" using outstanding_iff [OF Suc.prems(1)] by simp
  then obtain m where "delivered (complete s) = delivered s @ [m]"
    using complete_delivered [OF Suc.prems(1)] by blast
  then have "length (sent (complete s)) = length (delivered (complete s)) + n"
    using Suc.prems(2) by (simp add: complete_sent)
  then have "inv ((complete ^^ n) (complete s)) \<and>
      delivered ((complete ^^ n) (complete s)) = sent (complete s) \<and>
      sent ((complete ^^ n) (complete s)) = sent (complete s)"
    by (intro Suc.IH complete_inv [OF Suc.prems(1) o])
  then show ?case by (simp add: funpow_Suc_right complete_sent del: funpow.simps)
qed

end

interpretation wq: outbox session_write write_done s_writes s_sent s_delivered queue_inv
proof unfold_locales
  fix s :: session and m :: bytes
  show "queue_inv s \<Longrightarrow> queue_inv (session_write m s)"
    by (auto simp: queue_inv_def session_write_def do_write_def Let_def)
  show "s_sent (session_write m s) = s_sent s @ [m]" "s_delivered (session_write m s) = s_delivered s"
    by (simp_all add: session_write_def do_write_def Let_def)
  show "s_sent (write_done s) = s_sent s" by (simp add: write_done_def do_write_def Let_def)
  show "queue_inv s \<Longrightarrow> \<exists>rest. s_sent s = s_delivered s @ rest"
    unfolding queue_inv_def by metis
  show "queue_inv s \<Longrightarrow> s_writes s = (if s_delivered s = s_sent s then 0 else 1)"
    by (auto simp: queue_inv_def)
  assume i: "queue_inv s" "0 < s_writes s"
  then obtain x xs where q: "s_queue s = x # xs" by (cases "s_queue s") (auto simp: queue_inv_def)
  then show "queue_inv (write_done s)"
    using i by (auto simp: queue_inv_def write_done_def do_write_def Let_def)
  show "\<exists>m. s_delivered (write_done s) = s_delivered s @ [m]"
    using q by (simp add: write_done_def do_write_def Let_def)
qed

subsection \<open>Framing\<close>

lemma has_EOL_append: "has_EOL (xs @ EOL @ ys)"
proof (induction xs)
  case Nil
  show ?case by (simp add: EOL_def)
next
  case (Cons x xs)
  then show ?case by (cases "xs @ EOL @ ys") (simp_all add: EOL_def)
qed

lemma getline_line:
  assumes "CHR 0x0A \<notin> set line"
  shows "getline (line @ EOL @ rest) = (line @ [CHR 0x0D], rest)"
proof -
  have "takeWhile (\<lambda>c. c \<noteq> CHR 0x0A) (line @ EOL @ rest) = line @ [CHR 0x0D]"
    using assms by (subst takeWhile_append2) (auto simp: EOL_def)
  moreover have "dropWhile (\<lambda>c. c \<noteq> CHR 0x0A) (line @ EOL @ rest) = CHR 0x0A # rest"
    using assms by (subst dropWhile_append2) (auto simp: EOL_def)
  ultimately show ?thesis by (simp add: getline_def)
qed

lemma print_json_no_control:
  "CHR 0x00 \<notin> set (print_json v)" "CHR 0x0A \<notin> set (print_json v)" "CHR 0x0D \<notin> set (print_json v)"
  using plain_print(1) [of "CHR 0x00" v] plain_print(1) [of "CHR 0x0A" v] plain_print(1) [of "CHR 0x0D" v]
  by (auto simp: plain_char_def)

text \<open>A value a client prints after the command is what the handler parses.\<close>

lemma parse_argument_line:
  assumes "printable v"
  shows "parse_argument (c # print_json v @ [CHR 0x0D]) = Some v"
proof -
  have "\<forall>c \<in> set (print_json v @ [CHR 0x0D]). c \<noteq> CHR 0x00"
    using print_json_no_control(1) [of v] by auto
  then have "argument (c # print_json v @ [CHR 0x0D]) = print_json v @ [CHR 0x0D]"
    unfolding argument_def list.sel by (simp only: takeWhile_eq_all_conv)
  then show ?thesis
    unfolding parse_argument_def using document_Parse_print [OF assms, of "[CHR 0x0D]"] by simp
qed

lemma make_response_print:
  assumes "printable v"
  shows "make_response v = print_json v @ EOL"
proof -
  have "\<forall>c \<in> set (print_json v). c \<noteq> CHR 0x00" using print_json_no_control(1) [of v] by blast
  then have "takeWhile (\<lambda>c. c \<noteq> CHR 0x00) (print_json v) = print_json v"
    by (simp only: takeWhile_eq_all_conv)
  then show ?thesis by (simp only: make_response_def write_json_print [OF assms] option.case)
qed

end
