(* ===== verification/Server.thy ===== *)
theory Server
  imports Session
begin

text \<open>
  server.cpp and the completion handlers of session.cpp: the whole server as a
  step relation. The io thread runs the completions and the posted closures, one
  at a time; the writer thread runs the jobs of \<open>writer_service\<close> in order; the
  reader threads take the jobs of \<open>reader_service\<close> and may finish them in any
  order. A handler reads one state of the database and is one step. The outcomes
  of the calls that may fail are chosen by the step.
\<close>

subsection \<open>The state of the server\<close>

type_synonym job = "command \<times> nat"

record world =
  w_env :: cenv
  w_members :: members
  w_sessions :: "nat \<rightharpoonup> session"
  w_next_uid :: nat
  w_connects :: nat
  w_disconnects :: nat
  w_writer :: "job list"
  w_reader :: "job list"
  w_io :: "(nat \<times> io_action list) list"

definition initial_world :: "cenv \<Rightarrow> world" where
  "initial_world env = \<lparr>w_env = env, w_members = Map.empty, w_sessions = Map.empty, w_next_uid = 0,
     w_connects = 0, w_disconnects = 0, w_writer = [], w_reader = [], w_io = []\<rparr>"

definition update_session :: "nat \<Rightarrow> (session \<Rightarrow> session) \<Rightarrow> world \<Rightarrow> world" where
  "update_session m f w = w\<lparr>w_sessions := (w_sessions w)(m := map_option f (w_sessions w m))\<rparr>"

subsection \<open>Operations\<close>

text \<open>\<open>do_accept\<close> on a connection: the constructor of the session and \<open>start\<close>.\<close>

definition accept :: "world \<Rightarrow> world" where
  "accept w =
     (let m = w_next_uid w in
      w\<lparr>w_sessions := (w_sessions w)(m \<mapsto> read_request (new_session m)),
        w_next_uid := m + 1, w_connects := w_connects w + 1,
        w_members := join 0 m (w_members w)\<rparr>)"

definition session_end :: "nat \<Rightarrow> world \<Rightarrow> world" where
  "session_end m w =
     (case w_sessions w m of
        None \<Rightarrow> w
      | Some s \<Rightarrow>
          w\<lparr>w_disconnects := w_disconnects w + 1, w_members := leave (s_ns s) m (w_members w)\<rparr>)"

definition publish :: "namespace_t \<Rightarrow> nat \<Rightarrow> bytes \<Rightarrow> world \<Rightarrow> world" where
  "publish ns from msg w =
     w\<lparr>w_sessions := (\<lambda>m. if m \<in> publish_to ns from (w_members w)
        then map_option (session_write msg) (w_sessions w m) else w_sessions w m)\<rparr>"

definition io_act :: "nat \<Rightarrow> io_action \<Rightarrow> world \<Rightarrow> world" where
  "io_act m act w =
     (case act of
        Write msg \<Rightarrow> update_session m (session_write msg) w
      | ReadRequest \<Rightarrow> update_session m read_request w
      | Leave ns \<Rightarrow> w\<lparr>w_members := leave ns m (w_members w)\<rparr>
      | Publish ns msg \<Rightarrow> publish ns m msg w)"

definition io_acts :: "nat \<Rightarrow> io_action list \<Rightarrow> world \<Rightarrow> world" where
  "io_acts m acts w = foldl (\<lambda>w act. io_act m act w) w acts"

text \<open>The completion of \<open>async_read_until\<close> without an error.\<close>

definition read_done :: "nat \<Rightarrow> session \<Rightarrow> world \<Rightarrow> world" where
  "read_done m s w =
     (let s = read_line s; w = w\<lparr>w_sessions := (w_sessions w)(m \<mapsto> s)\<rparr> in
      case command_of (s_arg s) of
        CPing \<Rightarrow> io_acts m (handle_ping (s_arg s) @ [ReadRequest]) w
      | CNamespace \<Rightarrow> w\<lparr>w_writer := w_writer w @ [(CNamespace, m)]\<rparr>
      | CSelect \<Rightarrow> w\<lparr>w_reader := w_reader w @ [(CSelect, m)]\<rparr>
      | CFacts \<Rightarrow> w\<lparr>w_reader := w_reader w @ [(CFacts, m)]\<rparr>
      | CTransact \<Rightarrow> w\<lparr>w_writer := w_writer w @ [(CTransact, m)]\<rparr>
      | CInvalid \<Rightarrow> io_acts m [Write ACK_ERR, ReadRequest] w)"

text \<open>A job of one of the two services; the faults are those of its transaction.\<close>

definition run_writer :: "(bytes \<Rightarrow> bytes option) \<Rightarrow> int list \<Rightarrow> job \<Rightarrow> session \<Rightarrow> world \<Rightarrow> world" where
  "run_writer sha256 faults job s w =
     (let (env, acts) =
            (if fst job = CNamespace then handle_namespace (w_env w) faults (s_arg s)
             else handle_transact sha256 (w_env w) faults (s_arg s) (s_ns s))
      in w\<lparr>w_env := env, w_io := w_io w @ [(snd job, acts)]\<rparr>)"

definition run_reader :: "int list \<Rightarrow> job \<Rightarrow> session \<Rightarrow> world \<Rightarrow> world" where
  "run_reader faults job s w =
     (if fst job = CSelect then
        (let (ns, acts) = handle_select (w_env w) faults (s_arg s) (s_ns s) in
         (update_session (snd job) (\<lambda>s. s\<lparr>s_ns := ns\<rparr>) w)\<lparr>w_io := w_io w @ [(snd job, acts)]\<rparr>)
      else w\<lparr>w_io := w_io w @ [(snd job, handle_facts (w_env w) faults (s_arg s) (s_ns s))]\<rparr>)"

subsection \<open>Steps\<close>

inductive step :: "(bytes \<Rightarrow> bytes option) \<Rightarrow> world \<Rightarrow> world \<Rightarrow> bool" for sha256 where
  Accept: "step sha256 w (accept w)"
| Receive: "w_sessions w m = Some s \<Longrightarrow> 0 < s_reads s \<Longrightarrow>
    step sha256 w (update_session m (\<lambda>s. s\<lparr>s_data := s_data s @ bs\<rparr>) w)"
| ReadDone: "w_sessions w m = Some s \<Longrightarrow> 0 < s_reads s \<Longrightarrow> has_EOL (s_data s) \<Longrightarrow>
    step sha256 w (read_done m s w)"
| ReadError: "w_sessions w m = Some s \<Longrightarrow> 0 < s_reads s \<Longrightarrow>
    step sha256 w (session_end m (update_session m (\<lambda>s. s\<lparr>s_reads := s_reads s - 1\<rparr>) w))"
| WriteDone: "w_sessions w m = Some s \<Longrightarrow> 0 < s_writes s \<Longrightarrow>
    step sha256 w (update_session m write_done w)"
| WriteError: "w_sessions w m = Some s \<Longrightarrow> 0 < s_writes s \<Longrightarrow>
    step sha256 w (session_end m (update_session m (\<lambda>s. s\<lparr>s_writes := s_writes s - 1\<rparr>) w))"
| Writer: "w_writer w = job # jobs \<Longrightarrow> w_sessions w (snd job) = Some s \<Longrightarrow>
    step sha256 w (run_writer sha256 faults job s (w\<lparr>w_writer := jobs\<rparr>))"
| Reader: "w_reader w = jobs1 @ job # jobs2 \<Longrightarrow> w_sessions w (snd job) = Some s \<Longrightarrow>
    step sha256 w (run_reader faults job s (w\<lparr>w_reader := jobs1 @ jobs2\<rparr>))"
| Io: "w_io w = (m, acts) # rest \<Longrightarrow> step sha256 w (io_acts m acts (w\<lparr>w_io := rest\<rparr>))"

inductive reachable :: "(bytes \<Rightarrow> bytes option) \<Rightarrow> cenv \<Rightarrow> world \<Rightarrow> bool" for sha256 env where
  Start: "reachable sha256 env (initial_world env)"
| Step: "reachable sha256 env w \<Longrightarrow> step sha256 w w' \<Longrightarrow> reachable sha256 env w'"

inductive_cases stepE: "step sha256 w w'"

subsection \<open>Handlers ask for the next request exactly once\<close>

lemma perror_reads [simp]: "count_list perror ReadRequest = 1"
  by (simp add: perror_def)

lemma handle_namespace_reads: "count_list (snd (handle_namespace env faults arg)) ReadRequest = 1"
  by (simp add: handle_namespace_def split: option.split prod.split)

lemma handle_select_reads: "count_list (snd (handle_select env faults arg ns)) ReadRequest = 1"
  by (simp add: handle_select_def Let_def split: option.split prod.split)

lemma handle_facts_reads: "count_list (handle_facts env faults arg ns) ReadRequest = 1"
  by (simp add: handle_facts_def Let_def split: option.split prod.split sum.split)

lemma handle_transact_reads: "count_list (snd (handle_transact sha256 env faults arg ns)) ReadRequest = 1"
  by (simp add: handle_transact_def Let_def split: option.split prod.split)

lemmas handler_reads = handle_namespace_reads handle_select_reads handle_facts_reads handle_transact_reads

subsection \<open>One request at a time\<close>

definition reads :: "world \<Rightarrow> nat \<Rightarrow> nat" where
  "reads w m = (case w_sessions w m of None \<Rightarrow> 0 | Some s \<Rightarrow> s_reads s)"

definition jobs_of :: "nat \<Rightarrow> job list \<Rightarrow> nat" where
  "jobs_of m jobs = length (filter (\<lambda>j. snd j = m) jobs)"

definition io_reads :: "nat \<Rightarrow> (nat \<times> io_action list) list \<Rightarrow> nat" where
  "io_reads m q = (\<Sum>(m', acts) \<leftarrow> q. if m' = m then count_list acts ReadRequest else 0)"

text \<open>The reads, jobs and closures through which a session waits for, or will wait for, its next request.\<close>

definition tokens :: "world \<Rightarrow> nat \<Rightarrow> nat" where
  "tokens w m = reads w m + jobs_of m (w_writer w) + jobs_of m (w_reader w) + io_reads m (w_io w)"

definition server_inv :: "world \<Rightarrow> bool" where
  "server_inv w \<longleftrightarrow>
     (\<forall>m. tokens w m \<le> 1) \<and> (\<forall>m. w_sessions w m = None \<longrightarrow> tokens w m = 0) \<and>
     (\<forall>m. w_sessions w m \<noteq> None \<longleftrightarrow> m < w_next_uid w)"

lemma jobs_of_simps [simp]:
  "jobs_of m [] = 0" "jobs_of m (j # js) = (if snd j = m then 1 else 0) + jobs_of m js"
  "jobs_of m (js @ ks) = jobs_of m js + jobs_of m ks"
  by (simp_all add: jobs_of_def)

lemma io_reads_simps [simp]:
  "io_reads m [] = 0"
  "io_reads m ((m', acts) # q) = (if m' = m then count_list acts ReadRequest else 0) + io_reads m q"
  "io_reads m (q @ q') = io_reads m q + io_reads m q'"
  by (simp_all add: io_reads_def)

lemma session_ops_reads [simp]:
  "s_reads (session_write msg s) = s_reads s" "s_reads (write_done s) = s_reads s"
  "s_reads (read_request s) = s_reads s + 1" "s_reads (read_line s) = s_reads s - 1"
  "s_reads (new_session n) = 0"
  by (simp_all add: session_write_def write_done_def do_write_def read_request_def read_line_def
      new_session_def Let_def split_beta)

lemma update_session_simps [simp]:
  "w_sessions (update_session m f w) m' = (if m' = m then map_option f (w_sessions w m) else w_sessions w m')"
  "w_writer (update_session m f w) = w_writer w" "w_reader (update_session m f w) = w_reader w"
  "w_io (update_session m f w) = w_io w" "w_next_uid (update_session m f w) = w_next_uid w"
  "w_members (update_session m f w) = w_members w" "w_env (update_session m f w) = w_env w"
  by (simp_all add: update_session_def)

lemma session_end_simps [simp]:
  "w_sessions (session_end m w) = w_sessions w" "w_writer (session_end m w) = w_writer w"
  "w_reader (session_end m w) = w_reader w" "w_io (session_end m w) = w_io w"
  "w_next_uid (session_end m w) = w_next_uid w" "w_env (session_end m w) = w_env w"
  by (simp_all add: session_end_def split: option.split)

lemma io_act_simps [simp]:
  "w_writer (io_act m act w) = w_writer w" "w_reader (io_act m act w) = w_reader w"
  "w_io (io_act m act w) = w_io w" "w_next_uid (io_act m act w) = w_next_uid w"
  "w_env (io_act m act w) = w_env w"
  "w_sessions (io_act m act w) m' = None \<longleftrightarrow> w_sessions w m' = None"
  by (auto simp: io_act_def publish_def split: io_action.split)

lemma io_act_reads:
  "reads (io_act m act w) m' =
     reads w m' + (if m' = m \<and> w_sessions w m \<noteq> None \<and> act = ReadRequest then 1 else 0)"
  by (auto simp: io_act_def publish_def reads_def split: io_action.split option.splits)

lemma io_acts_simps [simp]:
  "w_writer (io_acts m acts w) = w_writer w" "w_reader (io_acts m acts w) = w_reader w"
  "w_io (io_acts m acts w) = w_io w" "w_next_uid (io_acts m acts w) = w_next_uid w"
  "w_env (io_acts m acts w) = w_env w"
  "w_sessions (io_acts m acts w) m' = None \<longleftrightarrow> w_sessions w m' = None"
  by (induction acts arbitrary: w) (simp_all add: io_acts_def)

lemma io_acts_reads:
  "reads (io_acts m acts w) m' =
     reads w m' + (if m' = m \<and> w_sessions w m \<noteq> None then count_list acts ReadRequest else 0)"
proof (induction acts arbitrary: w)
  case Nil
  then show ?case by (simp add: io_acts_def)
next
  case (Cons act acts)
  have "reads (io_acts m (act # acts) w) m' = reads (io_acts m acts (io_act m act w)) m'"
    by (simp add: io_acts_def)
  then show ?case using Cons [of "io_act m act w"] by (auto simp: io_act_reads)
qed

lemma reads_simps [simp]:
  "reads (w\<lparr>w_sessions := (w_sessions w)(m \<mapsto> s)\<rparr>) m' = (if m' = m then s_reads s else reads w m')"
  "reads (w\<lparr>w_writer := js\<rparr>) = reads w" "reads (w\<lparr>w_reader := js\<rparr>) = reads w"
  "reads (w\<lparr>w_io := q\<rparr>) = reads w"
  by (auto simp: reads_def)

lemma read_done_tokens:
  assumes "w_sessions w m = Some s" and "0 < s_reads s"
  shows "tokens (read_done m s w) m' = tokens w m'"
    and "w_sessions (read_done m s w) m' = None \<longleftrightarrow> w_sessions w m' = None"
    and "w_next_uid (read_done m s w) = w_next_uid w"
proof -
  have "reads w m = s_reads s" using assms(1) by (simp add: reads_def)
  then show "tokens (read_done m s w) m' = tokens w m'"
    using assms(2)
    by (auto simp: read_done_def Let_def tokens_def io_acts_reads handle_ping_def split: command.split)
qed (use assms(1) in \<open>auto simp: read_done_def Let_def split: command.split\<close>)

lemma run_writer_tokens:
  "tokens (run_writer sha256 faults job s w) m = tokens w m + (if snd job = m then 1 else 0)"
  "w_sessions (run_writer sha256 faults job s w) = w_sessions w"
  "w_next_uid (run_writer sha256 faults job s w) = w_next_uid w"
  using handle_namespace_reads [of "w_env w" faults "s_arg s"]
    handle_transact_reads [of sha256 "w_env w" faults "s_arg s" "s_ns s"]
  by (auto simp: run_writer_def tokens_def reads_def split: prod.split)

lemma run_reader_tokens:
  "w_sessions w (snd job) = Some s \<Longrightarrow>
     tokens (run_reader faults job s w) m = tokens w m + (if snd job = m then 1 else 0)"
  "w_sessions (run_reader faults job s w) m = None \<longleftrightarrow> w_sessions w m = None"
  "w_next_uid (run_reader faults job s w) = w_next_uid w"
  using handle_select_reads [of "w_env w" faults "s_arg s" "s_ns s"]
    handle_facts_reads [of "w_env w" faults "s_arg s" "s_ns s"]
  by (auto simp: run_reader_def tokens_def reads_def split: prod.split)

lemma tokens_queue [simp]:
  "tokens (w\<lparr>w_writer := js\<rparr>) m = reads w m + jobs_of m js + jobs_of m (w_reader w) + io_reads m (w_io w)"
  "tokens (w\<lparr>w_reader := js\<rparr>) m = reads w m + jobs_of m (w_writer w) + jobs_of m js + io_reads m (w_io w)"
  by (simp_all add: tokens_def)

lemma server_inv_mono:
  assumes "server_inv w" and "\<And>m. tokens w' m \<le> tokens w m"
    and "\<And>m. w_sessions w' m = None \<longleftrightarrow> w_sessions w m = None" and "w_next_uid w' = w_next_uid w"
  shows "server_inv w'"
proof -
  have "tokens w' m \<le> 1" for m using assms(1) assms(2) [of m] unfolding server_inv_def by (meson order_trans)
  moreover have "tokens w' m = 0" if "w_sessions w' m = None" for m
    using assms(1) assms(2) [of m] that assms(3) [of m] unfolding server_inv_def by (metis le_zero_eq)
  ultimately show ?thesis using assms(1,3,4) by (simp add: server_inv_def)
qed

lemma step_server_inv:
  assumes "step sha256 w w'" and inv: "server_inv w"
  shows "server_inv w'"
  using assms(1)
proof cases
  case Accept
  have "w_sessions w (w_next_uid w) = None" using inv unfolding server_inv_def by blast
  moreover from this have "tokens w (w_next_uid w) = 0" using inv unfolding server_inv_def by blast
  ultimately have t: "tokens w' m = tokens w m + (if m = w_next_uid w then 1 else 0)" for m
    using Accept by (auto simp: accept_def Let_def tokens_def reads_def)
  show ?thesis unfolding server_inv_def
  proof (intro conjI allI impI)
    fix m
    show "tokens w' m \<le> 1" using t [of m] inv \<open>tokens w (w_next_uid w) = 0\<close> by (auto simp: server_inv_def)
    show "w_sessions w' m \<noteq> None \<longleftrightarrow> m < w_next_uid w'"
      using inv Accept unfolding server_inv_def by (auto simp: accept_def Let_def less_Suc_eq)
    assume "w_sessions w' m = None"
    then have "w_sessions w m = None" "m \<noteq> w_next_uid w"
      using Accept by (auto simp: accept_def Let_def split: if_splits)
    then show "tokens w' m = 0" using t [of m] inv by (simp add: server_inv_def)
  qed
next
  case (Receive m s bs)
  show ?thesis by (rule server_inv_mono [OF inv]) (use Receive in \<open>auto simp: tokens_def reads_def\<close>)
next
  case (ReadDone m s)
  show ?thesis by (rule server_inv_mono [OF inv])
    (use ReadDone(1) read_done_tokens [OF ReadDone(2,3)] in simp_all)
next
  case (ReadError m s)
  show ?thesis by (rule server_inv_mono [OF inv]) (use ReadError in \<open>auto simp: tokens_def reads_def\<close>)
next
  case (WriteDone m s)
  show ?thesis by (rule server_inv_mono [OF inv]) (use WriteDone in \<open>auto simp: tokens_def reads_def\<close>)
next
  case (WriteError m s)
  show ?thesis by (rule server_inv_mono [OF inv]) (use WriteError in \<open>auto simp: tokens_def reads_def\<close>)
next
  case (Writer job jobs s faults)
  have "tokens w' m' = tokens w m'" for m'
    using Writer by (simp add: run_writer_tokens) (simp add: tokens_def)
  then show ?thesis by (intro server_inv_mono [OF inv]) (use Writer in \<open>simp_all add: run_writer_tokens\<close>)
next
  case (Reader jobs1 job jobs2 s faults)
  have "tokens w' m' = tokens w m'" for m'
    using Reader by (simp add: run_reader_tokens) (simp add: tokens_def)
  then show ?thesis by (intro server_inv_mono [OF inv]) (use Reader in \<open>simp_all add: run_reader_tokens\<close>)
next
  case (Io m acts rest)
  show ?thesis by (rule server_inv_mono [OF inv])
    (use Io in \<open>simp_all add: tokens_def io_acts_reads\<close>)
qed

lemma reachable_server_inv: "reachable sha256 env w \<Longrightarrow> server_inv w"
proof (induction rule: reachable.induct)
  case Start
  show ?case by (simp add: server_inv_def initial_world_def tokens_def reads_def)
next
  case (Step w w')
  then show ?case by (blast intro: step_server_inv)
qed

subsection \<open>The argument of a request stays while its job waits\<close>

definition arg_of :: "world \<Rightarrow> nat \<Rightarrow> bytes" where
  "arg_of w m = (case w_sessions w m of None \<Rightarrow> [] | Some s \<Rightarrow> s_arg s)"

lemma session_ops_arg [simp]:
  "s_arg (session_write msg s) = s_arg s" "s_arg (write_done s) = s_arg s"
  "s_arg (read_request s) = s_arg s"
  by (simp_all add: session_write_def write_done_def do_write_def read_request_def Let_def)

lemma io_acts_arg: "arg_of (io_acts m acts w) m' = arg_of w m'"
proof (induction acts arbitrary: w)
  case Nil
  then show ?case by (simp add: io_acts_def)
next
  case (Cons act acts)
  have "arg_of (io_act m act w) m' = arg_of w m'"
    by (auto simp: arg_of_def io_act_def publish_def split: io_action.split option.splits)
  then show ?case using Cons [of "io_act m act w"] by (simp add: io_acts_def)
qed

lemma jobs_of_pos: "(c, m) \<in> set jobs \<Longrightarrow> 0 < jobs_of m jobs"
  by (induction jobs) auto

lemma server_invD:
  assumes "server_inv w"
  shows "tokens w m \<le> 1" and "w_sessions w m = None \<Longrightarrow> tokens w m = 0"
    and "w_sessions w m \<noteq> None \<longleftrightarrow> m < w_next_uid w"
  using assms unfolding server_inv_def by blast+

lemma step_arg:
  assumes "server_inv w" and "step sha256 w w'" and "(c, m) \<in> set (w_writer w) \<union> set (w_reader w)"
  shows "arg_of w' m = arg_of w m"
proof -
  have pos: "0 < jobs_of m (w_writer w) + jobs_of m (w_reader w)" using assms(3) jobs_of_pos by fastforce
  moreover have "tokens w m \<le> 1" by (rule server_invD(1) [OF assms(1)])
  ultimately have r: "reads w m = 0" unfolding tokens_def by linarith
  have fresh: "w_next_uid w \<noteq> m"
  proof
    assume "w_next_uid w = m"
    then have "tokens w m = 0" using server_invD(2,3) [OF assms(1), of m] by linarith
    then show False using pos unfolding tokens_def by linarith
  qed
  show ?thesis
    using assms(2)
  proof cases
    case (ReadDone m' s)
    then have "m' \<noteq> m" using r by (auto simp: reads_def)
    then show ?thesis using ReadDone
      by (auto simp: read_done_def Let_def io_acts_arg split: command.split) (auto simp: arg_of_def)
  qed (use fresh in \<open>auto simp: arg_of_def accept_def Let_def io_acts_arg [unfolded arg_of_def]
      run_writer_def run_reader_def split: prod.splits option.splits\<close>)
qed

subsection \<open>Writes\<close>

text \<open>
  After a failed write the queue of a session keeps what it held, so nothing is
  written to its socket any more.
\<close>

definition write_inv :: "session \<Rightarrow> bool" where
  "write_inv s \<longleftrightarrow> s_delivered s @ s_queue s = s_sent s \<and> s_writes s \<le> 1 \<and>
     (s_queue s = [] \<longrightarrow> s_writes s = 0)"

lemma write_inv_simps:
  "write_inv (new_session n)"
  "write_inv s \<Longrightarrow> write_inv (session_write msg s)"
  "write_inv s \<Longrightarrow> 0 < s_writes s \<Longrightarrow> write_inv (write_done s)"
  "write_inv (read_request s) = write_inv s" "write_inv (read_line s) = write_inv s"
  "write_inv (s\<lparr>s_ns := ns\<rparr>) = write_inv s" "write_inv (s\<lparr>s_data := d\<rparr>) = write_inv s"
  "write_inv (s\<lparr>s_reads := n\<rparr>) = write_inv s"
  "write_inv s \<Longrightarrow> write_inv (s\<lparr>s_writes := s_writes s - Suc 0\<rparr>)"
  by (cases "s_queue s"; auto simp: write_inv_def new_session_def session_write_def write_done_def
      do_write_def read_request_def read_line_def Let_def split_beta)+

definition writes_inv :: "world \<Rightarrow> bool" where
  "writes_inv w \<longleftrightarrow> (\<forall>m s. w_sessions w m = Some s \<longrightarrow> write_inv s)"

lemma io_acts_writes: "writes_inv w \<Longrightarrow> writes_inv (io_acts m acts w)"
proof (induction acts arbitrary: w)
  case Nil
  then show ?case by (simp add: io_acts_def)
next
  case (Cons act acts)
  have "writes_inv (io_act m act w)"
    using Cons.prems
    by (auto simp: writes_inv_def io_act_def publish_def write_inv_simps split: io_action.split if_splits)
  then show ?case using Cons.IH by (simp add: io_acts_def)
qed

lemma step_writes_inv:
  assumes "step sha256 w w'" and "writes_inv w"
  shows "writes_inv w'"
  using assms(1)
proof cases
  case (ReadDone m s)
  have "write_inv (read_line s)" using ReadDone(2) assms(2) by (auto simp: writes_inv_def write_inv_simps)
  then have "writes_inv (w\<lparr>w_sessions := (w_sessions w)(m \<mapsto> read_line s)\<rparr>)"
    using assms(2) by (auto simp: writes_inv_def)
  then show ?thesis
    unfolding ReadDone(1) read_done_def Let_def
    by (cases "command_of (s_arg (read_line s))") (simp_all add: io_acts_writes, simp_all add: writes_inv_def)
next
  case (Io m acts rest)
  then show ?thesis using io_acts_writes [of "w\<lparr>w_io := rest\<rparr>"] assms(2) by (simp add: writes_inv_def)
qed (use assms(2) in \<open>auto simp: writes_inv_def accept_def Let_def run_writer_def run_reader_def
    write_inv_simps split: prod.splits if_splits\<close>)

lemma reachable_writes_inv: "reachable sha256 env w \<Longrightarrow> writes_inv w"
proof (induction rule: reachable.induct)
  case Start
  show ?case by (simp add: writes_inv_def initial_world_def)
next
  case (Step w w')
  then show ?case by (blast intro: step_writes_inv)
qed

subsection \<open>Channels\<close>

lemma join_other: "n \<noteq> ns \<Longrightarrow> join ns m ms n = ms n"
  and leave_none: "ms n = None \<Longrightarrow> leave ns m ms n = None"
  by (auto simp: join_def leave_def Let_def split: option.split)

lemma io_acts_members: "w_members w n = None \<Longrightarrow> w_members (io_acts m acts w) n = None"
proof (induction acts arbitrary: w)
  case Nil
  then show ?case by (simp add: io_acts_def)
next
  case (Cons act acts)
  have "w_members (io_act m act w) n = None"
    using Cons.prems by (simp add: io_act_def publish_def leave_none split: io_action.split)
  then show ?case using Cons.IH by (simp add: io_acts_def)
qed

lemma step_members:
  assumes "step sha256 w w'" and "w_members w n = None" and "n \<noteq> 0"
  shows "w_members w' n = None"
  using assms(1)
  by cases (use assms(2,3) in \<open>auto simp: accept_def Let_def join_other session_end_def leave_none
    read_done_def io_acts_members run_writer_def run_reader_def
    split: option.split prod.splits command.split\<close>)

lemma reachable_members: "reachable sha256 env w \<Longrightarrow> n \<noteq> 0 \<Longrightarrow> w_members w n = None"
proof (induction rule: reachable.induct)
  case Start
  show ?case by (simp add: initial_world_def)
next
  case (Step w w')
  then show ?case by (blast intro: step_members)
qed

end
