(* ===== verification/Midl.thy ===== *)
theory Midl
  imports Nstore_Prelude
begin

text \<open>
  The ID lists of LMDB (lib/liblmdb/midl.c): the lists of free and spilled page
  numbers a transaction keeps. The operations are modelled on the block of words
  they run on, with the allocator as a parameter; the lemmas say what each of
  them does to the list of IDs the block holds. The sort is in Midl\_Sort.
\<close>

subsection \<open>Binary search\<close>

type_synonym mdb_id = u64

definition CMP :: "mdb_id \<Rightarrow> mdb_id \<Rightarrow> int" where
  "CMP x y = (if x < y then -1 else if x > y then 1 else 0)"

fun search_loop :: "(nat \<Rightarrow> int) \<Rightarrow> nat \<Rightarrow> nat \<Rightarrow> nat \<Rightarrow> int \<Rightarrow> nat" where
  "search_loop cmp base n cursor val =
     (if n = 0 then (if 0 < val then cursor + 1 else cursor)
      else let pivot = n div 2; cursor = base + pivot + 1; val = cmp cursor in
        if val < 0 then search_loop cmp base pivot cursor val
        else if 0 < val then search_loop cmp cursor (n - (pivot + 1)) cursor val
        else cursor)"

declare search_loop.simps [simp del]

definition mdb_midl_search :: "mdb_id list \<Rightarrow> mdb_id \<Rightarrow> nat" where
  "mdb_midl_search ids i =
     search_loop (\<lambda>cursor. CMP (ids ! cursor) i) 0 (unat (ucast (ids ! 0) :: u32)) 1 0"

text \<open>
  The loop finds the one position \<open>k\<close> before which every comparison is
  positive and after which every comparison is negative.
\<close>

definition splits_at :: "(nat \<Rightarrow> int) \<Rightarrow> nat \<Rightarrow> nat \<Rightarrow> bool" where
  "splits_at cmp n k \<longleftrightarrow> 1 \<le> k \<and> k \<le> n + 1 \<and>
     (\<forall>p. 1 \<le> p \<and> p < k \<longrightarrow> 0 < cmp p) \<and> (k \<le> n \<longrightarrow> cmp k \<le> 0) \<and> (\<forall>p. k < p \<and> p \<le> n \<longrightarrow> cmp p < 0)"

lemma search_loop_finds:
  assumes "splits_at cmp N k" "base < k" "k \<le> base + n + 1" "base + n \<le> N"
    "n = 0 \<longrightarrow> (if 0 < val then cursor = base else cursor = base + 1)"
  shows "search_loop cmp base n cursor val = k"
  using assms
proof (induction cmp base n cursor val rule: search_loop.induct)
  case (1 cmp base n cursor val)
  show ?case
  proof (cases "n = 0")
    case True
    then have "k = base + 1" using 1(4,5) by simp
    then show ?thesis using True 1(7) by (subst search_loop.simps) (simp split: if_splits)
  next
    case False
    define c where "c = base + n div 2 + 1"
    have c: "1 \<le> c" "c \<le> N" "base < c" "c \<le> base + n" 
      using False 1(4,5,6) unfolding c_def by auto
    have sp: "\<And>p. 1 \<le> p \<Longrightarrow> p < k \<Longrightarrow> 0 < cmp p" "\<And>p. k \<le> p \<Longrightarrow> p \<le> N \<Longrightarrow> cmp p \<le> 0"
        "\<And>p. k < p \<Longrightarrow> p \<le> N \<Longrightarrow> cmp p < 0"
      using 1(3) by (auto simp: splits_at_def le_less)
    consider (lt) "cmp c < 0" | (gt) "0 < cmp c" | (eq) "cmp c = 0" by (rule linorder_cases)
    then show ?thesis
    proof cases
      case lt
      have "k \<le> c" using sp(1)[OF c(1)] lt by (meson leI order.asym)
      moreover have "base + n div 2 + 1 = c" "n div 2 = 0 \<Longrightarrow> c = base + 1"
        unfolding c_def by simp_all
      ultimately have "search_loop cmp base (n div 2) c (cmp c) = k"
        using 1(1)[OF False refl refl refl, folded c_def, OF lt 1(3)] lt 1(4) c(2) by simp
      then show ?thesis using False lt
        by (subst search_loop.simps) (simp add: Let_def c_def)
    next
      case gt
      have "c < k" using sp(2)[OF _ c(2)] gt by (meson leD leI)
      moreover have "c + (n - (n div 2 + 1)) = base + n" using False unfolding c_def by simp
      ultimately have "search_loop cmp c (n - (n div 2 + 1)) c (cmp c) = k"
        using 1(2)[OF False refl refl refl, folded c_def, OF _ gt 1(3)] gt 1(5,6) by simp
      then show ?thesis using False gt
        by (subst search_loop.simps) (simp add: Let_def c_def)
    next
      case eq
      have "c = k" using sp(1)[of c] sp(3)[of c] c eq by (cases c k rule: linorder_cases) simp_all
      moreover have "search_loop cmp base n cursor val = c"
        using False eq by (subst search_loop.simps) (simp add: Let_def c_def)
      ultimately show ?thesis by simp
    qed
  qed
qed

lemma search_loop_splits:
  "splits_at cmp n k \<Longrightarrow> search_loop cmp 0 n 1 0 = k"
  by (rule search_loop_finds[where N = n]) (auto simp: splits_at_def)

subsection \<open>Descending lists\<close>

abbreviation descending :: "'a::linorder list \<Rightarrow> bool" where
  "descending \<equiv> sorted_wrt (\<lambda>x y. y \<le> x)"

lemma descending_rev: "descending xs \<longleftrightarrow> sorted (rev xs)"
  by (simp add: sorted_wrt_rev)

lemma search_takeWhile:
  assumes pos: "\<And>k. k < length ys \<Longrightarrow> (0 < cmp (Suc k)) = P (ys ! k)"
    and neg: "\<And>k l. k < l \<Longrightarrow> l < length ys \<Longrightarrow> \<not> P (ys ! k) \<Longrightarrow> cmp (Suc l) < 0"
  shows "search_loop cmp 0 (length ys) 1 0 = 1 + length (takeWhile P ys)"
proof (rule search_loop_splits)
  define t where "t = length (takeWhile P ys)"
  have t: "t \<le> length ys" unfolding t_def by (rule length_takeWhile_le)
  have before: "P (ys ! k)" if "k < t" for k
    using that by (metis t_def nth_mem set_takeWhileD takeWhile_nth)
  have at: "\<not> P (ys ! t)" if "t < length ys"
    using that nth_length_takeWhile[of P ys] unfolding t_def by simp
  show "splits_at cmp (length ys) (1 + length (takeWhile P ys))"
    unfolding splits_at_def t_def[symmetric]
  proof (intro conjI allI impI)
    show "0 < cmp p" if "1 \<le> p \<and> p < 1 + t" for p
      using that t before[of "p - 1"] pos[of "p - 1"] by (cases p) simp_all
    show "cmp (1 + t) \<le> 0" if "1 + t \<le> length ys"
      using that at pos[of t] by (simp add: not_less)
    show "cmp p < 0" if "1 + t < p \<and> p \<le> length ys" for p
      using that at neg[of t "p - 1"] by (cases p) simp_all
  qed (use t in simp_all)
qed

lemma midl_search_descending:
  assumes "unat c < 2 ^ 32" "unat c \<le> length xs" "sorted_wrt (\<lambda>x y. y < x) (take (unat c) xs)"
  shows "mdb_midl_search (c # xs) i = 1 + length (takeWhile (\<lambda>x. i < x) (take (unat c) xs))"
proof -
  define ys where "ys = take (unat c) xs"
  have n: "unat (ucast c :: u32) = length ys"
    using assms(1,2) by (simp add: ys_def unsigned_ucast_eq take_bit_nat_eq_self)
  have nth: "(c # xs) ! Suc k = ys ! k" if "k < length ys" for k using that by (simp add: ys_def)
  have "search_loop (\<lambda>p. CMP ((c # xs) ! p) i) 0 (length ys) 1 0 = 1 + length (takeWhile (\<lambda>x. i < x) ys)"
  proof (rule search_takeWhile)
    show "CMP ((c # xs) ! Suc l) i < 0" if "k < l" "l < length ys" "\<not> i < ys ! k" for k l
    proof -
      have "ys ! l < ys ! k"
        using assms(3) that unfolding ys_def[symmetric] sorted_wrt_iff_nth_less by simp
      then have "ys ! l < i" using that(3) by (meson leI order.strict_trans2)
      then show ?thesis using that nth[of l] by (simp add: CMP_def)
    qed
  qed (simp only: nth, auto simp: CMP_def)
  then show ?thesis unfolding mdb_midl_search_def by (simp add: n ys_def)
qed

subsection \<open>Allocation\<close>

text \<open>
  A list is a block of 64-bit words that starts at \<open>ids[-1]\<close>: the number
  of IDs it has room for, then the number of IDs in it, then the IDs. The
  allocator is a parameter: from a number of bytes, the words of a fresh block
  with the contents it happens to have, or None.
\<close>

type_synonym mdb_idl = "mdb_id list"
type_synonym allocator = "nat \<Rightarrow> mdb_id list option"

definition ENOMEM :: int where "ENOMEM = 12"
definition MDB_IDL_UM_MAX :: nat where "MDB_IDL_UM_MAX = 2 ^ 17 - 1"

definition realloc :: "allocator \<Rightarrow> mdb_idl \<Rightarrow> nat \<Rightarrow> mdb_idl option" where
  "realloc malloc old bytes =
     map_option (\<lambda>blk. take (length blk) old @ drop (length old) blk) (malloc bytes)"

definition mdb_midl_alloc :: "allocator \<Rightarrow> nat \<Rightarrow> mdb_idl option" where
  "mdb_midl_alloc malloc num =
     map_option (\<lambda>ids. ids[0 := of_nat num, 1 := 0]) (malloc ((num + 2) * 8))"

definition mdb_midl_shrink :: "allocator \<Rightarrow> mdb_idl \<Rightarrow> mdb_idl" where
  "mdb_midl_shrink malloc ids =
     (if of_nat MDB_IDL_UM_MAX < ids ! 0
      then case realloc malloc ids ((MDB_IDL_UM_MAX + 2) * 8) of
          None \<Rightarrow> ids
        | Some ids \<Rightarrow> ids[0 := of_nat MDB_IDL_UM_MAX]
      else ids)"

definition mdb_midl_grow :: "allocator \<Rightarrow> mdb_idl \<Rightarrow> u32 \<Rightarrow> int \<times> mdb_idl" where
  "mdb_midl_grow malloc idn num =
     (case realloc malloc idn (unat ((idn ! 0 + scast num + 2) * 8)) of
        None \<Rightarrow> (ENOMEM, idn)
      | Some idn' \<Rightarrow> (0, idn'[0 := idn' ! 0 + scast num]))"

definition mdb_midl_need :: "allocator \<Rightarrow> mdb_idl \<Rightarrow> u32 \<Rightarrow> int \<times> mdb_idl" where
  "mdb_midl_need malloc ids num =
     (let num = num + ucast (ids ! 1) in
      if ids ! 0 < ucast num then
        let num = (num + num div 4 + (256 + 2)) AND (- 256) in
        case realloc malloc ids (unat (ucast num * 8 :: u64)) of
          None \<Rightarrow> (ENOMEM, ids)
        | Some ids \<Rightarrow> (0, ids[0 := ucast (num - 2)])
      else (0, ids))"

subsection \<open>Appending\<close>

definition mdb_midl_xappend :: "mdb_idl \<Rightarrow> mdb_id \<Rightarrow> mdb_idl" where
  "mdb_midl_xappend ids i =
     (let ids = ids[1 := ids ! 1 + 1] in ids[unat (ids ! 1) + 1 := i])"

definition mdb_midl_append :: "allocator \<Rightarrow> mdb_idl \<Rightarrow> mdb_id \<Rightarrow> int \<times> mdb_idl" where
  "mdb_midl_append malloc ids i =
     (let (rc, ids) = (if ids ! 0 \<le> ids ! 1
                       then mdb_midl_grow malloc ids (of_nat MDB_IDL_UM_MAX) else (0, ids)) in
      if rc \<noteq> 0 then (ENOMEM, ids)
      else let ids = ids[1 := ids ! 1 + 1] in (0, ids[unat (ids ! 1) + 1 := i]))"

definition memcpy_words :: "mdb_idl \<Rightarrow> nat \<Rightarrow> mdb_id list \<Rightarrow> mdb_idl" where
  "memcpy_words dst k src = take k dst @ src @ drop (k + length src) dst"

definition mdb_midl_append_list :: "allocator \<Rightarrow> mdb_idl \<Rightarrow> mdb_idl \<Rightarrow> int \<times> mdb_idl" where
  "mdb_midl_append_list malloc ids app =
     (let (rc, ids) = (if ids ! 0 \<le> ids ! 1 + app ! 1
                       then mdb_midl_grow malloc ids (ucast (app ! 1)) else (0, ids)) in
      if rc \<noteq> 0 then (ENOMEM, ids)
      else let ids = memcpy_words ids (unat (ids ! 1) + 2) (take (unat (app ! 1)) (drop 2 app)) in
        (0, ids[1 := ids ! 1 + app ! 1]))"

fun range_loop :: "mdb_idl \<Rightarrow> nat \<Rightarrow> nat \<Rightarrow> mdb_id \<Rightarrow> mdb_idl" where
  "range_loop ids len n i =
     (if n = 0 then ids else range_loop (ids[len + n + 1 := i]) len (n - 1) (i + 1))"

declare range_loop.simps [simp del]

definition mdb_midl_append_range :: "allocator \<Rightarrow> mdb_idl \<Rightarrow> mdb_id \<Rightarrow> u32 \<Rightarrow> int \<times> mdb_idl" where
  "mdb_midl_append_range malloc ids i n =
     (let len = ids ! 1;
          (rc, ids) = (if ids ! 0 < len + ucast n
                       then mdb_midl_grow malloc ids (n OR of_nat MDB_IDL_UM_MAX) else (0, ids)) in
      if rc \<noteq> 0 then (ENOMEM, ids)
      else (0, range_loop (ids[1 := len + ucast n]) (unat len) (unat n) i))"

subsection \<open>What the operations do to the list of IDs\<close>

definition malloc_ok :: "allocator \<Rightarrow> bool" where
  "malloc_ok malloc \<longleftrightarrow>
     (\<forall>bytes blk. malloc bytes = Some blk \<longrightarrow> 8 * length blk = bytes \<and> bytes < 2 ^ 63)"

definition midl_inv :: "mdb_idl \<Rightarrow> bool" where
  "midl_inv b \<longleftrightarrow> length b < 2 ^ 60 \<and> unat (b ! 0) + 2 = length b \<and> unat (b ! 1) \<le> unat (b ! 0)"

definition midl_list :: "mdb_idl \<Rightarrow> mdb_id list" where
  "midl_list b = take (unat (b ! 1)) (drop 2 b)"

lemma midl_invD:
  assumes "midl_inv b"
  shows "length b < 2 ^ 60" "unat (b ! 0) + 2 = length b" "unat (b ! 1) \<le> unat (b ! 0)" "1 < length b"
    "length (midl_list b) = unat (b ! 1)"
  using assms unfolding midl_inv_def midl_list_def by auto

lemma realloc_Some:
  assumes "malloc_ok malloc" "realloc malloc old bytes = Some b"
  shows "8 * length b = bytes" "bytes < 2 ^ 63"
proof -
  from assms(2) obtain z where z: "malloc bytes = Some z" "length b = length z"
    unfolding realloc_def by (auto simp: min_def)
  then show "8 * length b = bytes" "bytes < 2 ^ 63"
    using assms(1) unfolding malloc_ok_def by auto
qed

lemma realloc_nth:
  assumes "realloc malloc old bytes = Some b" "k < length old" "k < length b"
  shows "b ! k = old ! k"
  using assms unfolding realloc_def by (auto simp: nth_append)

lemma unat_add_small: "unat x + unat y < 2 ^ 64 \<Longrightarrow> unat (x + y :: u64) = unat x + unat y"
  by (simp add: unat_add_lem[THEN iffD1])

lemma sint_small:
  assumes "unat (num :: u32) < 2 ^ 31"
  shows "sint num = uint num"
proof -
  have "int (unat num) < 2 ^ 31"
    using assms by (simp only: of_nat_less_numeral_power_cancel_iff)
  then have "uint num < 2 ^ 31" by simp
  moreover have "- (2 ^ 31) \<le> uint num" by (rule order_trans[OF _ uint_ge_0]) simp
  ultimately have "signed_take_bit 31 (uint num) = uint num" by (intro signed_take_bit_int_eq_self)
  then show ?thesis by (simp add: sint_uint)
qed

lemma unat_scast_small:
  assumes "unat (num :: u32) < 2 ^ 31"
  shows "unat (scast num :: u64) = unat num"
proof -
  have "(scast num :: u64) = ucast num" using sint_small[OF assms] by (simp add: scast_eq)
  then show ?thesis using assms by (simp add: unsigned_ucast_eq take_bit_nat_eq_self)
qed

lemma grow_cases:
  assumes "malloc_ok malloc" "midl_inv b" "unat num < 2 ^ 31"
  obtains (fail) "mdb_midl_grow malloc b num = (ENOMEM, b)" "malloc (8 * (length b + unat num)) = None"
  | (ok) b' where "mdb_midl_grow malloc b num = (0, b')" "midl_inv b'" "length b' = length b + unat num"
      "\<And>k. 1 \<le> k \<Longrightarrow> k < length b \<Longrightarrow> b' ! k = b ! k"
proof -
  note inv = midl_invD[OF assms(2)] and sc = unat_scast_small[OF assms(3)]
  have s0: "unat (b ! 0 + scast num) = unat (b ! 0) + unat num"
    using inv assms(3) sc by (subst unat_add_small) simp_all
  have s1: "unat (b ! 0 + scast num + 2) = length b + unat num"
    using inv assms(3) s0 by (subst unat_add_small) simp_all
  have s2: "unat ((b ! 0 + scast num + 2) * 8) = 8 * (length b + unat num)"
    using inv assms(3) s1 by (subst unat_mult_lem[THEN iffD1]) simp_all
  show thesis
  proof (cases "realloc malloc b (8 * (length b + unat num))")
    case None
    moreover from None have "malloc (8 * (length b + unat num)) = None" by (simp add: realloc_def)
    ultimately show ?thesis by (intro fail) (simp_all only: mdb_midl_grow_def s2 option.case)
  next
    case (Some c)
    note c = realloc_Some[OF assms(1) Some] realloc_nth[OF Some]
    have len: "length c = length b + unat num" using c(1) by simp
    have c01: "c ! 0 = b ! 0" "c ! 1 = b ! 1" using c(3)[of 0] c(3)[of 1] inv(4) len by linarith+
    have pos: "0 < length c" using len inv(4) by linarith
    show ?thesis
    proof (rule ok)
      show "mdb_midl_grow malloc b num = (0, c[0 := b ! 0 + scast num])"
        by (simp only: mdb_midl_grow_def s2 Some c01 option.case)
      show "midl_inv (c[0 := b ! 0 + scast num])"
        using inv c(2) len c01 s0 pos by (simp add: midl_inv_def)
    qed (use len c(3) in simp_all)
  qed
qed



text \<open>The block of a list, taken apart: the room, the count, and the slots for IDs.\<close>

definition block :: "nat \<Rightarrow> mdb_id list \<Rightarrow> mdb_idl" where
  "block n xs = of_nat (length xs) # of_nat n # xs"

lemma unat_of_nat_small [simp]: "n < 2 ^ 64 \<Longrightarrow> unat (of_nat n :: mdb_id) = n"
  by (simp add: unsigned_of_nat take_bit_nat_eq_self)

lemma block_nth [simp]:
  "length (block n xs) = length xs + 2" "block n xs ! 0 = of_nat (length xs)" "block n xs ! 1 = of_nat n"
  "block n xs ! Suc 0 = of_nat n" "block n xs ! Suc (Suc k) = xs ! k" "drop 2 (block n xs) = xs"
  "(block n xs)[Suc 0 := of_nat m] = block m xs" "(block n xs)[Suc (Suc k) := i] = block n (xs[k := i])"
  by (simp_all add: block_def)

lemma midl_block_cases:
  assumes "midl_inv b"
  obtains n xs where "b = block n xs" "n \<le> length xs" "length xs + 2 < 2 ^ 60"
proof -
  note inv = midl_invD[OF assms]
  obtain a c xs where b: "b = a # c # xs" using inv(4) by (cases b; cases "tl b") auto
  have a: "unat a = length xs" using inv(2) by (simp add: b)
  have "a = of_nat (length xs)" unfolding a[symmetric] by simp
  then show thesis
    by (intro that[of "unat c" xs]) (use inv in \<open>simp_all add: b block_def\<close>)
qed

lemma midl_block:
  assumes "n \<le> length xs" "length xs + 2 < 2 ^ 60"
  shows "midl_inv (block n xs)" "midl_list (block n xs) = take n xs"
  using assms by (simp_all add: midl_inv_def midl_list_def)

lemma grow_block:
  assumes "malloc_ok malloc" "n \<le> length xs" "length xs + 2 < 2 ^ 60" "unat num < 2 ^ 31"
  obtains (fail) "mdb_midl_grow malloc (block n xs) num = (ENOMEM, block n xs)"
      "malloc (8 * (length xs + 2 + unat num)) = None"
  | (ok) ys where "mdb_midl_grow malloc (block n xs) num = (0, block n (xs @ ys))" "length ys = unat num"
      "length (xs @ ys) + 2 < 2 ^ 60"
proof (cases rule: grow_cases[OF assms(1) midl_block(1)[OF assms(2,3)] assms(4), case_names F S])
  case F
  then show ?thesis by (intro fail) simp_all
next
  case (S b')
  obtain m zs where b': "b' = block m zs" "m \<le> length zs" "length zs + 2 < 2 ^ 60"
    using S(2) by (rule midl_block_cases)
  have len: "length zs = length xs + unat num" using S(3) by (simp add: b')
  have "m < 2 ^ 64" "n < 2 ^ 64" using b'(2,3) assms(2,3) by simp_all
  moreover have "(of_nat m :: mdb_id) = of_nat n" using S(4)[of 1] by (simp add: b')
  ultimately have m: "m = n" by (metis unat_of_nat_small)
  have "zs ! k = xs ! k" if "k < length xs" for k
    using S(4)[of "Suc (Suc k)"] that by (simp add: b')
  then have tk: "take (length xs) zs = xs" using len by (intro nth_equalityI) simp_all
  obtain ys where ys: "zs = xs @ ys"
    using that[OF append_take_drop_id[of "length xs" zs, unfolded tk, symmetric]] .
  show ?thesis
    by (rule ok[of ys]) (use S(1) b'(1,3) m len in \<open>simp_all add: ys\<close>)
qed


text \<open>
  Every append either leaves the list with the new IDs at its end, or reports
  ENOMEM, which it does only when the allocator refused a block of moderate size, and
  leaves it alone.
\<close>

lemma xappend_block:
  assumes "n < length xs" "length xs + 2 < 2 ^ 60"
  shows "mdb_midl_xappend (block n xs) i = block (Suc n) (xs[n := i])"
proof -
  have "of_nat n + 1 = (of_nat (Suc n) :: mdb_id)" by simp
  moreover have "Suc n < 2 ^ 64" using assms by simp
  ultimately show ?thesis
    by (simp only: mdb_midl_xappend_def Let_def block_nth One_nat_def unat_of_nat_small) simp
qed

lemma take_Suc_update: "n < length xs \<Longrightarrow> take (Suc n) (xs[n := i]) = take n xs @ [i]"
  by (simp add: take_Suc_conv_app_nth)

definition refused :: "allocator \<Rightarrow> mdb_idl \<Rightarrow> bool" where
  "refused malloc b \<longleftrightarrow> (\<exists>k < length b + 2 ^ 32. malloc (8 * k) = None)"

lemma refusedI: "malloc (8 * (length xs + 2 + m)) = None \<Longrightarrow> m < 2 ^ 31 \<Longrightarrow> refused malloc (block n xs)"
  unfolding refused_def by (rule exI[of _ "length xs + 2 + m"]) simp

definition appended :: "allocator \<Rightarrow> int \<times> mdb_idl \<Rightarrow> mdb_idl \<Rightarrow> mdb_id list \<Rightarrow> bool" where
  "appended malloc r b is \<longleftrightarrow>
     fst r = 0 \<and> midl_inv (snd r) \<and> midl_list (snd r) = midl_list b @ is \<or>
     r = (ENOMEM, b) \<and> refused malloc b"

lemma append_eq:
  "mdb_midl_append malloc b i =
     (if b ! 0 \<le> b ! 1 then
        (case mdb_midl_grow malloc b (of_nat MDB_IDL_UM_MAX) of
           (rc, b') \<Rightarrow> if rc \<noteq> 0 then (ENOMEM, b') else (0, mdb_midl_xappend b' i))
      else (0, mdb_midl_xappend b i))"
  by (simp add: mdb_midl_append_def mdb_midl_xappend_def Let_def split: prod.split)

lemma ENOMEM_nonzero [simp]: "ENOMEM \<noteq> 0"
  by (simp add: ENOMEM_def)

lemma append_appended:
  assumes "malloc_ok malloc" "midl_inv b"
  shows "appended malloc (mdb_midl_append malloc b i) b [i]"
proof -
  obtain n xs where b: "b = block n xs" "n \<le> length xs" "length xs + 2 < 2 ^ 60"
    using assms(2) by (rule midl_block_cases)
  have x: "appended malloc (0, mdb_midl_xappend (block n ys) i) b [i]"
    if "n < length ys" "length ys + 2 < 2 ^ 60" "take n ys = take n xs" for ys
  proof -
    have "take (Suc n) (ys[n := i]) = take n xs @ [i]" using that by (simp add: take_Suc_update)
    then show ?thesis using that b
      by (simp add: appended_def xappend_block midl_block)
  qed
  have um: "unat (of_nat MDB_IDL_UM_MAX :: u32) < 2 ^ 31" "0 < unat (of_nat MDB_IDL_UM_MAX :: u32)"
    by (simp_all add: MDB_IDL_UM_MAX_def)
  have full: "b ! 0 \<le> b ! 1 \<longleftrightarrow> n = length xs"
    using b by (auto simp: word_le_nat_alt)
  show ?thesis
  proof (cases "n = length xs")
    case False
    then show ?thesis unfolding append_eq full using x[of xs] b by simp
  next
    case True
    from assms(1) b(2,3) um(1) show ?thesis
    proof (cases rule: grow_block)
      case fail
      then show ?thesis unfolding append_eq full using True b(1) refusedI[of malloc, OF fail(2) um(1)]
        by (simp add: appended_def)
    next
      case (ok ys)
      then show ?thesis unfolding append_eq full using True b(1) x[of "xs @ ys"] um(2) by simp
    qed
  qed
qed

lemma count_block_le:
  assumes "n \<le> length xs" "length xs + 2 < 2 ^ 60" "m < 2 ^ 32"
  shows "(of_nat (length xs) \<le> of_nat n + (of_nat m :: mdb_id)) \<longleftrightarrow> length xs \<le> n + m"
    and "(of_nat (length xs) < of_nat n + (of_nat m :: mdb_id)) \<longleftrightarrow> length xs < n + m"
proof -
  have "of_nat n + (of_nat m :: mdb_id) = of_nat (n + m)" by simp
  moreover have "n + m < 2 ^ 64" "length xs < 2 ^ 64" using assms by simp_all
  ultimately show "(of_nat (length xs) \<le> of_nat n + (of_nat m :: mdb_id)) \<longleftrightarrow> length xs \<le> n + m"
    and "(of_nat (length xs) < of_nat n + (of_nat m :: mdb_id)) \<longleftrightarrow> length xs < n + m"
    by (simp_all only: word_le_nat_alt word_less_nat_alt unat_of_nat_small)
qed

lemma memcpy_block:
  assumes "n + length is \<le> length zs"
  shows "memcpy_words (block n zs) (n + 2) is = block n (take n zs @ is @ drop (n + length is) zs)"
  using assms by (simp add: memcpy_words_def block_def)

lemma append_list_appended:
  assumes "malloc_ok malloc" "midl_inv b" "midl_inv app" "unat (app ! 1) < 2 ^ 31"
  shows "appended malloc (mdb_midl_append_list malloc b app) b (midl_list app)"
proof -
  obtain n xs where b: "b = block n xs" "n \<le> length xs" "length xs + 2 < 2 ^ 60"
    using assms(2) by (rule midl_block_cases)
  obtain m as where a: "app = block m as" "m \<le> length as" "length as + 2 < 2 ^ 60"
    using assms(3) by (rule midl_block_cases)
  have m: "m < 2 ^ 31" using assms(4) a by simp
  have u: "unat (ucast (of_nat m :: mdb_id) :: u32) = m" using m
    by (simp add: unsigned_ucast_eq unsigned_of_nat take_bit_nat_eq_self)
  have sum: "of_nat n + (of_nat m :: mdb_id) = of_nat (n + m)" by simp
  define copied where "copied zs = block (n + m) (take n zs @ take m as @ drop (n + m) zs)" for zs
  have x: "appended malloc (0, copied zs) b (midl_list app)"
    if "n + m \<le> length zs" "length zs + 2 < 2 ^ 60" "take n zs = take n xs" for zs
    using that b a by (simp add: appended_def copied_def midl_block)
  have c: "(let ids = memcpy_words (block n zs) (unat (block n zs ! 1) + 2) (take (unat (app ! 1)) (drop 2 app))
      in (0, ids[1 := ids ! 1 + app ! 1])) = (0, copied zs)"
    if "n + m \<le> length zs" "length zs + 2 < 2 ^ 60" for zs
    using that a b memcpy_block[of n "take m as" zs]
    by (simp add: Let_def copied_def sum flip: of_nat_add)
  have full: "b ! 0 \<le> b ! 1 + app ! 1 \<longleftrightarrow> length xs \<le> n + m"
    using count_block_le(1)[OF b(2,3), of m] m by (simp add: a b)
  show ?thesis
  proof (cases "length xs \<le> n + m")
    case False
    then show ?thesis unfolding mdb_midl_append_list_def full
      using c[of xs] x[of xs] b by (simp add: Let_def)
  next
    case True
    have g: "unat (ucast (of_nat m :: mdb_id) :: u32) < 2 ^ 31" using m u by simp
    from assms(1) b(2,3) g show ?thesis
    proof (cases rule: grow_block)
      case fail
      then show ?thesis unfolding mdb_midl_append_list_def full
        using True a(1) b(1) refusedI[of malloc, OF fail(2) g] by (simp add: appended_def)
    next
      case (ok ys)
      then have "n + m \<le> length (xs @ ys)" using b(2) by (simp add: u)
      then show ?thesis unfolding mdb_midl_append_list_def full
        using c[of "xs @ ys"] x[of "xs @ ys"] True a(1) b(1,2) ok by (simp add: Let_def)
    qed
  qed
qed

lemma range_loop_block:
  assumes "len + n \<le> length zs"
  shows "range_loop (block c zs) len n i =
    block c (take len zs @ rev (map (\<lambda>k. i + of_nat k) [0..<n]) @ drop (len + n) zs)"
  using assms
proof (induction n arbitrary: zs i)
  case 0
  then show ?case by (simp add: range_loop.simps)
next
  case (Suc n)
  have "rev (map (\<lambda>k. i + of_nat k) [0..<Suc n]) = rev (map (\<lambda>k. i + 1 + of_nat k) [0..<n]) @ [i]"
    by (simp add: upt_conv_Cons map_Suc_upt[symmetric] o_def algebra_simps del: upt_Suc map_Suc_upt)
  moreover have "drop (len + n) (zs[len + n := i]) = i # drop (len + Suc n) zs"
    using Suc.prems by (simp add: Cons_nth_drop_Suc[symmetric])
  moreover have "range_loop (block c zs) len (Suc n) i = range_loop (block c (zs[len + n := i])) len n (i + 1)"
    by (subst range_loop.simps) simp
  ultimately show ?case using Suc.IH[of "zs[len + n := i]" "i + 1"] Suc.prems by simp
qed

lemma or_um_max:
  fixes n :: u32
  assumes "unat n < 2 ^ 31"
  shows "unat n \<le> unat (n OR of_nat MDB_IDL_UM_MAX)" "unat (n OR of_nat MDB_IDL_UM_MAX) < 2 ^ 31"
proof -
  have e: "int (unat (n OR of_nat MDB_IDL_UM_MAX)) = int (unat n) OR 131071"
    by (simp add: MDB_IDL_UM_MAX_def uint_or)
  have "int (unat n) \<le> int (unat n) OR 131071" by (simp add: or_greater_eq)
  then show "unat n \<le> unat (n OR of_nat MDB_IDL_UM_MAX)" 
    unfolding e[symmetric] by (simp only: of_nat_le_iff)
  have "int (unat n) < 2 ^ 31" using assms by (simp only: of_nat_less_numeral_power_cancel_iff)
  then have "int (unat n) OR 131071 < 2 ^ 31" by (intro OR_upper) simp_all
  then show "unat (n OR of_nat MDB_IDL_UM_MAX) < 2 ^ 31"
    unfolding e[symmetric] by (simp only: of_nat_less_numeral_power_cancel_iff)
qed

lemma append_range_appended:
  assumes "malloc_ok malloc" "midl_inv b" "unat cnt < 2 ^ 31"
  shows "appended malloc (mdb_midl_append_range malloc b i cnt) b (rev (map (\<lambda>k. i + of_nat k) [0..<unat cnt]))"
proof -
  obtain n xs where b: "b = block n xs" "n \<le> length xs" "length xs + 2 < 2 ^ 60"
    using assms(2) by (rule midl_block_cases)
  define m where "m = unat cnt"
  have u: "(ucast cnt :: mdb_id) = of_nat m" by (simp add: m_def)
  have m: "m < 2 ^ 31" using assms(3) by (simp add: m_def)
  have sum: "(of_nat n :: mdb_id) + of_nat m = of_nat (n + m)" by simp
  have x: "appended malloc (0, range_loop ((block n zs)[1 := b ! 1 + ucast cnt]) (unat (b ! 1)) (unat cnt) i) b
      (rev (map (\<lambda>k. i + of_nat k) [0..<unat cnt]))"
    if "n + m \<le> length zs" "length zs + 2 < 2 ^ 60" "take n zs = take n xs" for zs
    using that b range_loop_block[of n m zs "n + m" i]
    by (simp add: u sum appended_def midl_block m_def[symmetric] del: of_nat_add)
  have full: "b ! 0 < b ! 1 + ucast cnt \<longleftrightarrow> length xs < n + m"
    using count_block_le(2)[OF b(2,3), of m] m by (simp add: b u)
  show ?thesis
  proof (cases "length xs < n + m")
    case False
    then show ?thesis unfolding mdb_midl_append_range_def Let_def full
      using x[of xs] b by simp
  next
    case True
    from assms(1) b(2,3) or_um_max(2)[OF assms(3)] show ?thesis
    proof (cases rule: grow_block)
      case fail
      then show ?thesis unfolding mdb_midl_append_range_def Let_def full
        using True b(1) refusedI[of malloc, OF fail(2) or_um_max(2)[OF assms(3)]] by (simp add: appended_def)
    next
      case (ok ys)
      then have "n + m \<le> length (xs @ ys)" using b(2) or_um_max(1)[OF assms(3)] by (simp add: m_def)
      then show ?thesis unfolding mdb_midl_append_range_def Let_def full
        using x[of "xs @ ys"] True b(1,2) ok by simp
    qed
  qed
qed

lemma alloc_empty:
  assumes "malloc_ok malloc" "mdb_midl_alloc malloc num = Some b"
  shows "midl_inv b \<and> midl_list b = [] \<and> length b = num + 2"
proof -
  obtain z where z: "malloc ((num + 2) * 8) = Some z" "b = z[0 := of_nat num, 1 := 0]"
    using assms(2) unfolding mdb_midl_alloc_def by auto
  have len: "length z = num + 2" "length z < 2 ^ 60"
    using z(1) assms(1) unfolding malloc_ok_def by fastforce+
  then obtain x y zs where zs: "z = x # y # zs" "length zs = num" by (auto simp: length_Suc_conv)
  have "b = block 0 zs" unfolding z(2) zs block_def using zs(2) by simp
  then show ?thesis using len zs by (simp add: midl_block)
qed

lemma shrink_list:
  assumes "malloc_ok malloc" "midl_inv b" "unat (b ! 1) \<le> MDB_IDL_UM_MAX"
  shows "midl_inv (mdb_midl_shrink malloc b) \<and> midl_list (mdb_midl_shrink malloc b) = midl_list b"
proof (cases "of_nat MDB_IDL_UM_MAX < b ! 0 \<and> realloc malloc b ((MDB_IDL_UM_MAX + 2) * 8) \<noteq> None")
  case False
  then show ?thesis using assms(2) by (auto simp: mdb_midl_shrink_def)
next
  case True
  then obtain c where c: "of_nat MDB_IDL_UM_MAX < b ! 0" "realloc malloc b ((MDB_IDL_UM_MAX + 2) * 8) = Some c" by auto
  obtain n xs where b: "b = block n xs" "n \<le> length xs" "length xs + 2 < 2 ^ 60"
    using assms(2) by (rule midl_block_cases)
  have um: "MDB_IDL_UM_MAX < length xs"
    using c(1) b by (simp add: word_less_nat_alt MDB_IDL_UM_MAX_def)
  have n: "n \<le> MDB_IDL_UM_MAX" using assms(3) b by simp
  obtain z where z: "malloc ((MDB_IDL_UM_MAX + 2) * 8) = Some z" "c = take (length z) b @ drop (length b) z"
    using c(2) unfolding realloc_def by auto
  have "length z = MDB_IDL_UM_MAX + 2" using z(1) assms(1) unfolding malloc_ok_def by fastforce
  then have "c = of_nat (length xs) # of_nat n # take MDB_IDL_UM_MAX xs"
    using um by (simp add: z(2) b block_def)
  then have "c[0 := of_nat MDB_IDL_UM_MAX] = block n (take MDB_IDL_UM_MAX xs)"
    using um by (simp add: block_def)
  then show ?thesis using c um n b
    by (simp add: mdb_midl_shrink_def midl_block min_def)
qed


lemma and_not_255: "unat ((x :: u32) AND - 256) = 256 * (unat x div 256)"
proof -
  have m: "(- 256 :: u32) = NOT (mask 8)" by (simp add: mask_numeral)
  have "x AND NOT (mask 8) = push_bit 8 (drop_bit 8 x)"
    by (rule bit_eqI) (auto simp: bit_simps)
  then have "unat (x AND - 256) = unat (push_bit 8 (drop_bit 8 x))" unfolding m by simp
  also have "\<dots> = unat (256 * (x div 256))"
    by (simp add: push_bit_eq_mult drop_bit_eq_div mult.commute)
  also have "\<dots> = 256 * (unat x div 256)"
  proof (subst unat_mult_lem[THEN iffD1])
    have "256 * (unat x div 256) \<le> unat x" by simp
    also have "\<dots> < 2 ^ LENGTH(32)" by (rule unsigned_less)
    finally show "unat (256 :: u32) * unat (x div 256) < 2 ^ LENGTH(32)"
      by (simp only: unat_div_distrib) simp
  qed (simp add: unat_div_distrib)
  finally show ?thesis .
qed

lemma need_arith:
  assumes "x < 2 ^ 31"
  shows "x + x div 4 + 258 < (2 ^ 32 :: nat)" "x + 2 \<le> 256 * ((x + x div 4 + 258) div 256)"
    "256 * ((x + x div 4 + 258) div 256) < 2 ^ 32"
proof -
  show 1: "x + x div 4 + 258 < (2 ^ 32 :: nat)" using assms by simp
  have "256 * ((x + x div 4 + 258) div 256) + (x + x div 4 + 258) mod 256 = x + x div 4 + 258" by simp
  moreover have "(x + x div 4 + 258) mod 256 < 256" by simp
  ultimately show "x + 2 \<le> 256 * ((x + x div 4 + 258) div 256)"
    "256 * ((x + x div 4 + 258) div 256) < 2 ^ 32" using 1 by linarith+
qed

text \<open>The size \<open>mdb_midl_need\<close> asks for, computed with 32 bits: a quarter more, rounded up.\<close>

lemma need_words:
  fixes num :: u32
  assumes n: "n + unat num < 2 ^ 31"
  defines "s \<equiv> num + ucast (of_nat n :: mdb_id)"
  defines "N \<equiv> (s + s div 4 + (256 + 2)) AND (- 256)"
  shows "unat s = n + unat num" "n + unat num + 2 \<le> unat N" "unat (ucast N * 8 :: u64) = 8 * unat N"
    "unat (N - 2) = unat N - 2" "unat N < 2 ^ 32"
proof -
  note ar = need_arith[OF n]
  have "unat (ucast (of_nat n :: mdb_id) :: u32) = n"
    using n by (simp add: unsigned_ucast_eq unsigned_of_nat take_bit_nat_eq_self)
  then show s: "unat s = n + unat num"
    unfolding s_def using n by (subst unat_add_lem[THEN iffD1]) simp_all
  have q: "unat (s + s div 4) = unat s + unat s div 4"
    using ar(1) s by (subst unat_add_lem[THEN iffD1]) (simp_all add: unat_div_distrib)
  have "unat (s + s div 4 + (256 + 2)) = unat s + unat s div 4 + 258"
    using ar(1) s q by (subst unat_add_lem[THEN iffD1]) simp_all
  then have N: "unat N = 256 * ((n + unat num + (n + unat num) div 4 + 258) div 256)"
    unfolding N_def and_not_255 by (simp add: s)
  show room: "n + unat num + 2 \<le> unat N" using ar(2) N by simp
  show "unat (ucast N * 8 :: u64) = 8 * unat N"
    using ar(3) N by (subst unat_mult_lem[THEN iffD1]) (simp_all add: unsigned_ucast_eq take_bit_nat_eq_self)
  have "2 \<le> unat N" using room by linarith
  then show "unat (N - 2) = unat N - 2" by (subst unat_sub) (simp_all add: word_le_nat_alt)
  show "unat N < 2 ^ 32" using ar(3) N by simp
qed

lemma realloc_block:
  assumes "malloc (8 * m) = Some z" "length z = m" "length xs + 2 \<le> m"
  obtains ys where "length (xs @ ys) = m - 2"
    "realloc malloc (block n xs) (8 * m) = Some (of_nat (length xs) # of_nat n # xs @ ys)"
proof (rule that)
  show "length (xs @ drop (length xs + 2) z) = m - 2" using assms(2,3) by simp
  show "realloc malloc (block n xs) (8 * m) = Some (of_nat (length xs) # of_nat n # xs @ drop (length xs + 2) z)"
    using assms by (simp add: realloc_def) (simp add: block_def)
qed

lemma need_room:
  assumes "malloc_ok malloc" "midl_inv b" "unat (b ! 1) + unat num < 2 ^ 31"
  shows "(case mdb_midl_need malloc b num of (rc, b') \<Rightarrow>
    rc = 0 \<and> midl_inv b' \<and> midl_list b' = midl_list b \<and> unat (b ! 1) + unat num \<le> unat (b' ! 0) \<or>
    rc = ENOMEM \<and> b' = b \<and> refused malloc b)"
proof -
  obtain n xs where b: "b = block n xs" "n \<le> length xs" "length xs + 2 < 2 ^ 60"
    using assms(2) by (rule midl_block_cases)
  have n: "n + unat num < 2 ^ 31" and b1: "b ! 1 = of_nat n" using assms(3) b by simp_all
  define s where "s = num + ucast (b ! 1)"
  define N where "N = (s + s div 4 + (256 + 2)) AND (- 256)"
  note w = need_words[OF n, folded b1, folded s_def, folded N_def]
  have big: "b ! 0 < ucast s \<longleftrightarrow> length xs < n + unat num"
    using b w(1) n by (simp add: word_less_nat_alt unsigned_ucast_eq take_bit_nat_eq_self)
  show ?thesis
  proof (cases "length xs < n + unat num")
    case False
    then have "mdb_midl_need malloc b num = (0, b)"
      using big by (simp only: mdb_midl_need_def Let_def s_def[symmetric] if_False)
    then show ?thesis using False assms(2) b by simp
  next
    case True
    have need: "mdb_midl_need malloc b num =
        (case realloc malloc b (8 * unat N) of None \<Rightarrow> (ENOMEM, b)
         | Some ids \<Rightarrow> (0, ids[0 := ucast (N - 2)]))"
      unfolding mdb_midl_need_def Let_def s_def[symmetric] N_def[symmetric] w(3)
      using True big by simp
    show ?thesis
    proof (cases "malloc (8 * unat N)")
      case None
      moreover have "refused malloc b"
        unfolding refused_def using None w(5) by (intro exI[of _ "unat N"]) simp
      ultimately show ?thesis unfolding need by (simp add: realloc_def)
    next
      case (Some z)
      have z: "length z = unat N" using Some assms(1) unfolding malloc_ok_def by fastforce
      have "length xs + 2 \<le> unat N" using w(2) True by linarith
      then obtain ys where l: "length (xs @ ys) = unat N - 2"
        and r: "realloc malloc (block n xs) (8 * unat N) = Some (of_nat (length xs) # of_nat n # xs @ ys)"
        by (rule realloc_block[of malloc "unat N" z, OF Some z])
      have "(ucast (N - 2) :: mdb_id) = of_nat (length (xs @ ys))" unfolding l w(4)[symmetric] by simp
      then have "mdb_midl_need malloc b num = (0, block n (xs @ ys))"
        unfolding need r[folded b(1)] by (simp add: block_def)
      moreover have "length xs + length ys + 2 = unat N" using l w(2) by simp
      ultimately show ?thesis using w(2,5) b n by (simp add: midl_block flip: of_nat_add)
    qed
  qed
qed

subsection \<open>Merging two lists\<close>

fun xmerge_for :: "mdb_id list \<Rightarrow> nat \<Rightarrow> nat \<Rightarrow> mdb_id \<Rightarrow> mdb_id \<Rightarrow>
    (mdb_id list \<times> nat \<times> nat \<times> mdb_id) option" where
  "xmerge_for idl j k old_id merge_id =
     (if old_id < merge_id then
        (case j of
           0 \<Rightarrow> None
         | Suc j \<Rightarrow> let idl = idl[k := old_id] in xmerge_for idl j (k - 1) (idl ! j) merge_id)
      else Some (idl, j, k, old_id))"

declare xmerge_for.simps [simp del]

fun xmerge_loop :: "mdb_id list \<Rightarrow> mdb_id list \<Rightarrow> nat \<Rightarrow> nat \<Rightarrow> nat \<Rightarrow> mdb_id \<Rightarrow> mdb_id list option" where
  "xmerge_loop idl merge 0 j k old_id = Some idl"
| "xmerge_loop idl merge (Suc i) j k old_id =
     (case xmerge_for idl j k old_id (merge ! Suc i) of
        None \<Rightarrow> None
      | Some (idl, j, k, old_id) \<Rightarrow>
          xmerge_loop (idl[k := merge ! Suc i]) merge i j (k - 1) old_id)"

definition mdb_midl_xmerge :: "mdb_id list \<Rightarrow> mdb_id list \<Rightarrow> mdb_id list option" where
  "mdb_midl_xmerge idl merge =
     (let i = unat (merge ! 0); j = unat (idl ! 0); k = i + j; total = k;
          idl = idl[0 := - 1];
          old_id = idl ! j in
      map_option (\<lambda>idl. idl[0 := of_nat total]) (xmerge_loop idl merge i j k old_id))"

lemma xmerge_for_splits:
  assumes "m \<le> mx" "gap \<noteq> []"
  shows "\<exists>gap'. length gap' = length gap \<and>
    xmerge_for (mx # as @ gap @ dn) (length as) (length as + length gap) (last (mx # as)) m =
      Some (mx # rev (dropWhile (\<lambda>x. x < m) (rev as)) @ gap' @ rev (takeWhile (\<lambda>x. x < m) (rev as)) @ dn,
        length (dropWhile (\<lambda>x. x < m) (rev as)), length (dropWhile (\<lambda>x. x < m) (rev as)) + length gap,
        last (mx # rev (dropWhile (\<lambda>x. x < m) (rev as))))"
  using assms
proof (induction as arbitrary: gap dn rule: rev_induct)
  case Nil
  then show ?case by (subst xmerge_for.simps) auto
next
  case (snoc a as)
  show ?case
  proof (cases "a < m")
    case False
    then show ?thesis by (intro exI[of _ gap], subst xmerge_for.simps) simp
  next
    case True
    have upd: "(mx # (as @ [a]) @ gap @ dn)[length (as @ [a]) + length gap := a] = mx # as @ (a # butlast gap) @ a # dn"
      using snoc.prems(2) by (cases gap rule: rev_cases) (simp_all add: list_update_append nth_append)
    have nth: "(mx # as @ (a # butlast gap) @ a # dn) ! length as = last (mx # as)"
      by (cases as rule: rev_cases) (simp_all add: nth_append)
    have len: "length (a # butlast gap) = length gap" using snoc.prems(2) by simp
    have "xmerge_for (mx # (as @ [a]) @ gap @ dn) (length (as @ [a])) (length (as @ [a]) + length gap) (last (mx # as @ [a])) m
        = xmerge_for (mx # as @ (a # butlast gap) @ a # dn) (length as) (length as + length gap) (last (mx # as)) m"
      using True by (subst xmerge_for.simps) (simp only: Let_def upd nth length_append nat.case, simp add: upd[simplified] nth[simplified])
    moreover obtain gap' where "length gap' = length (a # butlast gap)"
      "xmerge_for (mx # as @ (a # butlast gap) @ a # dn) (length as) (length as + length gap) (last (mx # as)) m =
      Some (mx # rev (dropWhile (\<lambda>x. x < m) (rev as)) @ gap' @ rev (takeWhile (\<lambda>x. x < m) (rev as)) @ a # dn,
        length (dropWhile (\<lambda>x. x < m) (rev as)), length (dropWhile (\<lambda>x. x < m) (rev as)) + length gap,
        last (mx # rev (dropWhile (\<lambda>x. x < m) (rev as))))"
      using snoc.IH[OF snoc.prems(1), of "a # butlast gap" "a # dn"] unfolding len by blast
    ultimately show ?thesis using True len by auto
  qed
qed

lemma xmerge_loop_merges:
  assumes "length gap = length ms" "\<forall>m\<in>set ms. m \<le> mx" "\<And>i. i < length ms \<Longrightarrow> merge ! Suc i = ms ! i"
  shows "\<exists>r. xmerge_loop (mx # as @ gap @ dn) merge (length ms) (length as) (length as + length ms) (last (mx # as))
      = Some (mx # r @ dn) \<and> mset r = mset as + mset ms \<and> (descending as \<longrightarrow> descending ms \<longrightarrow> descending r)"
  using assms
proof (induction ms arbitrary: as gap dn rule: rev_induct)
  case Nil
  then show ?case by simp
next
  case (snoc m ms)
  define a1 a2 where "a1 = rev (dropWhile (\<lambda>x. x < m) (rev as))" and "a2 = rev (takeWhile (\<lambda>x. x < m) (rev as))"
  have as: "as = a1 @ a2" unfolding a1_def a2_def by (metis rev_append rev_rev_ident takeWhile_dropWhile_id)
  have m: "merge ! Suc (length ms) = m" using snoc.prems(3)[of "length ms"] by simp
  have "m \<le> mx" "gap \<noteq> []" using snoc.prems by auto
  from xmerge_for_splits[OF this, of as dn] obtain gap' where g:
    "length gap' = length gap"
    "xmerge_for (mx # as @ gap @ dn) (length as) (length as + length gap) (last (mx # as)) m =
      Some (mx # a1 @ gap' @ a2 @ dn, length a1, length a1 + length gap, last (mx # a1))"
    unfolding a1_def a2_def length_rev by blast
  have "gap' \<noteq> []" using g(1) \<open>gap \<noteq> []\<close> by auto
  then have upd: "(mx # a1 @ gap' @ a2 @ dn)[length a1 + length gap := m] = mx # a1 @ butlast gap' @ m # a2 @ dn"
    unfolding g(1)[symmetric]
    by (cases gap' rule: rev_cases) (simp_all add: list_update_append)
  have step: "xmerge_loop (mx # as @ gap @ dn) merge (length (ms @ [m])) (length as) (length as + length (ms @ [m])) (last (mx # as))
      = xmerge_loop (mx # a1 @ butlast gap' @ m # a2 @ dn) merge (length ms) (length a1) (length a1 + length ms) (last (mx # a1))"
  proof -
    have l: "length gap = Suc (length ms)" "length (ms @ [m]) = Suc (length ms)" using snoc.prems(1) by simp_all
    note e = g(2)[unfolded l(1)] upd[unfolded l(1)]
    show ?thesis unfolding l(2) xmerge_loop.simps m e(1) option.case prod.case e(2) by simp
  qed
  have "length (butlast gap') = length ms" "\<forall>m\<in>set ms. m \<le> mx" "\<And>i. i < length ms \<Longrightarrow> merge ! Suc i = ms ! i"
    using g(1) snoc.prems by (auto simp: nth_append dest!: spec)
  from snoc.IH[OF this, of a1 "m # a2 @ dn"] obtain r where r:
    "xmerge_loop (mx # a1 @ butlast gap' @ m # a2 @ dn) merge (length ms) (length a1) (length a1 + length ms) (last (mx # a1))
      = Some (mx # r @ m # a2 @ dn)" "mset r = mset a1 + mset ms" "descending a1 \<longrightarrow> descending ms \<longrightarrow> descending r"
    by blast
  have "descending (r @ m # a2)" if d: "descending as" "descending (ms @ [m])"
  proof -
    have "x < m" if "x \<in> set a2" for x using that set_takeWhileD unfolding a2_def by fastforce
    moreover have "m \<le> x" if "x \<in> set a1" for x
    proof -
      have "a1 \<noteq> []" using that by auto
      then have "m \<le> last a1" unfolding a1_def by (metis hd_dropWhile last_rev leI rev_is_Nil_conv)
      then show ?thesis using that d(1) \<open>a1 \<noteq> []\<close> unfolding as
        by (cases a1 rule: rev_cases) (auto simp: sorted_wrt_append)
    qed
    moreover have "set r = set a1 \<union> set ms" using r(2) by (metis set_mset_mset set_mset_union)
    ultimately show ?thesis using d r(3) unfolding as
      by (auto simp: sorted_wrt_append less_imp_le intro: order.trans[of _ m])
  qed
  moreover have "mset (r @ m # a2) = mset as + mset (ms @ [m])" using r(2) by (simp add: as)
  ultimately show ?case unfolding step r(1) by (intro exI[of _ "r @ m # a2"]) simp
qed

lemma descending_unique:
  "descending xs \<Longrightarrow> descending ys \<Longrightarrow> mset xs = mset ys \<Longrightarrow> xs = ys" for xs :: "'a::linorder list"
  unfolding descending_rev by (metis mset_rev properties_for_sort rev_rev_ident)

lemma descending_rev_sort: "descending (rev (sort xs))"
  by (simp add: descending_rev)

lemma xmerge_sorts:
  assumes "length xs + unat (merge ! 0) < 2 ^ 64" "length gap = unat (merge ! 0)" "Suc (unat (merge ! 0)) \<le> length merge"
    "descending xs" "descending (take (unat (merge ! 0)) (tl merge))"
  shows "mdb_midl_xmerge (of_nat (length xs) # xs @ gap @ rest) merge =
    Some (of_nat (length xs + unat (merge ! 0)) # rev (sort (xs @ take (unat (merge ! 0)) (tl merge))) @ rest)"
proof -
  define ms where "ms = take (unat (merge ! 0)) (tl merge)"
  have len: "length ms = unat (merge ! 0)" using assms(3) by (simp add: ms_def)
  have nth: "merge ! Suc i = ms ! i" if "i < length ms" for i
    using that len assms(3) by (cases merge) (simp_all add: ms_def)
  have mx: "\<forall>m\<in>set ms. m \<le> (- 1 :: mdb_id)" by simp
  have last: "(- 1 # xs @ gap @ rest) ! length xs = last (- 1 # xs)"
    by (cases xs rule: rev_cases) (simp_all add: nth_append)
  from xmerge_loop_merges[OF _ mx nth, of gap xs rest] assms(2) len obtain r where r:
    "xmerge_loop (- 1 # xs @ gap @ rest) merge (length ms) (length xs) (length xs + length ms) (last (- 1 # xs)) = Some (- 1 # r @ rest)"
    "mset r = mset xs + mset ms" "descending xs \<longrightarrow> descending ms \<longrightarrow> descending r" by auto
  have "r = rev (sort (xs @ ms))"
    using r(2,3) assms(4,5) by (intro descending_unique) (simp_all add: ms_def[symmetric] descending_rev_sort)
  moreover have "length xs < 2 ^ 64" using assms(1) by simp
  ultimately show ?thesis using r(1) last
    by (simp add: mdb_midl_xmerge_def Let_def len ms_def[symmetric] add.commute)
qed

subsection \<open>Lists of IDs with their pages\<close>

record 'p mdb_id2 =
  mid :: mdb_id
  mptr :: 'p

definition mdb_mid2l_search :: "'p mdb_id2 list \<Rightarrow> mdb_id \<Rightarrow> nat" where
  "mdb_mid2l_search ids i =
     search_loop (\<lambda>cursor. CMP i (mid (ids ! cursor))) 0 (unat (ucast (mid (ids ! 0)) :: u32)) 1 0"

fun shift_up :: "'a list \<Rightarrow> nat \<Rightarrow> nat \<Rightarrow> 'a list" where
  "shift_up ids i x = (if x < i then shift_up (ids[i := ids ! (i - 1)]) (i - 1) x else ids)"

declare shift_up.simps [simp del]

definition mdb_mid2l_insert :: "'p mdb_id2 list \<Rightarrow> 'p mdb_id2 \<Rightarrow> int \<times> 'p mdb_id2 list" where
  "mdb_mid2l_insert ids i =
     (let x = mdb_mid2l_search ids (mid i) in
      if x < 1 then (- 2, ids)
      else if of_nat x \<le> mid (ids ! 0) \<and> mid (ids ! x) = mid i then (- 1, ids)
      else if of_nat MDB_IDL_UM_MAX \<le> mid (ids ! 0) then (- 2, ids)
      else
        let ids = ids[0 := (ids ! 0)\<lparr>mid := mid (ids ! 0) + 1\<rparr>];
            ids = shift_up ids (unat (ucast (mid (ids ! 0)) :: u32)) x in
        (0, ids[x := i]))"

definition mdb_mid2l_append :: "'p mdb_id2 list \<Rightarrow> 'p mdb_id2 \<Rightarrow> int \<times> 'p mdb_id2 list" where
  "mdb_mid2l_append ids i =
     (if of_nat MDB_IDL_UM_MAX \<le> mid (ids ! 0) then (- 2, ids)
      else let ids = ids[0 := (ids ! 0)\<lparr>mid := mid (ids ! 0) + 1\<rparr>] in
        (0, ids[unat (mid (ids ! 0)) := i]))"

text \<open>An array of UM_SIZE slots whose first entry counts the entries in use.\<close>

definition mid2l_inv :: "'p mdb_id2 list \<Rightarrow> bool" where
  "mid2l_inv ids \<longleftrightarrow> length ids = MDB_IDL_UM_MAX + 1 \<and> unat (mid (ids ! 0)) \<le> MDB_IDL_UM_MAX \<and>
     sorted_wrt (<) (map mid (take (unat (mid (ids ! 0))) (tl ids)))"

definition mid2l_list :: "'p mdb_id2 list \<Rightarrow> 'p mdb_id2 list" where
  "mid2l_list ids = take (unat (mid (ids ! 0))) (tl ids)"

lemma shift_up_moves:
  "\<exists>h'. shift_up (pre @ s @ h # post) (length pre + length s) (length pre) = pre @ h' # s @ post"
proof (induction s arbitrary: h post rule: rev_induct)
  case Nil
  then show ?case by (subst shift_up.simps) auto
next
  case (snoc a s)
  have "(pre @ (s @ [a]) @ h # post)[length pre + length (s @ [a]) :=
      (pre @ (s @ [a]) @ h # post) ! (length pre + length (s @ [a]) - 1)] = pre @ s @ a # a # post"
    by (simp add: list_update_append nth_append)
  then have "shift_up (pre @ (s @ [a]) @ h # post) (length pre + length (s @ [a])) (length pre) =
      shift_up (pre @ s @ a # a # post) (length pre + length s) (length pre)"
    by (subst shift_up.simps) simp
  then show ?case using snoc.IH[of a "a # post"] by simp
qed

lemma mid2l_search_ascending:
  assumes "unat (mid c) < 2 ^ 32" "unat (mid c) \<le> length xs" "sorted_wrt (<) (map mid (take (unat (mid c)) xs))"
  shows "mdb_mid2l_search (c # xs) i = 1 + length (takeWhile (\<lambda>x. mid x < i) (take (unat (mid c)) xs))"
proof -
  define ys where "ys = take (unat (mid c)) xs"
  have n: "unat (ucast (mid c) :: u32) = length ys"
    using assms(1,2) by (simp add: ys_def unsigned_ucast_eq take_bit_nat_eq_self)
  have nth: "(c # xs) ! Suc k = ys ! k" if "k < length ys" for k using that by (simp add: ys_def)
  have "search_loop (\<lambda>p. CMP i (mid ((c # xs) ! p))) 0 (length ys) 1 0 = 1 + length (takeWhile (\<lambda>x. mid x < i) ys)"
  proof (rule search_takeWhile)
    show "CMP i (mid ((c # xs) ! Suc l)) < 0" if "k < l" "l < length ys" "\<not> mid (ys ! k) < i" for k l
    proof -
      have "mid (ys ! k) < mid (ys ! l)"
        using assms(3) that unfolding ys_def[symmetric] sorted_wrt_iff_nth_less by simp
      then have "i < mid (ys ! l)" using that(3) by (meson leI order.strict_trans1)
      then show ?thesis using that nth[of l] by (simp add: CMP_def)
    qed
  qed (simp only: nth, auto simp: CMP_def)
  then show ?thesis unfolding mdb_mid2l_search_def by (simp add: n ys_def)
qed

lemma mid2l_cases:
  assumes "mid2l_inv ids"
  obtains c ys rest where "ids = c # ys @ rest" "mid c = of_nat (length ys)" "mid2l_list ids = ys"
    "length (ys @ rest) = MDB_IDL_UM_MAX" "sorted_wrt (<) (map mid ys)" "length ys < 2 ^ 32"
proof -
  obtain c xs where c: "ids = c # xs" using assms by (cases ids) (auto simp: mid2l_inv_def)
  have um: "MDB_IDL_UM_MAX < 2 ^ 32" by (simp add: MDB_IDL_UM_MAX_def)
  show thesis
    by (rule that[of c "take (unat (mid c)) xs" "drop (unat (mid c)) xs"])
      (use assms um in \<open>simp_all add: c mid2l_inv_def mid2l_list_def min_absorb2\<close>)
qed

lemma mid2l_listI:
  assumes "mid c = of_nat (length ys)" "length (ys @ rest) = MDB_IDL_UM_MAX" "sorted_wrt (<) (map mid ys)"
  shows "mid2l_inv (c # ys @ rest)" "mid2l_list (c # ys @ rest) = ys"
proof -
  have "length ys < 2 ^ 64" using assms(2) by (simp add: MDB_IDL_UM_MAX_def)
  then have "unat (mid c) = length ys" using assms(1) by simp
  then show "mid2l_inv (c # ys @ rest)" "mid2l_list (c # ys @ rest) = ys"
    using assms(2,3) by (simp_all add: mid2l_inv_def mid2l_list_def)
qed

lemma sorted_member_at:
  fixes f :: "'a \<Rightarrow> 'b::linorder"
  assumes "sorted_wrt (<) (map f ys)"
  shows "v \<in> f ` set ys \<longleftrightarrow>
    (case dropWhile (\<lambda>x. f x < v) ys of [] \<Rightarrow> False | y # _ \<Rightarrow> f y = v)"
  using assms by (induction ys) (auto simp: image_iff)

lemma sorted_insert_between:
  fixes f :: "'a \<Rightarrow> 'b::linorder"
  assumes "sorted_wrt (<) (map f ys)" "f y \<notin> f ` set ys"
  shows "sorted_wrt (<) (map f (takeWhile (\<lambda>x. f x < f y) ys @ y # dropWhile (\<lambda>x. f x < f y) ys))"
   
  using assms by (induction ys) (auto simp: image_iff dest: set_takeWhileD set_dropWhileD)

text \<open>
  Insertion into the sorted array: the position of the search, the three
  answers, and the entries after it.
\<close>

text \<open>The insertion as a function of the list: its two refusals, or the entries behind the place moved up.\<close>

lemma mid2l_insert_shifts:
  fixes i c :: "'a mdb_id2"
  assumes "mid c = of_nat (length ys)" "length (ys @ rest) = MDB_IDL_UM_MAX" "sorted_wrt (<) (map mid ys)"
  defines "k \<equiv> length (takeWhile (\<lambda>x. mid x < mid i) ys)"
  shows "mdb_mid2l_insert (c # ys @ rest) i =
    (if mid i \<in> mid ` set ys then (- 1, c # ys @ rest)
     else if length ys = MDB_IDL_UM_MAX then (- 2, c # ys @ rest)
     else (0, (shift_up (c\<lparr>mid := mid c + 1\<rparr> # ys @ rest) (length ys + 1) (1 + k))[1 + k := i]))"
proof -
  let ?ids = "c # ys @ rest"
  define pre s where "pre = takeWhile (\<lambda>x. mid x < mid i) ys" and "s = dropWhile (\<lambda>x. mid x < mid i) ys"
  have ys: "ys = pre @ s" and k: "k = length pre" by (simp_all add: pre_def s_def k_def)
  have um: "MDB_IDL_UM_MAX < 2 ^ 32" by (simp add: MDB_IDL_UM_MAX_def)
  then have small: "length ys < 2 ^ 32" using assms(2) by simp
  have u: "unat (mid c) = length ys" using assms(1) small by simp
  have x: "mdb_mid2l_search ?ids (mid i) = 1 + k"
    using mid2l_search_ascending[of c "ys @ rest" "mid i"] u assms(3) small by (simp add: k pre_def)
  have "1 + k < 2 ^ 64" using small by (simp add: ys k)
  then have lx: "of_nat (1 + k) \<le> mid c \<longleftrightarrow> s \<noteq> []"
    using u by (simp only: word_le_nat_alt unat_of_nat_small) (simp add: ys k Suc_le_eq)
  have at: "s \<noteq> [] \<Longrightarrow> ?ids ! (1 + k) = hd s"
    by (cases s) (simp_all add: ys k nth_append)
  have dup: "mid i \<in> mid ` set ys \<longleftrightarrow> s \<noteq> [] \<and> mid (hd s) = mid i"
    unfolding sorted_member_at[OF assms(3)] s_def[symmetric] by (cases s) auto
  have full: "of_nat MDB_IDL_UM_MAX \<le> mid c \<longleftrightarrow> length ys = MDB_IDL_UM_MAX"
    using u um assms(2) by (auto simp: word_le_nat_alt)
  have "mid c + 1 = of_nat (length ys + 1)" by (simp add: assms(1))
  moreover have "length ys + 1 < 2 ^ 32" if "length ys \<noteq> MDB_IDL_UM_MAX" using that assms(2) um by simp
  ultimately have n: "unat (ucast (mid c + 1) :: u32) = length ys + 1" if "length ys \<noteq> MDB_IDL_UM_MAX"
    using that by (simp only: unsigned_ucast_eq unsigned_of_nat) (simp add: take_bit_nat_eq_self)
  have hd: "?ids ! 0 = c" "?ids[0 := c\<lparr>mid := mid c + 1\<rparr>] = c\<lparr>mid := mid c + 1\<rparr> # ys @ rest"
    "\<And>d xs. (d # xs :: 'a mdb_id2 list) ! 0 = d"
    by simp_all
  show ?thesis using at dup
    unfolding mdb_mid2l_insert_def Let_def x hd lx full by (cases "length ys = MDB_IDL_UM_MAX") (auto simp: n)
qed

lemma mid2l_insert_eq:
  assumes "mid2l_inv ids"
  defines "ys \<equiv> mid2l_list ids"
  shows "mid i \<in> mid ` set ys \<and> mdb_mid2l_insert ids i = (- 1, ids) \<or>
    mid i \<notin> mid ` set ys \<and> length ys = MDB_IDL_UM_MAX \<and> mdb_mid2l_insert ids i = (- 2, ids) \<or>
    mid i \<notin> mid ` set ys \<and> length ys < MDB_IDL_UM_MAX \<and> (\<exists>ids'. mdb_mid2l_insert ids i = (0, ids') \<and>
      mid2l_inv ids' \<and>
      mid2l_list ids' = takeWhile (\<lambda>x. mid x < mid i) ys @ i # dropWhile (\<lambda>x. mid x < mid i) ys)"
proof -
  obtain c rest where ids: "ids = c # ys @ rest" "mid c = of_nat (length ys)"
      "length (ys @ rest) = MDB_IDL_UM_MAX" "sorted_wrt (<) (map mid ys)" "length ys < 2 ^ 32"
    using mid2l_cases[OF assms(1)] unfolding ys_def by metis
  define pre s where "pre = takeWhile (\<lambda>x. mid x < mid i) ys" and "s = dropWhile (\<lambda>x. mid x < mid i) ys"
  have ys: "ys = pre @ s" by (simp add: pre_def s_def)
  note ins = mid2l_insert_shifts[OF ids(2-4), of i, folded pre_def ids(1)]
  show ?thesis
  proof (cases "mid i \<in> mid ` set ys \<or> length ys = MDB_IDL_UM_MAX")
    case True
    then show ?thesis unfolding ins by auto
  next
    case False
    then obtain h rest' where r: "rest = h # rest'" using ids(3) by (cases rest) auto
    define c' where "c' = c\<lparr>mid := mid c + 1\<rparr>"
    obtain h' where "shift_up (c' # ys @ rest) (length ys + 1) (1 + length pre) = c' # pre @ h' # s @ rest'"
      using shift_up_moves[of "c' # pre" s h rest'] by (auto simp: ys r)
    then have "mdb_mid2l_insert ids i = (0, c' # (pre @ i # s) @ rest')"
      unfolding ins using False by (simp add: c'_def)
    moreover have "sorted_wrt (<) (map mid (pre @ i # s))"
      unfolding pre_def s_def using False by (intro sorted_insert_between[OF ids(4)]) simp
    moreover have "mid c' = of_nat (length (pre @ i # s))" "length ((pre @ i # s) @ rest') = MDB_IDL_UM_MAX"
      using ids(2,3) by (simp_all add: c'_def ys r)
    ultimately show ?thesis
      using mid2l_listI[of c' "pre @ i # s" rest'] False ids(3) by (auto simp: pre_def s_def r)
  qed
qed

lemma mid2l_append_eq:
  assumes "mid2l_inv ids" "\<forall>x\<in>set (mid2l_list ids). mid x < mid i"
  shows "if length (mid2l_list ids) = MDB_IDL_UM_MAX then mdb_mid2l_append ids i = (- 2, ids)
    else \<exists>ids'. mdb_mid2l_append ids i = (0, ids') \<and> mid2l_inv ids' \<and> mid2l_list ids' = mid2l_list ids @ [i]"
proof -
  obtain c ys rest where ids: "ids = c # ys @ rest" "mid c = of_nat (length ys)" "mid2l_list ids = ys"
      "length (ys @ rest) = MDB_IDL_UM_MAX" "sorted_wrt (<) (map mid ys)" "length ys < 2 ^ 32"
    using assms(1) by (rule mid2l_cases)
  have u: "unat (mid c) = length ys" using ids(2,6) by simp
  have "MDB_IDL_UM_MAX < 2 ^ 64" by (simp add: MDB_IDL_UM_MAX_def)
  then have full: "of_nat MDB_IDL_UM_MAX \<le> mid c \<longleftrightarrow> length ys = MDB_IDL_UM_MAX"
    using u ids(4) by (auto simp: word_le_nat_alt)
  show ?thesis
  proof (cases "length ys = MDB_IDL_UM_MAX")
    case True
    then show ?thesis using full by (simp add: ids(3)) (simp add: mdb_mid2l_append_def ids(1))
  next
    case False
    then obtain h rest' where r: "rest = h # rest'" using ids(4) by (cases rest) auto
    have "mid c + 1 = of_nat (length ys + 1)" by (simp add: ids(2))
    moreover have "length ys + 1 < 2 ^ 64" using ids(6) by simp
    ultimately have n: "unat (mid c + 1) = length ys + 1" by (simp only: unat_of_nat_small)
    define c' where "c' = c\<lparr>mid := mid c + 1\<rparr>"
    have "mdb_mid2l_append ids i = (0, c' # (ys @ [i]) @ rest')"
      using False full n unfolding mdb_mid2l_append_def Let_def
      by (simp add: ids(1) r c'_def list_update_append)
    moreover have "mid c' = of_nat (length (ys @ [i]))" "length ((ys @ [i]) @ rest') = MDB_IDL_UM_MAX"
      using ids(2,4) by (simp_all add: c'_def r)
    moreover have "sorted_wrt (<) (map mid (ys @ [i]))"
      using ids(3,5) assms(2) by (auto simp: sorted_wrt_append)
    ultimately show ?thesis
      using mid2l_listI[of c' "ys @ [i]" rest'] False ids(3) by simp
  qed
qed

end
