(* ===== verification/Mdb_Page.thy ===== *)
theory Mdb_Page
  imports Midl Lmdb
begin

text \<open>
  The leaf pages of LMDB (lib/liblmdb/mdb.c): offsets of the nodes from the
  header upwards, the nodes themselves, header, key and data as bytes, from the
  end of the page downwards. The header fields and the array of offsets are
  fields of their own here, as the code never lets the nodes reach them; the
  lemmas show that adding and deleting a node are insertion into and removal from
  the list of nodes, that the nodes keep tiling the page, and that a node reads
  back as it was added, on an overflow page where it is large.
\<close>

subsection \<open>Bytes of a page\<close>

type_synonym u16 = "16 word"

definition chunk :: "nat \<Rightarrow> nat \<Rightarrow> bytes \<Rightarrow> bytes" where
  "chunk ofs n bs = take n (drop ofs bs)"

definition memcpy_at :: "bytes \<Rightarrow> nat \<Rightarrow> bytes \<Rightarrow> bytes" where
  "memcpy_at bs ofs src = take ofs bs @ src @ drop (ofs + length src) bs"

definition memmove_at :: "bytes \<Rightarrow> nat \<Rightarrow> nat \<Rightarrow> nat \<Rightarrow> bytes" where
  "memmove_at bs dst src n = memcpy_at bs dst (chunk src n bs)"

definition u16_at :: "bytes \<Rightarrow> nat \<Rightarrow> nat" where
  "u16_at bs ofs = nat (le_int (chunk ofs 2 bs))"

definition set_u16 :: "bytes \<Rightarrow> nat \<Rightarrow> nat \<Rightarrow> bytes" where
  "set_u16 bs ofs v = memcpy_at bs ofs (le_bytes 2 (int v))"

definition EVEN :: "nat \<Rightarrow> nat" where
  "EVEN n = (n + 1) div 2 * 2"

subsection \<open>Pages and nodes\<close>

definition P_BRANCH :: u16 where [simp]: "P_BRANCH = 0x01"
definition P_LEAF :: u16 where [simp]: "P_LEAF = 0x02"
definition P_LEAF2 :: u16 where [simp]: "P_LEAF2 = 0x20"
definition F_BIGDATA :: u32 where [simp]: "F_BIGDATA = 0x01"
definition MDB_PAGE_FULL :: int where "MDB_PAGE_FULL = -30786"
definition PAGEHDRSZ :: nat where [simp]: "PAGEHDRSZ = 16"
definition NODESIZE :: nat where [simp]: "NODESIZE = 8"

record mdb_page =
  mp_flags :: u16
  mp_lower :: nat
  mp_upper :: nat
  mp_ptrs :: "nat list"
  mp_bytes :: bytes

definition IS_LEAF :: "mdb_page \<Rightarrow> bool" where
  "IS_LEAF p \<longleftrightarrow> mp_flags p AND P_LEAF = P_LEAF"

definition IS_LEAF2 :: "mdb_page \<Rightarrow> bool" where
  "IS_LEAF2 p \<longleftrightarrow> mp_flags p AND P_LEAF2 = P_LEAF2"

definition NUMKEYS :: "mdb_page \<Rightarrow> nat" where
  "NUMKEYS p = (mp_lower p - PAGEHDRSZ) div 2"

definition SIZELEFT :: "mdb_page \<Rightarrow> nat" where
  "SIZELEFT p = mp_upper p - mp_lower p"

definition LEAF2KEY :: "nat \<Rightarrow> nat \<Rightarrow> nat" where
  "LEAF2KEY i ks = PAGEHDRSZ + i * ks"

text \<open>The header of the node at an offset of the page: \<open>mn_lo, mn_hi, mn_flags, mn_ksize\<close>.\<close>

definition NODEDSZ :: "bytes \<Rightarrow> nat \<Rightarrow> nat" where
  "NODEDSZ bs ofs = u16_at bs ofs + u16_at bs (ofs + 2) * 2 ^ 16"

definition mn_flags :: "bytes \<Rightarrow> nat \<Rightarrow> nat" where
  "mn_flags bs ofs = u16_at bs (ofs + 4)"

definition NODEKSZ :: "bytes \<Rightarrow> nat \<Rightarrow> nat" where
  "NODEKSZ bs ofs = u16_at bs (ofs + 6)"

definition NODEPGNO :: "bytes \<Rightarrow> nat \<Rightarrow> nat" where
  "NODEPGNO bs ofs = u16_at bs ofs + u16_at bs (ofs + 2) * 2 ^ 16 + u16_at bs (ofs + 4) * 2 ^ 32"

definition SETDSZ :: "bytes \<Rightarrow> nat \<Rightarrow> nat \<Rightarrow> bytes" where
  "SETDSZ bs ofs n = set_u16 (set_u16 bs ofs (n mod 2 ^ 16)) (ofs + 2) (n div 2 ^ 16)"

definition SETPGNO :: "bytes \<Rightarrow> nat \<Rightarrow> nat \<Rightarrow> bytes" where
  "SETPGNO bs ofs pgno =
     set_u16 (set_u16 (set_u16 bs ofs (pgno mod 2 ^ 16)) (ofs + 2) (pgno div 2 ^ 16)) (ofs + 4) (pgno div 2 ^ 32)"

definition NODEKEY :: "bytes \<Rightarrow> nat \<Rightarrow> bytes" where
  "NODEKEY bs ofs = chunk (ofs + NODESIZE) (NODEKSZ bs ofs) bs"

definition NODEDATA :: "bytes \<Rightarrow> nat \<Rightarrow> nat" where
  "NODEDATA bs ofs = ofs + NODESIZE + NODEKSZ bs ofs"

definition OVPAGES :: "nat \<Rightarrow> nat \<Rightarrow> nat" where
  "OVPAGES n psize = (PAGEHDRSZ - 1 + n) div psize + 1"

definition mdb_leaf_size :: "nat \<Rightarrow> bytes \<Rightarrow> bytes \<Rightarrow> nat" where
  "mdb_leaf_size nodemax key d =
     (let sz = NODESIZE + length key + length d;
          sz = (if nodemax < sz then sz + 8 - length d else sz)
      in EVEN (sz + 2))"

definition mdb_branch_size :: "bytes option \<Rightarrow> nat" where
  "mdb_branch_size key = NODESIZE + (case key of None \<Rightarrow> 0 | Some k \<Rightarrow> length k) + 2"

subsection \<open>New pages and reading a node\<close>

definition P_OVERFLOW :: u16 where [simp]: "P_OVERFLOW = 0x04"
definition P_DIRTY :: u16 where [simp]: "P_DIRTY = 0x10"

record mdb_db =
  md_branch_pages :: nat
  md_leaf_pages :: nat
  md_overflow_pages :: nat

text \<open>
  \<open>alloc\<close> is the outcome of \<open>mdb_page_alloc\<close>: an error or the page, with
  whatever it held.
\<close>

definition mdb_page_new :: "(nat \<Rightarrow> int + mdb_page) \<Rightarrow> nat \<Rightarrow> mdb_db \<Rightarrow> u16 \<Rightarrow> nat \<Rightarrow> (int + mdb_page) \<times> mdb_db" where
  "mdb_page_new alloc psize db flags num =
     (case alloc num of
        Inl rc \<Rightarrow> (Inl rc, db)
      | Inr np \<Rightarrow>
          let np = np\<lparr>mp_flags := flags OR P_DIRTY, mp_lower := PAGEHDRSZ, mp_upper := psize\<rparr>;
              db = (if mp_flags np AND P_BRANCH = P_BRANCH then db\<lparr>md_branch_pages := md_branch_pages db + 1\<rparr>
                    else if IS_LEAF np then db\<lparr>md_leaf_pages := md_leaf_pages db + 1\<rparr>
                    else if mp_flags np AND P_OVERFLOW = P_OVERFLOW
                    then db\<lparr>md_overflow_pages := md_overflow_pages db + num\<rparr>
                    else db)
          in (Inr np, db))"

text \<open>\<open>page_get\<close> is what follows the header of the overflow pages from a page number on.\<close>

definition mdb_node_read :: "(nat \<Rightarrow> int + bytes) \<Rightarrow> bytes \<Rightarrow> nat \<Rightarrow> int + bytes" where
  "mdb_node_read page_get bs leaf =
     (if \<not> odd (mn_flags bs leaf) then Inr (chunk (NODEDATA bs leaf) (NODEDSZ bs leaf) bs)
      else case page_get (nat (le_int (chunk (NODEDATA bs leaf) 8 bs))) of
        Inl rc \<Rightarrow> Inl rc
      | Inr m \<Rightarrow> Inr (take (NODEDSZ bs leaf) m))"

subsection \<open>Adding a node\<close>

text \<open>
  \<open>node_write\<close> is the code from the label \<open>update\<close> on: the node goes
  below the others. \<open>None\<close> is a failed assertion. The overflow page of a
  large item is its page number and what follows its header.
\<close>

type_synonym ovpage = "nat \<times> bytes"

definition node_write :: "mdb_page \<Rightarrow> nat \<Rightarrow> bytes option \<Rightarrow> bytes \<Rightarrow> nat \<Rightarrow> u32 \<Rightarrow> nat \<Rightarrow> ovpage option \<Rightarrow>
    (int \<times> mdb_page \<times> ovpage option) option" where
  "node_write mp indx key d pgno flags node_size ofp =
     (let ptrs = shift_up (mp_ptrs mp) (NUMKEYS mp) indx;
          ofs = mp_upper mp - node_size in
      if \<not> mp_lower mp + 2 \<le> ofs then None
      else
        let ptrs = ptrs[indx := ofs];
            mp = mp\<lparr>mp_ptrs := ptrs, mp_upper := ofs, mp_lower := mp_lower mp + 2\<rparr>;
            ksize = (case key of None \<Rightarrow> 0 | Some k \<Rightarrow> length k);
            bs = set_u16 (mp_bytes mp) (ofs + 6) ksize;
            bs = set_u16 bs (ofs + 4) (unat flags);
            bs = (if IS_LEAF mp then SETDSZ bs ofs (length d) else SETPGNO bs ofs pgno);
            bs = (case key of None \<Rightarrow> bs | Some k \<Rightarrow> memcpy_at bs (ofs + NODESIZE) k);
            ndata = ofs + NODESIZE + ksize;
            (bs, ofp) = (if IS_LEAF mp then
               (case ofp of
                  None \<Rightarrow>
                    (if flags AND F_BIGDATA = F_BIGDATA then memcpy_at bs ndata (take 8 d)
                     else if flags AND MDB_RESERVE = MDB_RESERVE then bs
                     else memcpy_at bs ndata d, None)
                | Some (pg, m) \<Rightarrow>
                    (memcpy_at bs ndata (le_bytes 8 (int pg)),
                     Some (pg, if flags AND MDB_RESERVE = MDB_RESERVE then m else memcpy_at m 0 d)))
               else (bs, ofp))
        in Some (0, mp\<lparr>mp_bytes := bs\<rparr>, ofp))"

text \<open>
  The parameters \<open>nodemax\<close>, \<open>psize\<close> and \<open>ksize2\<close> are
  \<open>me_nodemax\<close>, \<open>me_psize\<close> and \<open>md_pad\<close>; \<open>page_new\<close> is the
  outcome of \<open>mdb_page_new\<close> for a number of overflow pages.
\<close>

definition mdb_node_add :: "nat \<Rightarrow> nat \<Rightarrow> nat \<Rightarrow> (nat \<Rightarrow> int + ovpage) \<Rightarrow> mdb_page \<Rightarrow> nat \<Rightarrow>
    bytes option \<Rightarrow> bytes option \<Rightarrow> nat \<Rightarrow> u32 \<Rightarrow> (int \<times> mdb_page \<times> ovpage option) option" where
  "mdb_node_add nodemax psize ksize2 page_new mp indx key d pgno flags =
     (if \<not> mp_lower mp \<le> mp_upper mp then None
      else if IS_LEAF2 mp then
        (let dif = NUMKEYS mp - indx; ptr = LEAF2KEY indx ksize2; bs = mp_bytes mp;
             bs = (if 0 < dif then memmove_at bs (ptr + ksize2) ptr (dif * ksize2) else bs);
             bs = memcpy_at bs ptr (take ksize2 (the key))
         in Some (0, mp\<lparr>mp_bytes := bs, mp_lower := mp_lower mp + 2, mp_upper := mp_upper mp - (ksize2 - 2)\<rparr>, None))
      else
        let room = int (SIZELEFT mp) - 2;
            node_size = NODESIZE + (case key of None \<Rightarrow> 0 | Some k \<Rightarrow> length k);
            full = Some (MDB_PAGE_FULL, mp, None);
            finish = (\<lambda>node_size. if room < int (EVEN node_size) then full
              else node_write mp indx key (case d of None \<Rightarrow> [] | Some d \<Rightarrow> d) pgno flags (EVEN node_size) None)
        in if IS_LEAF mp then
             (case (key, d) of
                (Some k, Some d) \<Rightarrow>
                  (if flags AND F_BIGDATA = F_BIGDATA then finish (node_size + 8)
                   else if nodemax < node_size + length d then
                     (let ovpages = OVPAGES (length d) psize; node_size = EVEN (node_size + 8) in
                      if room < int node_size then full
                      else case page_new ovpages of
                        Inl rc \<Rightarrow> Some (rc, mp, None)
                      | Inr ofp \<Rightarrow> node_write mp indx key d pgno (flags OR F_BIGDATA) node_size (Some ofp))
                   else finish (node_size + length d))
              | _ \<Rightarrow> None)
           else finish node_size)"

subsection \<open>Deleting a node\<close>

function del_ptrs :: "nat list \<Rightarrow> nat \<Rightarrow> nat \<Rightarrow> nat \<Rightarrow> nat \<Rightarrow> nat \<Rightarrow> nat \<Rightarrow> nat list" where
  "del_ptrs ptrs i j numkeys indx ptr sz =
     (if i < numkeys then
        if i \<noteq> indx then
          let ptrs = ptrs[j := ptrs ! i];
              ptrs = (if ptrs ! i < ptr then ptrs[j := ptrs ! j + sz] else ptrs)
          in del_ptrs ptrs (i + 1) (j + 1) numkeys indx ptr sz
        else del_ptrs ptrs (i + 1) j numkeys indx ptr sz
      else ptrs)"
  by pat_completeness auto
termination by (relation "measure (\<lambda>(ptrs, i, j, numkeys, indx, ptr, sz). numkeys - i)") auto

declare del_ptrs.simps [simp del]

definition node_sz :: "bool \<Rightarrow> bytes \<Rightarrow> nat \<Rightarrow> nat" where
  "node_sz leaf bs ofs =
     EVEN (NODESIZE + NODEKSZ bs ofs +
       (if leaf then if odd (mn_flags bs ofs) then 8 else NODEDSZ bs ofs else 0))"

definition mdb_node_del :: "mdb_page \<Rightarrow> nat \<Rightarrow> nat \<Rightarrow> mdb_page option" where
  "mdb_node_del mp indx ksize =
     (let numkeys = NUMKEYS mp in
      if \<not> indx < numkeys then None
      else if IS_LEAF2 mp then
        (let x = numkeys - 1 - indx; base = LEAF2KEY indx ksize; bs = mp_bytes mp;
             bs = (if x \<noteq> 0 then memmove_at bs base (base + ksize) (x * ksize) else bs)
         in Some (mp\<lparr>mp_bytes := bs, mp_lower := mp_lower mp - 2, mp_upper := mp_upper mp + (ksize - 2)\<rparr>))
      else
        let sz = node_sz (IS_LEAF mp) (mp_bytes mp) (mp_ptrs mp ! indx);
            ptr = mp_ptrs mp ! indx;
            ptrs = del_ptrs (mp_ptrs mp) 0 0 numkeys indx ptr sz;
            base = mp_upper mp;
            bs = memmove_at (mp_bytes mp) (base + sz) base (ptr - mp_upper mp)
        in Some (mp\<lparr>mp_ptrs := ptrs, mp_bytes := bs, mp_lower := mp_lower mp - 2, mp_upper := mp_upper mp + sz\<rparr>))"

subsection \<open>Reading what was written\<close>

lemma length_memcpy_at [simp]: "ofs + length src \<le> length bs \<Longrightarrow> length (memcpy_at bs ofs src) = length bs"
  by (simp add: memcpy_at_def)

lemma memcpy_nth:
  assumes "ofs + length src \<le> length bs" "k < length bs"
  shows "memcpy_at bs ofs src ! k = (if ofs \<le> k \<and> k < ofs + length src then src ! (k - ofs) else bs ! k)"
  using assms by (auto simp: memcpy_at_def nth_append min_def)

lemma length_chunk [simp]: "ofs + n \<le> length bs \<Longrightarrow> length (chunk ofs n bs) = n"
  by (simp add: chunk_def)

lemma chunk_nth: "ofs + n \<le> length bs \<Longrightarrow> k < n \<Longrightarrow> chunk ofs n bs ! k = bs ! (ofs + k)"
  by (simp add: chunk_def)

lemma chunk_memcpy_same:
  assumes "ofs + length src \<le> length bs"
  shows "chunk ofs (length src) (memcpy_at bs ofs src) = src"
  using assms by (simp add: chunk_def memcpy_at_def)

lemma chunk_memcpy_other:
  assumes "ofs + length src \<le> length bs" "o' + n \<le> length bs" "o' + n \<le> ofs \<or> ofs + length src \<le> o'"
  shows "chunk o' n (memcpy_at bs ofs src) = chunk o' n bs"
  using assms by (intro nth_equalityI) (auto simp: chunk_nth memcpy_nth)

lemma chunk_memmove:
  assumes "dst + n \<le> length bs" "src + n \<le> length bs" "src \<le> o'" "o' + m \<le> src + n" "src \<le> dst"
  shows "chunk (o' + (dst - src)) m (memmove_at bs dst src n) = chunk o' m bs"
  using assms unfolding memmove_at_def
  by (intro nth_equalityI) (auto simp: chunk_nth memcpy_nth)

lemma le_bytes_small: "v < 256 ^ n \<Longrightarrow> le_int (le_bytes n (int v)) = int v"
  by (simp add: le_int_le_bytes)

lemma length_set_u16 [simp]: "ofs + 2 \<le> length bs \<Longrightarrow> length (set_u16 bs ofs v) = length bs"
  by (simp add: set_u16_def)

lemma u16_set_same: "ofs + 2 \<le> length bs \<Longrightarrow> u16_at (set_u16 bs ofs v) ofs = v mod 2 ^ 16"
  using chunk_memcpy_same[of ofs "le_bytes 2 (int v)" bs]
  by (simp add: u16_at_def set_u16_def le_int_le_bytes nat_mod_distrib)

lemma u16_set_other:
  assumes "ofs + 2 \<le> length bs" "o' + 2 \<le> length bs" "o' + 2 \<le> ofs \<or> ofs + 2 \<le> o'"
  shows "u16_at (set_u16 bs ofs v) o' = u16_at bs o'"
  using chunk_memcpy_other[of ofs "le_bytes 2 (int v)" bs o' 2] assms by (simp add: u16_at_def set_u16_def)

lemma chunk_set_u16:
  assumes "ofs + 2 \<le> length bs" "o' + n \<le> length bs" "o' + n \<le> ofs \<or> ofs + 2 \<le> o'"
  shows "chunk o' n (set_u16 bs ofs v) = chunk o' n bs"
  using chunk_memcpy_other[of ofs "le_bytes 2 (int v)" bs o' n] assms by (simp add: set_u16_def)

lemma u16_memcpy_other:
  assumes "ofs + length src \<le> length bs" "o' + 2 \<le> length bs" "o' + 2 \<le> ofs \<or> ofs + length src \<le> o'"
  shows "u16_at (memcpy_at bs ofs src) o' = u16_at bs o'"
  using chunk_memcpy_other[OF assms] by (simp add: u16_at_def)

lemma chunk_slice: "ofs + n \<le> m \<Longrightarrow> chunk ofs n (chunk b m bs) = chunk (b + ofs) n bs"
  by (simp add: chunk_def drop_take add.commute)

lemma EVEN_ge [simp]: "n \<le> EVEN n"
  by (simp add: EVEN_def)

subsection \<open>The nodes of a page\<close>

text \<open>The contents of a node: flags, key, data (the page number, eight bytes, of an item elsewhere).\<close>

definition node_at :: "bool \<Rightarrow> bytes \<Rightarrow> nat \<Rightarrow> nat \<times> bytes \<times> bytes" where
  "node_at leaf bs ofs =
     (mn_flags bs ofs, NODEKEY bs ofs,
      if leaf then chunk (NODEDATA bs ofs) (if odd (mn_flags bs ofs) then 8 else NODEDSZ bs ofs) bs
      else le_bytes 6 (int (NODEPGNO bs ofs)))"

definition page_nodes :: "mdb_page \<Rightarrow> (nat \<times> bytes \<times> bytes) list" where
  "page_nodes p = map (node_at (IS_LEAF p) (mp_bytes p)) (take (NUMKEYS p) (mp_ptrs p))"

text \<open>
  A page is in order when its nodes tile the part above \<open>mp_upper\<close> without
  gaps or overlaps and the array of offsets ends at \<open>mp_lower\<close>.
\<close>

definition tiled :: "nat \<Rightarrow> nat \<Rightarrow> (nat \<Rightarrow> nat) \<Rightarrow> nat list \<Rightarrow> bool" where
  "tiled lo hi sz ptrs \<longleftrightarrow>
     (\<forall>x\<in>set ptrs. lo \<le> x \<and> x + sz x \<le> hi) \<and>
     sorted_wrt (\<lambda>x y. x + sz x \<le> y \<or> y + sz y \<le> x) ptrs \<and> lo + sum_list (map sz ptrs) = hi"

definition page_inv :: "nat \<Rightarrow> mdb_page \<Rightarrow> bool" where
  "page_inv psize p \<longleftrightarrow>
     length (mp_bytes p) = psize \<and> mp_lower p = PAGEHDRSZ + 2 * NUMKEYS p \<and>
     mp_lower p \<le> mp_upper p \<and> mp_upper p \<le> psize \<and> psize \<le> PAGEHDRSZ + 2 * length (mp_ptrs p) \<and>
     tiled (mp_upper p) psize (node_sz (IS_LEAF p) (mp_bytes p)) (take (NUMKEYS p) (mp_ptrs p))"

lemma tiled_Nil [simp]: "tiled lo hi sz [] \<longleftrightarrow> lo = hi"
  by (simp add: tiled_def)

text \<open>A tile is put below the others, or taken out and the ones below it moved up.\<close>

lemma tiled_push:
  assumes "tiled (lo + sz' lo) hi sz (xs @ ys)" and "\<forall>x\<in>set (xs @ ys). sz' x = sz x"
  shows "tiled lo hi sz' (xs @ lo # ys)"
proof -
  let ?D = "\<lambda>sz x y. x + sz x \<le> y \<or> y + sz y \<le> (x :: nat)"
  have b: "\<forall>x\<in>set (xs @ ys). lo + sz' lo \<le> x \<and> x + sz' x \<le> hi" and s: "sorted_wrt (?D sz) (xs @ ys)"
    using assms unfolding tiled_def by simp_all
  have "sorted_wrt (?D sz') (xs @ ys)" by (rule sorted_wrt_mono_rel [OF _ s]) (use assms(2) in simp)
  then have d: "sorted_wrt (?D sz') (xs @ lo # ys)" using b by (auto simp: sorted_wrt_append)
  have "map sz' (xs @ ys) = map sz (xs @ ys)" using assms(2) by auto
  then have "sum_list (map sz' (xs @ ys)) = sum_list (map sz (xs @ ys))" by (rule arg_cong)
  then have u: "lo + sum_list (map sz' (xs @ lo # ys)) = hi" using assms(1) by (simp add: tiled_def)
  then have "lo + sz' lo \<le> hi" by auto
  then have "\<forall>x\<in>set (xs @ lo # ys). lo \<le> x \<and> x + sz' x \<le> hi" using b by (auto dest: bspec)
  then show ?thesis unfolding tiled_def using d u by blast
qed

definition moved_up :: "(nat \<Rightarrow> nat) \<Rightarrow> nat \<Rightarrow> nat \<Rightarrow> nat" where
  "moved_up sz x y = (if y < x then y + sz x else y)"

lemma tiled_others:
  assumes "tiled lo hi sz (xs @ x # ys)" and "\<forall>y. 0 < sz y" and "y \<in> set (xs @ ys)"
  shows "lo \<le> y" "y + sz y \<le> hi" "y + sz y \<le> x \<or> x + sz x \<le> y"
    and "moved_up sz x y = (if y + sz y \<le> x then y + sz x else y)"
proof -
  show 1: "lo \<le> y" "y + sz y \<le> hi" "y + sz y \<le> x \<or> x + sz x \<le> y"
    using assms(1,3) by (auto simp: tiled_def sorted_wrt_append)
  have "0 < sz x" "0 < sz y" using assms(2) by blast+
  then show "moved_up sz x y = (if y + sz y \<le> x then y + sz x else y)"
    using 1(3) by (auto simp: moved_up_def)
qed

lemma tiled_pull:
  assumes t: "tiled lo hi sz (xs @ x # ys)" and pos: "\<forall>y. 0 < sz y"
    and sz': "\<forall>y\<in>set (xs @ ys). sz' (moved_up sz x y) = sz y"
  shows "tiled (lo + sz x) hi sz' (map (moved_up sz x) (xs @ ys))"
proof -
  let ?adj = "moved_up sz x"
  note other = tiled_others [OF t pos]
  have x: "lo \<le> x" "x + sz x \<le> hi" using t by (simp_all add: tiled_def)
  have "lo + sz x \<le> ?adj y \<and> ?adj y + sz' (?adj y) \<le> hi" if y: "y \<in> set (xs @ ys)" for y
    using other [OF y] sz' [rule_format, OF y] x by auto
  then have b: "\<forall>z\<in>set (map ?adj (xs @ ys)). lo + sz x \<le> z \<and> z + sz' z \<le> hi"
    unfolding set_map by blast
  have "sorted_wrt (\<lambda>y z. y + sz y \<le> z \<or> z + sz z \<le> y) (xs @ ys)"
    using t by (simp add: tiled_def sorted_wrt_append)
  then have d: "sorted_wrt (\<lambda>y z. ?adj y + sz' (?adj y) \<le> ?adj z \<or> ?adj z + sz' (?adj z) \<le> ?adj y) (xs @ ys)"
  proof (rule sorted_wrt_mono_rel [rotated])
    fix y z assume m: "y \<in> set (xs @ ys)" "z \<in> set (xs @ ys)" and "y + sz y \<le> z \<or> z + sz z \<le> y"
    then show "?adj y + sz' (?adj y) \<le> ?adj z \<or> ?adj z + sz' (?adj z) \<le> ?adj y"
      using other(3,4) [OF m(1)] other(3,4) [OF m(2)] sz' [rule_format, OF m(1)] sz' [rule_format, OF m(2)]
      by (auto split: if_splits)
  qed
  have s: "map sz' (map ?adj (xs @ ys)) = map sz (xs @ ys)" using sz' by auto
  have "lo + sz x + sum_list (map sz (xs @ ys)) = hi" using t by (simp add: tiled_def)
  then show ?thesis unfolding tiled_def s sorted_wrt_map using b d by blast
qed

lemma node_sz_ge:
  "ofs + 8 \<le> ofs + node_sz leaf bs ofs"
  "NODEDATA bs ofs + (if leaf then if odd (mn_flags bs ofs) then 8 else NODEDSZ bs ofs else 0) \<le> ofs + node_sz leaf bs ofs"
  unfolding node_sz_def NODEDATA_def add.assoc
  by (rule add_left_mono, rule order.trans[OF _ EVEN_ge], simp) (rule add_left_mono, rule EVEN_ge)

text \<open>Everything about a node is read from the bytes of its extent.\<close>

lemma node_moved:
  assumes "chunk o2 (node_sz leaf bs1 o1) bs2 = chunk o1 (node_sz leaf bs1 o1) bs1"
  shows "node_at leaf bs2 o2 = node_at leaf bs1 o1" "node_sz leaf bs2 o2 = node_sz leaf bs1 o1"
proof -
  let ?m = "node_sz leaf bs1 o1"
  have sl: "chunk (o2 + k) n bs2 = chunk (o1 + k) n bs1" if "k + n \<le> ?m" for k n
    using chunk_slice[OF that, of o2 bs2] chunk_slice[OF that, of o1 bs1] assms by simp
  have u: "u16_at bs2 (o2 + k) = u16_at bs1 (o1 + k)" if "k + 2 \<le> 8" for k
    unfolding u16_at_def using sl[of k 2] that node_sz_ge(1)[of o1 leaf bs1] by simp
  have h: "NODEDSZ bs2 o2 = NODEDSZ bs1 o1" "mn_flags bs2 o2 = mn_flags bs1 o1" "NODEKSZ bs2 o2 = NODEKSZ bs1 o1"
      "NODEPGNO bs2 o2 = NODEPGNO bs1 o1"
    using u[of 0] u[of 2] u[of 4] u[of 6] by (simp_all add: NODEDSZ_def mn_flags_def NODEKSZ_def NODEPGNO_def)
  show sz: "node_sz leaf bs2 o2 = node_sz leaf bs1 o1" unfolding node_sz_def h ..
  note ge = node_sz_ge(2)[of bs1 o1 leaf]
  have key: "NODEKEY bs2 o2 = NODEKEY bs1 o1"
    unfolding NODEKEY_def h using sl[of 8 "NODEKSZ bs1 o1"] ge by (simp add: NODEDATA_def)
  show "node_at leaf bs2 o2 = node_at leaf bs1 o1"
    unfolding node_at_def h key
    using sl[of "8 + NODEKSZ bs1 o1" "if odd (mn_flags bs1 o1) then 8 else NODEDSZ bs1 o1"] ge
    by (auto simp: NODEDATA_def h add.assoc)
qed

subsection \<open>A node that was added\<close>

text \<open>The bytes written for a leaf node with the payload \<open>d\<close> and the data size \<open>dsz\<close>.\<close>

definition write_leaf :: "bytes \<Rightarrow> nat \<Rightarrow> bytes \<Rightarrow> bytes \<Rightarrow> nat \<Rightarrow> nat \<Rightarrow> bytes" where
  "write_leaf bs ofs k d dsz flags =
     memcpy_at (memcpy_at (SETDSZ (set_u16 (set_u16 bs (ofs + 6) (length k)) (ofs + 4) flags) ofs dsz)
       (ofs + NODESIZE) k) (ofs + NODESIZE + length k) d"

lemma write_leaf_reads:
  fixes bs k d :: bytes and ofs dsz flags :: nat
  assumes fits: "ofs + 8 + length k + length d \<le> length bs"
    and small: "length k < 2 ^ 16" "dsz < 2 ^ 32"
  defines "bs' \<equiv> write_leaf bs ofs k d dsz flags"
  shows "length bs' = length bs"
    and "NODEKSZ bs' ofs = length k" "NODEDSZ bs' ofs = dsz" "mn_flags bs' ofs = flags mod 2 ^ 16"
    and "NODEKEY bs' ofs = k" "chunk (NODEDATA bs' ofs) (length d) bs' = d"
    and "\<And>o' n. o' + n \<le> length bs \<Longrightarrow> ofs + 8 + length k + length d \<le> o' \<Longrightarrow> chunk o' n bs' = chunk o' n bs"
proof -
  define b1 where "b1 = set_u16 bs (ofs + 6) (length k)"
  define b2 where "b2 = set_u16 b1 (ofs + 4) flags"
  define b3 where "b3 = set_u16 b2 ofs (dsz mod 2 ^ 16)"
  define b4 where "b4 = set_u16 b3 (ofs + 2) (dsz div 2 ^ 16)"
  define b5 where "b5 = memcpy_at b4 (ofs + 8) k"
  have bs': "bs' = memcpy_at b5 (ofs + 8 + length k) d"
    by (simp add: bs'_def write_leaf_def SETDSZ_def b1_def b2_def b3_def b4_def b5_def)
  have len: "length b1 = length bs" "length b2 = length bs" "length b3 = length bs" "length b4 = length bs"
      "length b5 = length bs"
    using fits by (simp_all add: b1_def b2_def b3_def b4_def b5_def)
  show len': "length bs' = length bs" using fits len by (simp add: bs')
  have hdr: "u16_at bs' (ofs + i) = u16_at b4 (ofs + i)" if "i + 2 \<le> 8" for i
    unfolding bs' b5_def using fits len that by (simp add: u16_memcpy_other)
  have hi: "dsz div 2 ^ 16 < 2 ^ 16" using small(2) by (simp add: less_mult_imp_div_less)
  have 6: "u16_at bs' (ofs + 6) = length k"
    unfolding hdr[of 6, simplified] b4_def b3_def b2_def b1_def
    using fits len small(1) by (simp add: u16_set_other u16_set_same b1_def b2_def b3_def)
  have 4: "u16_at bs' (ofs + 4) = flags mod 2 ^ 16"
    unfolding hdr[of 4, simplified] b4_def b3_def b2_def
    using fits len by (simp add: u16_set_other u16_set_same b2_def b3_def)
  have 2: "u16_at bs' (ofs + 2) = dsz div 2 ^ 16"
    using hdr[of 2] u16_set_same[of "ofs + 2" b3 "dsz div 2 ^ 16"] fits len hi by (simp add: b4_def)
  have 0: "u16_at bs' ofs = dsz mod 2 ^ 16"
    unfolding hdr[of 0, simplified] b4_def b3_def
    using fits len by (simp add: u16_set_other u16_set_same b3_def)
  show k: "NODEKSZ bs' ofs = length k" by (simp add: NODEKSZ_def 6)
  show "mn_flags bs' ofs = flags mod 2 ^ 16" by (simp add: mn_flags_def 4)
  show "NODEDSZ bs' ofs = dsz" unfolding NODEDSZ_def 0 2 by simp
  show "NODEKEY bs' ofs = k"
    unfolding NODEKEY_def k NODESIZE_def unfolding bs' b5_def
    using fits len chunk_memcpy_same[of "ofs + 8" k b4] by (simp add: chunk_memcpy_other)
  show "chunk (NODEDATA bs' ofs) (length d) bs' = d"
    unfolding NODEDATA_def k using fits len chunk_memcpy_same[of "ofs + 8 + length k" d b5] by (simp add: bs')
  show "chunk o' n bs' = chunk o' n bs" if "o' + n \<le> length bs" "ofs + 8 + length k + length d \<le> o'" for o' n
    unfolding bs' b5_def b4_def b3_def b2_def b1_def
    using fits len that by (simp add: chunk_memcpy_other chunk_set_u16 b1_def b2_def b3_def b4_def b5_def)
qed


lemma write_leaf_node:
  fixes bs k d :: bytes and ofs dsz flags :: nat
  assumes fits: "ofs + 8 + length k + length d \<le> length bs"
    and small: "length k < 2 ^ 16" "dsz < 2 ^ 32" and len: "length d = (if odd flags then 8 else dsz)"
  shows "node_at True (write_leaf bs ofs k d dsz flags) ofs = (flags mod 2 ^ 16, k, d)"
    and "node_sz True (write_leaf bs ofs k d dsz flags) ofs = EVEN (8 + length k + length d)"
proof -
  note r = write_leaf_reads[OF fits small, where flags = flags]
  have "odd (flags mod 2 ^ 16) = odd flags" by (simp add: even_iff_mod_2_eq_zero mod_mod_cancel)
  then show "node_at True (write_leaf bs ofs k d dsz flags) ofs = (flags mod 2 ^ 16, k, d)"
    "node_sz True (write_leaf bs ofs k d dsz flags) ofs = EVEN (8 + length k + length d)"
    using len r(6) by (simp_all add: node_at_def node_sz_def r(1-5) split: if_splits)
qed

subsection \<open>Adding refines insertion into the list of nodes\<close>

lemma page_invD:
  assumes "page_inv psize p"
  shows "length (mp_bytes p) = psize" "mp_lower p = 16 + 2 * NUMKEYS p" "mp_lower p \<le> mp_upper p"
    "mp_upper p \<le> psize" "psize \<le> 16 + 2 * length (mp_ptrs p)"
    "tiled (mp_upper p) psize (node_sz (IS_LEAF p) (mp_bytes p)) (take (NUMKEYS p) (mp_ptrs p))"
  using assms unfolding page_inv_def by auto

lemma page_invI:
  assumes "length (mp_bytes p) = psize" "mp_lower p = 16 + 2 * n" "mp_lower p \<le> mp_upper p"
    "mp_upper p \<le> psize" "psize \<le> 16 + 2 * length (mp_ptrs p)" "take n (mp_ptrs p) = ptrs" "IS_LEAF p = leaf"
    "tiled (mp_upper p) psize (node_sz leaf (mp_bytes p)) ptrs"
  shows "page_inv psize p" "page_nodes p = map (node_at leaf (mp_bytes p)) ptrs"
proof -
  have n: "NUMKEYS p = n" using assms(2) by (simp add: NUMKEYS_def)
  show "page_inv psize p" unfolding page_inv_def n assms(6,7) using assms by auto
  show "page_nodes p = map (node_at leaf (mp_bytes p)) ptrs" unfolding page_nodes_def n assms(6,7) ..
qed

definition insert_at :: "nat \<Rightarrow> 'a \<Rightarrow> 'a list \<Rightarrow> 'a list" where
  "insert_at i x xs = take i xs @ x # drop i xs"

definition remove_at :: "nat \<Rightarrow> 'a list \<Rightarrow> 'a list" where
  "remove_at i xs = take i xs @ drop (Suc i) xs"

lemma bigdata_odd: "flags AND F_BIGDATA = F_BIGDATA \<longleftrightarrow> odd (unat flags)"
  by (simp add: and_one_eq word_unat_eq_iff unat_mod_distrib odd_iff_mod_2_eq_one)

text \<open>\<open>added\<close>: the page after the label \<open>update\<close>.\<close>

definition added :: "mdb_page \<Rightarrow> nat \<Rightarrow> bytes \<Rightarrow> bytes \<Rightarrow> nat \<Rightarrow> nat \<Rightarrow> mdb_page" where
  "added p indx k d dsz flags =
     (let ofs = mp_upper p - EVEN (8 + length k + length d) in
      p\<lparr>mp_ptrs := (shift_up (mp_ptrs p) (NUMKEYS p) indx)[indx := ofs], mp_upper := ofs,
        mp_lower := mp_lower p + 2, mp_bytes := write_leaf (mp_bytes p) ofs k d dsz flags\<rparr>)"

text \<open>The array of offsets, split at the index of a node that is added.\<close>

lemma added_eq:
  assumes "indx \<le> NUMKEYS p" and "NUMKEYS p < length (mp_ptrs p)"
  shows "\<exists>post. take (NUMKEYS p) (mp_ptrs p) = take indx (mp_ptrs p) @ drop indx (take (NUMKEYS p) (mp_ptrs p)) \<and>
    added p indx k d dsz flags =
      p\<lparr>mp_ptrs := take indx (mp_ptrs p) @ (mp_upper p - EVEN (8 + length k + length d)) #
          drop indx (take (NUMKEYS p) (mp_ptrs p)) @ post,
        mp_upper := mp_upper p - EVEN (8 + length k + length d), mp_lower := mp_lower p + 2,
        mp_bytes := write_leaf (mp_bytes p) (mp_upper p - EVEN (8 + length k + length d)) k d dsz flags\<rparr> \<and>
    Suc (NUMKEYS p + length post) = length (mp_ptrs p)"
proof -
  let ?n = "NUMKEYS p" and ?ofs = "mp_upper p - EVEN (8 + length k + length d)"
  define pre s h post where "pre = take indx (mp_ptrs p)" and "s = drop indx (take ?n (mp_ptrs p))"
    and "h = mp_ptrs p ! ?n" and "post = drop (Suc ?n) (mp_ptrs p)"
  have split: "take ?n (mp_ptrs p) = pre @ s" "length pre = indx" "length pre + length s = ?n"
    using assms by (simp_all add: pre_def s_def min_def) (metis append_take_drop_id min.absorb1 take_take)
  have ptrs: "mp_ptrs p = pre @ s @ h # post"
    using split(1) assms(2) unfolding h_def post_def by (metis append.assoc id_take_nth_drop)
  obtain h' where sh: "shift_up (mp_ptrs p) ?n indx = pre @ h' # s @ post"
    using shift_up_moves[of pre s h post] split(2,3) ptrs by auto
  have "(pre @ h' # s @ post)[indx := ?ofs] = pre @ ?ofs # s @ post"
    unfolding split(2)[symmetric] by (rule list_update_length)
  then have "added p indx k d dsz flags = p\<lparr>mp_ptrs := pre @ ?ofs # s @ post, mp_upper := ?ofs,
      mp_lower := mp_lower p + 2, mp_bytes := write_leaf (mp_bytes p) ?ofs k d dsz flags\<rparr>"
    unfolding added_def Let_def sh by simp
  moreover have "Suc (?n + length post) = length (mp_ptrs p)" using assms(2) by (simp add: post_def)
  ultimately show ?thesis using split(1) unfolding pre_def s_def by blast
qed

lemma added_refines:
  fixes p :: mdb_page and k d :: bytes
  assumes inv: "page_inv psize p" and leaf: "IS_LEAF p" and indx: "indx \<le> NUMKEYS p"
    and small: "length k < 2 ^ 16" "dsz < 2 ^ 32" and dsz: "length d = (if odd flags then 8 else dsz)"
    and room: "mp_lower p + 2 + EVEN (8 + length k + length d) \<le> mp_upper p"
  shows "page_inv psize (added p indx k d dsz flags) \<and> IS_LEAF (added p indx k d dsz flags) \<and>
    IS_LEAF2 (added p indx k d dsz flags) = IS_LEAF2 p \<and>
    page_nodes (added p indx k d dsz flags) = insert_at indx (flags mod 2 ^ 16, k, d) (page_nodes p)"
proof -
  let ?n = "NUMKEYS p" and ?bs = "mp_bytes p" and ?sz = "EVEN (8 + length k + length d)"
  have leaf': "IS_LEAF p = True" using leaf by simp
  note D = page_invD[OF inv, unfolded leaf']
  define ofs where "ofs = mp_upper p - ?sz"
  have ofs: "ofs + ?sz = mp_upper p" "mp_lower p + 2 \<le> ofs" using room by (simp_all add: ofs_def)
  have fits: "ofs + 8 + length k + length d \<le> mp_upper p"
    using EVEN_ge[of "8 + length k + length d"] ofs(1) by linarith
  define bs where "bs = write_leaf ?bs ofs k d dsz flags"
  have fits': "ofs + 8 + length k + length d \<le> length ?bs" using fits D(1,4) by linarith
  note w = write_leaf_reads[OF fits' small, where flags = flags, folded bs_def]
    and wn = write_leaf_node[OF fits' small dsz, folded bs_def]
  have lt: "?n < length (mp_ptrs p)" using D(2,4,5) ofs by linarith
  define pre s where "pre = take indx (mp_ptrs p)" and "s = drop indx (take ?n (mp_ptrs p))"
  obtain post where split: "take ?n (mp_ptrs p) = pre @ s"
    and eq: "added p indx k d dsz flags = p\<lparr>mp_ptrs := pre @ ofs # s @ post, mp_upper := ofs,
      mp_lower := mp_lower p + 2, mp_bytes := bs\<rparr>" (is "_ = ?p")
    and lens: "Suc (?n + length post) = length (mp_ptrs p)"
    using added_eq[OF indx lt] unfolding pre_def s_def ofs_def bs_def by blast
  have moved: "node_at True bs o' = node_at True ?bs o'" "node_sz True bs o' = node_sz True ?bs o'"
    if "o' \<in> set (pre @ s)" for o'
  proof -
    have "mp_upper p \<le> o' \<and> o' + node_sz True ?bs o' \<le> psize"
      using D(6) that unfolding split tiled_def by blast
    then have "chunk o' (node_sz True ?bs o') bs = chunk o' (node_sz True ?bs o') ?bs"
      using fits D(1) by (intro w(7)) linarith+
    then show "node_at True bs o' = node_at True ?bs o'" "node_sz True bs o' = node_sz True ?bs o'"
      by (rule node_moved)+
  qed
  have n: "length (pre @ s) = ?n" "length pre = indx"
    using arg_cong[OF split, of length] lt indx by (simp_all add: pre_def)
  have "tiled ofs psize (node_sz True bs) (pre @ ofs # s)"
  proof (rule tiled_push)
    show "tiled (ofs + node_sz True bs ofs) psize (node_sz True ?bs) (pre @ s)"
      using D(6) by (simp add: wn(2) ofs(1) split)
  qed (use moved(2) in blast)
  moreover have "take (?n + 1) (pre @ ofs # s @ post) = pre @ ofs # s"
    unfolding n(1)[symmetric] by simp
  ultimately have "page_inv psize ?p" "page_nodes ?p = map (node_at True bs) (pre @ ofs # s)"
    using page_invI[of ?p psize "?n + 1" "pre @ ofs # s" True] D(1-5) ofs w(1) leaf lens n
    by (simp_all add: IS_LEAF_def)
  moreover have "page_nodes p = map (node_at True ?bs) (pre @ s)" unfolding page_nodes_def split leaf' ..
  ultimately show ?thesis unfolding eq using wn(1) leaf n(2) moved(1)
    by (auto simp: insert_at_def IS_LEAF_def IS_LEAF2_def)
qed

lemma node_write_inline:
  assumes "IS_LEAF p" "\<not> flags AND F_BIGDATA = F_BIGDATA" "\<not> flags AND MDB_RESERVE = MDB_RESERVE"
    "mp_lower p + 2 + EVEN (8 + length k + length d) \<le> mp_upper p"
  shows "node_write p indx (Some k) d pgno flags (EVEN (8 + length k + length d)) None =
    Some (0, added p indx k d (length d) (unat flags), None)"
  using assms unfolding node_write_def Let_def added_def write_leaf_def
  by (simp add: IS_LEAF_def)

lemma node_write_overflow:
  assumes "IS_LEAF p" "\<not> flags AND MDB_RESERVE = MDB_RESERVE"
    "mp_lower p + 2 + EVEN (8 + length k + 8) \<le> mp_upper p"
  shows "node_write p indx (Some k) d pgno flags (EVEN (8 + length k + 8)) (Some (pg, m)) =
    Some (0, added p indx k (le_bytes 8 (int pg)) (length d) (unat flags), Some (pg, memcpy_at m 0 d))"
  using assms unfolding node_write_def Let_def added_def write_leaf_def
  by (simp add: IS_LEAF_def)

lemma reserve_bigdata: "(flags OR F_BIGDATA) AND MDB_RESERVE = flags AND MDB_RESERVE"
  by (rule bit_eqI) (auto simp: bit_simps)

lemma unat_or_bigdata: "odd (unat (flags OR F_BIGDATA))"
proof -
  have "(flags OR F_BIGDATA) AND F_BIGDATA = F_BIGDATA" by (rule bit_eqI) (auto simp: bit_simps)
  then show ?thesis unfolding bigdata_odd .
qed

text \<open>
  The contract of \<open>mdb_node_add\<close> on a leaf: \<open>stored\<close> is what the node holds,
  the item or the number of its overflow page.
\<close>

definition fits_inline :: "nat \<Rightarrow> bytes \<Rightarrow> bytes \<Rightarrow> bool" where
  "fits_inline nodemax k d \<longleftrightarrow> 8 + length k + length d \<le> nodemax"

definition node_room :: "mdb_page \<Rightarrow> nat \<Rightarrow> bytes \<Rightarrow> bytes \<Rightarrow> bool" where
  "node_room p nodemax k d \<longleftrightarrow>
     mp_lower p + 2 + EVEN (8 + length k + (if fits_inline nodemax k d then length d else 8)) \<le> mp_upper p"

lemma node_add_cases:
  fixes p :: mdb_page and k d :: bytes
  assumes inv: "page_inv psize p" and leaf: "IS_LEAF p" "\<not> IS_LEAF2 p"
    and flags: "\<not> flags AND F_BIGDATA = F_BIGDATA" "\<not> flags AND MDB_RESERVE = MDB_RESERVE"
  shows "mdb_node_add nodemax psize ksize2 page_new p indx (Some k) (Some d) pgno flags =
    (if \<not> node_room p nodemax k d then Some (MDB_PAGE_FULL, p, None)
     else if fits_inline nodemax k d then Some (0, added p indx k d (length d) (unat flags), None)
     else case page_new (OVPAGES (length d) psize) of
         Inl rc \<Rightarrow> Some (rc, p, None)
       | Inr (pg, m) \<Rightarrow> Some (0, added p indx k (le_bytes 8 (int pg)) (length d) (unat (flags OR F_BIGDATA)),
           Some (pg, memcpy_at m 0 d)))"
proof -
  have lu: "mp_lower p \<le> mp_upper p" using page_invD(3)[OF inv] .
  have room: "int (SIZELEFT p) - 2 < int n \<longleftrightarrow> \<not> mp_lower p + 2 + n \<le> mp_upper p" for n
    unfolding SIZELEFT_def using lu by linarith
  have flags': "\<not> (flags OR F_BIGDATA) AND MDB_RESERVE = MDB_RESERVE" unfolding reserve_bigdata by (rule flags(2))
  have add: "mdb_node_add nodemax psize ksize2 page_new p indx (Some k) (Some d) pgno flags =
    (if fits_inline nodemax k d then
       if \<not> mp_lower p + 2 + EVEN (8 + length k + length d) \<le> mp_upper p then Some (MDB_PAGE_FULL, p, None)
       else node_write p indx (Some k) d pgno flags (EVEN (8 + length k + length d)) None
     else if \<not> mp_lower p + 2 + EVEN (8 + length k + 8) \<le> mp_upper p then Some (MDB_PAGE_FULL, p, None)
     else case page_new (OVPAGES (length d) psize) of
         Inl rc \<Rightarrow> Some (rc, p, None)
       | Inr ofp \<Rightarrow> node_write p indx (Some k) d pgno (flags OR F_BIGDATA) (EVEN (8 + length k + 8)) (Some ofp))"
    using lu leaf flags unfolding mdb_node_add_def Let_def room fits_inline_def
    by (simp del: F_BIGDATA_def MDB_RESERVE_def split: sum.split)
  show ?thesis
    unfolding add node_room_def
    using node_write_inline[OF leaf(1) flags, of k d indx pgno] node_write_overflow[OF leaf(1) flags', of k indx d pgno]
    by (auto simp del: F_BIGDATA_def MDB_RESERVE_def split: sum.split)
qed

subsection \<open>Deleting refines removal from the list of nodes\<close>

lemma del_ptrs_after:
  assumes "indx < i" "i = Suc (length pre)" "numkeys = Suc (length pre + length s)"
  shows "\<exists>h'. del_ptrs (pre @ h # s @ rest) i (length pre) numkeys indx ptr sz =
    pre @ map (\<lambda>x. if x < ptr then x + sz else x) s @ h' # rest"
  using assms
proof (induction s arbitrary: pre h i)
  case Nil
  then show ?case by (subst del_ptrs.simps) auto
next
  case (Cons x s)
  let ?x = "if x < ptr then x + sz else x"
  have at: "(pre @ h # (x # s) @ rest) ! i = x" using Cons.prems(2) by (simp add: nth_append)
  have at': "(pre @ x # (x # s) @ rest) ! i = x" using Cons.prems(2) by (simp add: nth_append)
  have "del_ptrs (pre @ h # (x # s) @ rest) i (length pre) numkeys indx ptr sz =
      del_ptrs ((pre @ [?x]) @ x # s @ rest) (i + 1) (length (pre @ [?x])) numkeys indx ptr sz"
    using Cons.prems by (subst del_ptrs.simps) (simp add: Let_def at[simplified] at'[simplified] nth_append)
  then show ?case using Cons.IH[of "i + 1" "pre @ [?x]" x] Cons.prems by simp
qed

lemma del_ptrs_before:
  assumes "i = length pre" "indx = i + length xs" "indx < numkeys"
  shows "del_ptrs (pre @ xs @ rest) i i numkeys indx ptr sz =
    del_ptrs (pre @ map (\<lambda>x. if x < ptr then x + sz else x) xs @ rest) indx indx numkeys indx ptr sz"
  using assms
proof (induction xs arbitrary: pre i)
  case Nil
  then show ?case by simp
next
  case (Cons x xs)
  let ?x = "if x < ptr then x + sz else x"
  have "del_ptrs (pre @ (x # xs) @ rest) i i numkeys indx ptr sz =
      del_ptrs ((pre @ [?x]) @ xs @ rest) (i + 1) (i + 1) numkeys indx ptr sz"
    using Cons.prems by (subst del_ptrs.simps) (simp add: Let_def nth_append)
  then show ?case using Cons.IH[of "i + 1" "pre @ [?x]"] Cons.prems by simp
qed

lemma del_ptrs_removes:
  "\<exists>h'. del_ptrs (pre @ x # s @ rest) 0 0 (Suc (length pre + length s)) (length pre) ptr sz =
    map (\<lambda>x. if x < ptr then x + sz else x) (pre @ s) @ h' # rest"
proof -
  let ?adj = "\<lambda>x. if x < ptr then x + sz else x"
  have "del_ptrs (pre @ x # s @ rest) 0 0 (Suc (length pre + length s)) (length pre) ptr sz =
      del_ptrs (map ?adj pre @ x # s @ rest) (length pre) (length pre) (Suc (length pre + length s)) (length pre) ptr sz"
    using del_ptrs_before[of 0 "[]" "length pre" pre "Suc (length pre + length s)" "x # s @ rest"] by simp
  also have "\<dots> = del_ptrs (map ?adj pre @ x # s @ rest) (Suc (length pre)) (length pre)
      (Suc (length pre + length s)) (length pre) ptr sz"
    by (subst del_ptrs.simps) (simp only: Suc_eq_plus1 less_add_same_cancel1 if_True simp_thms if_False, simp)
  finally have e: "del_ptrs (pre @ x # s @ rest) 0 0 (Suc (length pre + length s)) (length pre) ptr sz =
      del_ptrs (map ?adj pre @ x # s @ rest) (Suc (length pre)) (length (map ?adj pre))
        (Suc (length pre + length s)) (length pre) ptr sz" by (simp only: length_map)
  show ?thesis unfolding e map_append append_assoc
    by (rule del_ptrs_after) simp_all
qed

text \<open>What the deletion leaves: the offsets without the one at the index, those of lower nodes moved up.\<close>

lemma node_del_eq:
  assumes "\<not> IS_LEAF2 p" and "indx < NUMKEYS p" and "NUMKEYS p \<le> length (mp_ptrs p)"
  defines "sz \<equiv> node_sz (IS_LEAF p) (mp_bytes p)" and "x \<equiv> mp_ptrs p ! indx"
  obtains pre s h rest where "take (NUMKEYS p) (mp_ptrs p) = pre @ x # s" "length pre = indx"
    "mp_ptrs p = pre @ x # s @ rest"
    "mdb_node_del p indx ksize = Some (p\<lparr>mp_ptrs := map (moved_up sz x) (pre @ s) @ h # rest,
       mp_bytes := memmove_at (mp_bytes p) (mp_upper p + sz x) (mp_upper p) (x - mp_upper p),
       mp_lower := mp_lower p - 2, mp_upper := mp_upper p + sz x\<rparr>)"
proof -
  let ?n = "NUMKEYS p"
  define pre s rest where "pre = take indx (mp_ptrs p)"
    and "s = drop (Suc indx) (take ?n (mp_ptrs p))" and "rest = drop ?n (mp_ptrs p)"
  have split: "take ?n (mp_ptrs p) = pre @ x # s" "length pre = indx" "Suc (length pre + length s) = ?n"
    using id_take_nth_drop[of indx "take ?n (mp_ptrs p)"] assms(2,3) by (simp_all add: pre_def x_def s_def min_def)
  have ptrs: "mp_ptrs p = pre @ x # s @ rest"
    using split(1) append_take_drop_id[of ?n "mp_ptrs p"] by (simp add: rest_def)
  have mu: "moved_up sz x = (\<lambda>y. if y < x then y + sz x else y)" by (rule ext) (rule moved_up_def)
  obtain h where "del_ptrs (mp_ptrs p) 0 0 ?n indx x (sz x) = map (moved_up sz x) (pre @ s) @ h # rest"
    using del_ptrs_removes[of pre x s rest x "sz x"] ptrs split(2,3) unfolding mu by auto
  then have "mdb_node_del p indx ksize = Some (p\<lparr>mp_ptrs := map (moved_up sz x) (pre @ s) @ h # rest,
       mp_bytes := memmove_at (mp_bytes p) (mp_upper p + sz x) (mp_upper p) (x - mp_upper p),
       mp_lower := mp_lower p - 2, mp_upper := mp_upper p + sz x\<rparr>)"
    using assms(1,2) unfolding mdb_node_del_def Let_def x_def[symmetric] sz_def[symmetric] by simp
  then show thesis using that split ptrs by blast
qed

lemma chunk_moved_up:
  assumes t: "tiled lo (length bs) sz (xs @ x # ys)" and pos: "\<forall>y. 0 < sz y" and y: "y \<in> set (xs @ ys)"
  shows "chunk (moved_up sz x y) (sz y) (memmove_at bs (lo + sz x) lo (x - lo)) = chunk y (sz y) bs"
proof -
  note other = tiled_others [OF t pos y]
  have x: "lo \<le> x" "x + sz x \<le> length bs" using t by (simp_all add: tiled_def)
  show ?thesis
  proof (cases "y + sz y \<le> x")
    case True
    then show ?thesis using chunk_memmove[of "lo + sz x" "x - lo" bs lo y "sz y"] other x by simp
  next
    case False
    then show ?thesis using other x by (simp add: memmove_at_def chunk_memcpy_other)
  qed
qed

lemma node_del_refines:
  assumes inv: "page_inv psize p" and leaf2: "\<not> IS_LEAF2 p" and indx: "indx < NUMKEYS p"
  shows "\<exists>p'. mdb_node_del p indx ksize = Some p' \<and> page_inv psize p' \<and>
    IS_LEAF p' = IS_LEAF p \<and> \<not> IS_LEAF2 p' \<and> page_nodes p' = remove_at indx (page_nodes p)"
proof -
  let ?n = "NUMKEYS p" and ?bs = "mp_bytes p" and ?lf = "IS_LEAF p"
  note D = page_invD[OF inv]
  define sz x where "sz = node_sz ?lf ?bs" and "x = mp_ptrs p ! indx"
  define bs where "bs = memmove_at ?bs (mp_upper p + sz x) (mp_upper p) (x - mp_upper p)"
  have "?n \<le> length (mp_ptrs p)" using D(2,3,4,5) by linarith
  then obtain pre s h rest where split: "take ?n (mp_ptrs p) = pre @ x # s" "length pre = indx"
    and ptrs: "mp_ptrs p = pre @ x # s @ rest"
    and del: "mdb_node_del p indx ksize = Some (p\<lparr>mp_ptrs := map (moved_up sz x) (pre @ s) @ h # rest,
       mp_bytes := bs, mp_lower := mp_lower p - 2, mp_upper := mp_upper p + sz x\<rparr>)" (is "_ = Some ?p")
    unfolding sz_def x_def bs_def by (rule node_del_eq[OF leaf2 indx])
  have t: "tiled (mp_upper p) psize sz (pre @ x # s)" using D(6) unfolding split sz_def .
  have pos: "\<forall>y. 0 < sz y" using node_sz_ge(1)[of _ ?lf ?bs] unfolding sz_def
    by (metis add_le_cancel_left le_zero_eq not_gr_zero zero_neq_numeral)
  have x: "mp_upper p \<le> x" "x + sz x \<le> psize" using t by (simp_all add: tiled_def)
  have len: "length bs = psize" using x D(1) by (simp add: bs_def memmove_at_def)
  have moved: "node_at ?lf bs (moved_up sz x y) = node_at ?lf ?bs y" "node_sz ?lf bs (moved_up sz x y) = sz y"
    if y: "y \<in> set (pre @ s)" for y
    using node_moved[of "moved_up sz x y" ?lf ?bs y bs] chunk_moved_up[OF t[folded D(1)] pos y]
    by (simp_all add: sz_def bs_def)
  have "tiled (mp_upper p + sz x) psize (node_sz ?lf bs) (map (moved_up sz x) (pre @ s))"
    using moved(2) by (intro tiled_pull[OF t pos]) blast
  moreover have n: "?n = Suc (length (pre @ s))"
    using arg_cong[OF split(1), of length] \<open>?n \<le> length (mp_ptrs p)\<close> by simp
  ultimately have "page_inv psize ?p" "page_nodes ?p = map (node_at ?lf bs) (map (moved_up sz x) (pre @ s))"
    using page_invI[of ?p psize "?n - 1" "map (moved_up sz x) (pre @ s)" ?lf] len D(2-5) x ptrs
    by (simp_all add: IS_LEAF_def)
  moreover have "map (node_at ?lf bs) (map (moved_up sz x) (pre @ s)) = map (node_at ?lf ?bs) (pre @ s)"
    using moved(1) by auto
  moreover have "page_nodes p = map (node_at ?lf ?bs) (pre @ x # s)" unfolding page_nodes_def split(1) ..
  ultimately show ?thesis using del leaf2 split(2)
    by (intro exI[of _ ?p]) (simp_all add: remove_at_def IS_LEAF_def IS_LEAF2_def)
qed

subsection \<open>Reading what was added\<close>

lemma added_read:
  fixes p :: mdb_page and k d :: bytes
  assumes inv: "page_inv psize p" and indx: "indx \<le> NUMKEYS p"
    and small: "length k < 2 ^ 16" "dsz < 2 ^ 32" and dsz: "length d = (if odd flags then 8 else dsz)"
    and room: "mp_lower p + 2 + EVEN (8 + length k + length d) \<le> mp_upper p"
  defines "p' \<equiv> added p indx k d dsz flags"
  shows "mdb_node_read page_get (mp_bytes p') (mp_ptrs p' ! indx) =
    (if odd flags then (case page_get (nat (le_int d)) of Inl rc \<Rightarrow> Inl rc | Inr m \<Rightarrow> Inr (take dsz m)) else Inr d)"
proof -
  note D = page_invD[OF inv]
  define ofs where "ofs = mp_upper p - EVEN (8 + length k + length d)"
  have ofs: "ofs + EVEN (8 + length k + length d) = mp_upper p" using room by (simp add: ofs_def)
  have fits: "ofs + 8 + length k + length d \<le> length (mp_bytes p)"
    using EVEN_ge[of "8 + length k + length d"] ofs D(1,4) by linarith
  note r = write_leaf_reads[OF fits small, where flags = flags]
  have bs: "mp_bytes p' = write_leaf (mp_bytes p) ofs k d dsz flags" by (simp add: p'_def added_def Let_def ofs_def)
  have len: "length (shift_up xs i j) = length xs" for xs :: "nat list" and i j
    by (induction xs i j rule: shift_up.induct) (subst shift_up.simps, simp)
  have "indx < length (mp_ptrs p)" using D(2,4,5) room indx by linarith
  then have ptr: "mp_ptrs p' ! indx = ofs"
    by (simp add: p'_def added_def Let_def ofs_def len)
  have odd: "odd (flags mod 2 ^ 16) = odd flags" by (simp add: even_iff_mod_2_eq_zero mod_mod_cancel)
  show ?thesis
    unfolding mdb_node_read_def ptr bs r(3,4) odd using r(6) dsz by (cases "odd flags") simp_all
qed

definition overflow_get :: "ovpage option \<Rightarrow> nat \<Rightarrow> int + bytes" where
  "overflow_get ofp n = (case ofp of Some (pg, m) \<Rightarrow> if n = pg then Inr m else Inl (- 30797) | None \<Rightarrow> Inl (- 30797))"

lemma node_add_stores:
  fixes p :: mdb_page and k d :: bytes
  assumes inv: "page_inv psize p" and leaf: "IS_LEAF p" "\<not> IS_LEAF2 p" and indx: "indx \<le> NUMKEYS p"
    and small: "length k < 2 ^ 16" "length d < 2 ^ 32"
    and flags: "\<not> flags AND F_BIGDATA = F_BIGDATA" "\<not> flags AND MDB_RESERVE = MDB_RESERVE"
    and room: "node_room p nodemax k d"
    and ov: "fits_inline nodemax k d \<or> (\<exists>pg m. page_new (OVPAGES (length d) psize) = Inr (pg, m) \<and> pg < 2 ^ 64)"
  shows "\<exists>p' ofp fl pl. mdb_node_add nodemax psize ksize2 page_new p indx (Some k) (Some d) pgno flags = Some (0, p', ofp) \<and>
    page_inv psize p' \<and> IS_LEAF p' \<and> \<not> IS_LEAF2 p' \<and>
    page_nodes p' = insert_at indx (fl, k, pl) (page_nodes p) \<and>
    mdb_node_read (overflow_get ofp) (mp_bytes p') (mp_ptrs p' ! indx) = Inr d"
proof (cases "fits_inline nodemax k d")
  case True
  have ev: "even (unat flags)" using flags(1) unfolding bigdata_odd by simp
  have rm: "mp_lower p + 2 + EVEN (8 + length k + length d) \<le> mp_upper p" using room True by (simp add: node_room_def)
  have dz: "length d = (if odd (unat flags) then 8 else length d)" using ev by simp
  have add: "mdb_node_add nodemax psize ksize2 page_new p indx (Some k) (Some d) pgno flags =
      Some (0, added p indx k d (length d) (unat flags), None)"
    unfolding node_add_cases[OF inv leaf flags] using room True by simp
  have "mdb_node_read (overflow_get None) (mp_bytes (added p indx k d (length d) (unat flags)))
      (mp_ptrs (added p indx k d (length d) (unat flags)) ! indx) = Inr d"
    unfolding added_read[OF inv indx small dz rm] using ev by simp
  then show ?thesis using added_refines[OF inv leaf(1) indx small dz rm] leaf(2) unfolding add by blast
next
  case False
  then obtain pg m where pg: "page_new (OVPAGES (length d) psize) = Inr (pg, m)" "pg < 2 ^ 64" using ov by auto
  let ?fl = "unat (flags OR F_BIGDATA)" and ?pl = "le_bytes 8 (int pg)"
  have rm: "mp_lower p + 2 + EVEN (8 + length k + length ?pl) \<le> mp_upper p" using room False by (simp add: node_room_def)
  have dz: "length ?pl = (if odd ?fl then 8 else length d)" using unat_or_bigdata[of flags] by simp
  have add: "mdb_node_add nodemax psize ksize2 page_new p indx (Some k) (Some d) pgno flags =
      Some (0, added p indx k ?pl (length d) ?fl, Some (pg, memcpy_at m 0 d))"
    unfolding node_add_cases[OF inv leaf flags] using room False pg by simp
  have num: "nat (le_int ?pl) = pg" using pg(2) by (simp add: le_int_le_bytes)
  have "mdb_node_read (overflow_get (Some (pg, memcpy_at m 0 d))) (mp_bytes (added p indx k ?pl (length d) ?fl))
      (mp_ptrs (added p indx k ?pl (length d) ?fl) ! indx) = Inr d"
    unfolding added_read[OF inv indx small dz rm] num using unat_or_bigdata[of flags]
    by (simp add: overflow_get_def memcpy_at_def)
  then show ?thesis using added_refines[OF inv leaf(1) indx small dz rm] leaf(2) unfolding add by blast
qed

lemma page_new_empty:
  assumes "alloc num = Inr np" "length (mp_bytes np) = psize" "16 \<le> psize" "psize \<le> 16 + 2 * length (mp_ptrs np)"
    "mdb_page_new alloc psize db P_LEAF num = (r, db')"
  shows "\<exists>p. r = Inr p \<and> page_inv psize p \<and> IS_LEAF p \<and> \<not> IS_LEAF2 p \<and> page_nodes p = [] \<and>
    db' = db\<lparr>md_leaf_pages := md_leaf_pages db + 1\<rparr>"
proof -
  define p where "p = np\<lparr>mp_flags := P_LEAF OR P_DIRTY, mp_lower := 16, mp_upper := psize\<rparr>"
  have fl: "mp_flags p = 0x12" by (simp add: p_def)
  have lf: "IS_LEAF p" "\<not> IS_LEAF2 p" "\<not> mp_flags p AND P_BRANCH = P_BRANCH"
    by (simp_all add: IS_LEAF_def IS_LEAF2_def fl)
  have "page_inv psize p" "page_nodes p = []"
    using page_invI[of p psize 0 "[]" True] assms(2-4) lf(1) by (simp_all add: p_def)
  moreover have "r = Inr p" "db' = db\<lparr>md_leaf_pages := md_leaf_pages db + 1\<rparr>"
    using assms(1,5) lf by (auto simp: mdb_page_new_def Let_def p_def)
  ultimately show ?thesis using lf by blast
qed

text \<open>The size the callers compute in advance is exactly the room the node needs.\<close>

lemma leaf_size_room:
  assumes "mp_lower p \<le> mp_upper p"
  shows "mdb_leaf_size nodemax k d \<le> SIZELEFT p \<longleftrightarrow> node_room p nodemax k d"
proof -
  have "EVEN (n + 2) = EVEN n + 2" for n by (simp add: EVEN_def)
  then have "mdb_leaf_size nodemax k d = EVEN (8 + length k + (if fits_inline nodemax k d then length d else 8)) + 2"
    by (auto simp: mdb_leaf_size_def Let_def fits_inline_def)
  then show ?thesis using assms unfolding node_room_def SIZELEFT_def by linarith
qed

end
