(* ===== verification/Mdb_Path.thy ===== *)
theory Mdb_Path
  imports Mdb_Cursor
begin

text \<open>
  The pages as a tree: looking up a page finds its newest version, the entries of a
  tree from left to right, the path from the root a cursor's stack stands for, and
  the step to the page left or right of it.
\<close>

subsection \<open>Finding a page\<close>

lemma spilled_iff:
  assumes "unat c < 2 ^ 32" "unat c \<le> length xs" "sorted_wrt (\<lambda>x y. y < x) (take (unat c) xs)"
  shows "spilled (Some (c # xs)) pgno \<longleftrightarrow> push_bit 1 pgno \<in> set (take (unat c) xs)"
proof -
  let ?ys = "take (unat c) xs" and ?i = "push_bit 1 pgno :: mdb_id"
  define n where "n = length (takeWhile (\<lambda>x. ?i < x) ?ys)"
  have len: "length ?ys = unat c" using assms(2) by simp
  have n: "n \<le> unat c" using length_takeWhile_le[of "\<lambda>x. ?i < x" ?ys] unfolding n_def len .
  have "spilled (Some (c # xs)) pgno \<longleftrightarrow> n < unat c \<and> ?ys ! n = ?i"
    unfolding spilled_def Let_def option.case midl_search_descending[OF assms] n_def[symmetric]
    using n by (auto simp: Suc_le_eq)
  also have "\<dots> \<longleftrightarrow> ?i \<in> set ?ys"
  proof
    assume "n < unat c \<and> ?ys ! n = ?i"
    then show "?i \<in> set ?ys" using nth_mem[of n ?ys] unfolding len by metis
  next
    assume "?i \<in> set ?ys"
    then obtain j where j: "j < unat c" "?ys ! j = ?i" using len by (metis in_set_conv_nth)
    have "?i < ?ys ! k" if "k < j" for k
      using sorted_wrt_nth_less[OF assms(3) that] j len by simp
    then have "takeWhile (\<lambda>x. ?i < x) ?ys = take j ?ys"
      using j len by (intro takeWhile_eq_take_P_nth) auto
    then have "n = j" using j len by (simp add: n_def)
    then show "n < unat c \<and> ?ys ! n = ?i" using j by simp
  qed
  finally show ?thesis .
qed

lemma dirty_page_eq:
  assumes "mid2l_inv dl"
  shows "dirty_page dl pgno = map_of (map (\<lambda>x. (mid x, mptr x)) (mid2l_list dl)) pgno"
proof -
  obtain c ys rest where dl: "dl = c # ys @ rest" "mid2l_list dl = ys" "mid c = of_nat (length ys)"
      "sorted_wrt (<) (map mid ys)" "length ys < 2 ^ 32"
    using mid2l_cases[OF assms] by metis
  have u: "unat (mid c) = length ys" using dl(3,5) by simp
  have z: "mid c = 0 \<longleftrightarrow> ys = []" using u by (metis length_0_conv unat_0 unat_eq_0)
  define k where "k = length (takeWhile (\<lambda>x. mid x < pgno) ys)"
  have x: "mdb_mid2l_search dl pgno = 1 + k"
    using mid2l_search_ascending[of c "ys @ rest" pgno] u dl(4,5) by (simp add: dl(1) k_def)
  have k: "k \<le> length ys" unfolding k_def by (rule length_takeWhile_le)
  have eq: "dirty_page dl pgno = (if k < length ys \<and> mid (ys ! k) = pgno then Some (mptr (ys ! k)) else None)"
  proof -
    have "(1 + k \<le> unat (mid c) \<and> mid (dl ! (1 + k)) = pgno) \<longleftrightarrow> (k < length ys \<and> mid (ys ! k) = pgno)"
      by (auto simp: u dl(1) nth_append)
    moreover have "mptr (dl ! (1 + k)) = mptr (ys ! k)" if "k < length ys" using that by (simp add: dl(1) nth_append)
    moreover have "dl ! 0 = c" by (simp add: dl(1))
    ultimately show ?thesis unfolding dirty_page_def Let_def x using z u by auto
  qed
  have srt: "mid (ys ! i) < mid (ys ! j)" if "i < j" "j < length ys" for i j
    using sorted_wrt_nth_less[OF dl(4), of i j] that by simp
  show ?thesis
  proof (cases "pgno \<in> mid ` set ys")
    case True
    then obtain j where j: "j < length ys" "mid (ys ! j) = pgno" by (metis image_iff in_set_conv_nth)
    have "takeWhile (\<lambda>x. mid x < pgno) ys = take j ys"
      using j srt by (intro takeWhile_eq_take_P_nth) auto
    then have kj: "k = j" using j by (simp add: k_def)
    have "distinct (map mid ys)" using dl(4) strict_sorted_iff by blast
    then have "map_of (map (\<lambda>x. (mid x, mptr x)) ys) pgno = Some (mptr (ys ! j))"
      using j by (intro map_of_is_SomeI) (force simp: comp_def in_set_conv_nth)+
    then show ?thesis using eq kj j dl(2) by simp
  next
    case False
    then have "map_of (map (\<lambda>x. (mid x, mptr x)) ys) pgno = None"
      by (auto simp: map_of_eq_None_iff image_iff)
    moreover have "\<not> (k < length ys \<and> mid (ys ! k) = pgno)" using False by auto
    ultimately show ?thesis using eq dl(2) by simp
  qed
qed

subsection \<open>Trees of pages\<close>

text \<open>
  The tree of height \<open>h\<close> under a page: its entries from left to right, and that it
  is well formed: no leaf is empty, a branch has two children at least.
\<close>

definition child_of :: "('k, 'd) page_txn \<Rightarrow> 'k \<times> mdb_id \<Rightarrow> ('k, 'd) MDB_page option" where
  "child_of txn n = (case mdb_page_get txn (snd n) of Inl _ \<Rightarrow> None | Inr p \<Rightarrow> Some p)"

fun entries :: "('k, 'd) page_txn \<Rightarrow> nat \<Rightarrow> ('k, 'd) MDB_page \<Rightarrow> ('k \<times> 'd) list" where
  "entries txn 0 p = (case mp_nodes p of Leaf es \<Rightarrow> es | _ \<Rightarrow> [])"
| "entries txn (Suc h) p =
     (case mp_nodes p of
        Branch ns \<Rightarrow> concat (map (\<lambda>n. case child_of txn n of Some q \<Rightarrow> entries txn h q | None \<Rightarrow> []) ns)
      | _ \<Rightarrow> [])"

fun wf_page :: "('k, 'd) page_txn \<Rightarrow> nat \<Rightarrow> ('k, 'd) MDB_page \<Rightarrow> bool" where
  "wf_page txn 0 p = (case mp_nodes p of Leaf es \<Rightarrow> es \<noteq> [] | _ \<Rightarrow> False)"
| "wf_page txn (Suc h) p =
     (case mp_nodes p of
        Branch ns \<Rightarrow> 1 < length ns \<and> (\<forall>n \<in> set ns. case child_of txn n of Some q \<Rightarrow> wf_page txn h q | None \<Rightarrow> False)
      | _ \<Rightarrow> False)"

definition below :: "('k, 'd) page_txn \<Rightarrow> nat \<Rightarrow> 'k \<times> mdb_id \<Rightarrow> ('k \<times> 'd) list" where
  "below txn h n = (case child_of txn n of Some q \<Rightarrow> entries txn h q | None \<Rightarrow> [])"

abbreviation entries_before :: "('k, 'd) page_txn \<Rightarrow> nat \<Rightarrow> nat \<Rightarrow> ('k \<times> mdb_id) list \<Rightarrow> nat" where
  "entries_before txn h i ns \<equiv> length (concat (map (below txn h) (take i ns)))"

abbreviation children_ok :: "('k, 'd) page_txn \<Rightarrow> nat \<Rightarrow> ('k \<times> mdb_id) list \<Rightarrow> bool" where
  "children_ok txn h ns \<equiv> \<forall>i < length ns. \<exists>q. mdb_page_get txn (snd (ns ! i)) = Inr q \<and> wf_page txn h q \<and>
     below txn h (ns ! i) = entries txn h q"

lemma entries_branch: "mp_nodes p = Branch ns \<Longrightarrow> entries txn (Suc h) p = concat (map (below txn h) ns)"
  by (simp add: below_def[abs_def])

lemma wf_leaf: "wf_page txn 0 p \<longleftrightarrow> (\<exists>es. mp_nodes p = Leaf es \<and> es \<noteq> [] \<and> entries txn 0 p = es)"
  by (cases "mp_nodes p") auto

lemma wf_branchE:
  assumes "wf_page txn (Suc h) p"
  obtains ns where "mp_nodes p = Branch ns" "1 < length ns"
    "children_ok txn h ns"
proof -
  obtain ns where ns: "mp_nodes p = Branch ns" "1 < length ns"
    "\<forall>n \<in> set ns. case child_of txn n of Some q \<Rightarrow> wf_page txn h q | None \<Rightarrow> False"
    using assms by (auto split: nodes.splits)
  have "\<exists>q. mdb_page_get txn (snd (ns ! i)) = Inr q \<and> wf_page txn h q \<and> below txn h (ns ! i) = entries txn h q"
    if "i < length ns" for i
    using ns(3)[rule_format, OF nth_mem[OF that]]
    by (cases "mdb_page_get txn (snd (ns ! i))") (auto simp: child_of_def below_def)
  then show thesis using that ns by blast
qed

lemma wf_entries: "wf_page txn h p \<Longrightarrow> entries txn h p \<noteq> []"
proof (induction h arbitrary: p)
  case 0
  then show ?case by (cases "mp_nodes p") simp_all
next
  case (Suc h)
  obtain ns where ns: "mp_nodes p = Branch ns" "1 < length ns"
    "children_ok txn h ns"
    by (rule wf_branchE[OF Suc.prems])
  have "0 < length ns" using ns(2) by linarith
  then have "below txn h (ns ! 0) \<noteq> []" using ns(3) Suc.IH by fastforce
  then show ?case unfolding entries_branch[OF ns(1)] using \<open>0 < length ns\<close> by (cases ns) auto
qed

declare entries.simps [simp del] wf_page.simps [simp del]

subsection \<open>The path a cursor is on\<close>

text \<open>
  The stack of a cursor is a path down from the root: at level \<open>s\<close> the page \<open>p\<close>, of
  height \<open>h\<close>, with \<open>b\<close> entries of the tree before it.
\<close>

inductive on_path ::
  "('k, 'd) page_txn \<Rightarrow> ('k, 'd) MDB_page option list \<Rightarrow> nat list \<Rightarrow> ('k, 'd) MDB_page \<Rightarrow> nat \<Rightarrow>
     nat \<Rightarrow> nat \<Rightarrow> ('k, 'd) MDB_page \<Rightarrow> nat \<Rightarrow> bool"
  for txn pg ki root H where
  Root: "pg ! 0 = Some root \<Longrightarrow> on_path txn pg ki root H 0 H root 0"
| Down: "on_path txn pg ki root H s (Suc h) p b \<Longrightarrow> mp_nodes p = Branch ns \<Longrightarrow> ki ! s < length ns \<Longrightarrow>
    mdb_page_get txn (snd (ns ! (ki ! s))) = Inr q \<Longrightarrow> pg ! Suc s = Some q \<Longrightarrow>
    on_path txn pg ki root H (Suc s) h q (b + entries_before txn h (ki ! s) ns)"

lemma on_path_page: "on_path txn pg ki root H s h p b \<Longrightarrow> pg ! s = Some p \<and> s + h = H"
  by (induction rule: on_path.induct) auto

lemma on_path_wf: "on_path txn pg ki root H s h p b \<Longrightarrow> wf_page txn H root \<Longrightarrow> wf_page txn h p"
proof (induction rule: on_path.induct)
  case (Down s h p b ns q)
  then obtain q' where "mdb_page_get txn (snd (ns ! (ki ! s))) = Inr q'" "wf_page txn h q'"
    by (metis wf_branchE nodes.inject(1))
  then show ?case using Down.hyps(4) by simp
qed simp

lemma on_path_frame:
  assumes "on_path txn pg ki root H s h p b"
    and "\<And>l. l \<le> s \<Longrightarrow> pg' ! l = pg ! l" and "\<And>l. l < s \<Longrightarrow> ki' ! l = ki ! l"
  shows "on_path txn pg' ki' root H s h p b"
  using assms
proof (induction rule: on_path.induct)
  case Root
  then show ?case by (intro on_path.Root) simp
next
  case (Down s h p b ns q)
  then have "on_path txn pg' ki' root H s (Suc h) p b" by simp
  then show ?case using on_path.Down[of txn pg' ki' root H s h p b ns q] Down.hyps(2-5) Down.prems by simp
qed

text \<open>The entries under a page of the path are a piece of the list.\<close>

lemma concat_split:
  assumes "i < length ns"
  shows "concat (map f ns) = concat (map f (take i ns)) @ f (ns ! i) @ concat (map f (drop (Suc i) ns))"
proof -
  have "ns = take i ns @ ns ! i # drop (Suc i) ns" using assms by (rule id_take_nth_drop)
  then have "concat (map f ns) = concat (map f (take i ns @ ns ! i # drop (Suc i) ns))" by simp
  then show ?thesis by simp
qed

lemma on_path_piece:
  assumes "on_path txn pg ki root H s h p b"
  shows "\<exists>A B. entries txn H root = A @ entries txn h p @ B \<and> length A = b"
  using assms
proof (induction rule: on_path.induct)
  case Root
  show ?case by simp
next
  case (Down s h p b ns q)
  then obtain A B where AB: "entries txn H root = A @ entries txn (Suc h) p @ B" "length A = b" by blast
  have "below txn h (ns ! (ki ! s)) = entries txn h q" using Down.hyps(4) by (simp add: below_def child_of_def)
  then have "entries txn H root = (A @ concat (map (below txn h) (take (ki ! s) ns))) @ entries txn h q @
      (concat (map (below txn h) (drop (Suc (ki ! s)) ns)) @ B)"
    unfolding AB(1) entries_branch[OF Down.hyps(2)] by (subst concat_split[OF Down.hyps(3)]) simp
  then show ?case using AB(2) by (metis length_append)
qed

text \<open>A cursor whose stack is a path down to level \<open>s\<close>.\<close>

definition path_to ::
  "('k, 'd) page_txn \<Rightarrow> ('k, 'd) MDB_page \<Rightarrow> nat \<Rightarrow> ('k, 'd) MDB_cursor \<Rightarrow> nat \<Rightarrow> nat \<Rightarrow> ('k, 'd) MDB_page \<Rightarrow> nat \<Rightarrow> bool" where
  "path_to txn root H mc s h p b \<longleftrightarrow> on_path txn (mc_pg mc) (mc_ki mc) root H s h p b \<and>
     length (mc_pg mc) = CURSOR_STACK \<and> length (mc_ki mc) = CURSOR_STACK \<and> H < CURSOR_STACK \<and>
     mc_top mc = s \<and> mc_snum mc = Suc s"

lemma path_to_top:
  assumes "path_to txn root H mc s h p b"
  shows "top_page mc = p" "mc_top mc = s" "s < CURSOR_STACK" "s + h = H"
  using assms on_path_page[of txn "mc_pg mc" "mc_ki mc" root H s h p b] by (auto simp: path_to_def top_page_def)

lemma top_ki_set_ki [simp]: "mc_top mc < length (mc_ki mc) \<Longrightarrow> top_ki (set_ki i mc) = i"
  by (simp add: top_ki_def set_ki_def)

lemma top_page_set_ki [simp]: "top_page (set_ki i mc) = top_page mc"
  by (simp add: top_page_def set_ki_def)

lemma path_to_set_ki [simp]: "path_to txn root H (set_ki i mc) s h p b \<longleftrightarrow> path_to txn root H mc s h p b"
proof -
  have "on_path txn (mc_pg mc) ((mc_ki mc)[s := i]) root H s h p b \<longleftrightarrow>
      on_path txn (mc_pg mc) (mc_ki mc) root H s h p b"
    using on_path_frame[of txn "mc_pg mc" "(mc_ki mc)[s := i]" root H s h p b "mc_pg mc" "mc_ki mc"]
      on_path_frame[of txn "mc_pg mc" "mc_ki mc" root H s h p b "mc_pg mc" "(mc_ki mc)[s := i]"] by auto
  then show ?thesis by (auto simp: path_to_def set_ki_def)
qed

lemma path_to_flags [simp]:
  "path_to txn root H (mc\<lparr>C_INITIALIZED := i\<rparr>) s h p b = path_to txn root H mc s h p b"
  "path_to txn root H (mc\<lparr>C_EOF := e\<rparr>) s h p b = path_to txn root H mc s h p b"
  "path_to txn root H (mc\<lparr>C_DEL := d\<rparr>) s h p b = path_to txn root H mc s h p b"
  by (simp_all add: path_to_def)

text \<open>Going down to a child, by a push; the children of a branch page.\<close>

definition pushed :: "('k, 'd) MDB_cursor \<Rightarrow> ('k, 'd) MDB_page \<Rightarrow> ('k, 'd) MDB_cursor" where
  "pushed mc q = mc\<lparr>mc_top := mc_snum mc, mc_snum := mc_snum mc + 1,
     mc_pg := (mc_pg mc)[mc_snum mc := Some q], mc_ki := (mc_ki mc)[mc_snum mc := 0]\<rparr>"

lemma enter_child:
  assumes "path_to txn root H mc s (Suc h) p b" "mp_nodes p = Branch ns" "top_ki mc < length ns"
    "mdb_page_get txn (snd (ns ! top_ki mc)) = Inr q"
  shows "mdb_cursor_push mc q = (0, pushed mc q)" "top_ki (pushed mc q) = 0"
    "path_to txn root H (pushed mc q) (Suc s) h q (b + entries_before txn h (top_ki mc) ns)"
proof -
  have s: "Suc s < CURSOR_STACK" using assms(1) path_to_top[OF assms(1)] by (simp add: path_to_def)
  have mc: "mc_snum mc = Suc s" "mc_top mc = s" using assms(1) by (simp_all add: path_to_def)
  show "mdb_cursor_push mc q = (0, pushed mc q)" using s mc by (simp add: mdb_cursor_push_def pushed_def)
  have "on_path txn (mc_pg (pushed mc q)) (mc_ki (pushed mc q)) root H s (Suc h) p b"
    by (rule on_path_frame[of txn "mc_pg mc" "mc_ki mc"]) (use assms(1) in \<open>simp_all add: path_to_def pushed_def mc\<close>)
  moreover have "mc_pg (pushed mc q) ! Suc s = Some q" "mc_ki (pushed mc q) ! s = top_ki mc"
    using assms(1) s by (simp_all add: path_to_def pushed_def mc top_ki_def)
  ultimately have "on_path txn (mc_pg (pushed mc q)) (mc_ki (pushed mc q)) root H (Suc s) h q
      (b + entries_before txn h (top_ki mc) ns)"
    using on_path.Down[of txn "mc_pg (pushed mc q)" "mc_ki (pushed mc q)" root H s h p b ns q] assms(2-4) by simp
  then show "path_to txn root H (pushed mc q) (Suc s) h q (b + entries_before txn h (top_ki mc) ns)"
    using assms(1) by (simp add: path_to_def pushed_def)
  show "top_ki (pushed mc q) = 0" using assms(1) s by (simp add: path_to_def top_ki_def pushed_def mc)
qed

lemma path_to_branchE:
  assumes "path_to txn root H mc s (Suc h) p b" "wf_page txn H root"
  obtains ns where "mp_nodes (top_page mc) = Branch ns" "1 < length ns" "mp_nodes p = Branch ns"
    "entries txn (Suc h) p = concat (map (below txn h) ns)"
    "children_ok txn h ns"
proof -
  have "wf_page txn (Suc h) p" using assms by (auto simp: path_to_def intro: on_path_wf)
  then show thesis using that path_to_top(1)[OF assms(1)] entries_branch by (elim wf_branchE) blast
qed

lemma path_to_piece:
  assumes "path_to txn root H mc s h p b"
  obtains A B where "entries txn H root = A @ entries txn h p @ B" "length A = b"
  using assms on_path_piece[of txn "mc_pg mc" "mc_ki mc" root H s h p b] by (auto simp: path_to_def)

lemma path_to_Suc:
  assumes "path_to txn root H mc (Suc s) h q b'" "wf_page txn H root"
  obtains p b ns where "path_to txn root H (mdb_cursor_pop mc) s (Suc h) p b" "mp_nodes p = Branch ns"
    "mp_nodes (top_page (mdb_cursor_pop mc)) = Branch ns"
    "top_ki (mdb_cursor_pop mc) < length ns" "below txn h (ns ! top_ki (mdb_cursor_pop mc)) = entries txn h q"
    "b' = b + entries_before txn h (top_ki (mdb_cursor_pop mc)) ns"
    "entries txn (Suc h) p = concat (map (below txn h) ns)"
proof -
  have pop: "mdb_cursor_pop mc = mc\<lparr>mc_snum := Suc s, mc_top := s\<rparr>"
    using assms(1) by (simp add: path_to_def mdb_cursor_pop_def)
  have "on_path txn (mc_pg mc) (mc_ki mc) root H (Suc s) h q b'" using assms(1) by (simp add: path_to_def)
  then obtain p b ns where c: "on_path txn (mc_pg mc) (mc_ki mc) root H s (Suc h) p b" "mp_nodes p = Branch ns"
      "mc_ki mc ! s < length ns" "mdb_page_get txn (snd (ns ! (mc_ki mc ! s))) = Inr q"
      "b' = b + entries_before txn h (mc_ki mc ! s) ns"
    by (cases rule: on_path.cases) auto
  have p: "path_to txn root H (mdb_cursor_pop mc) s (Suc h) p b"
    using c(1) assms(1) by (simp add: path_to_def pop)
  have "mp_nodes (top_page (mdb_cursor_pop mc)) = Branch ns" using path_to_top(1)[OF p] c(2) by simp
  then show thesis
    using c p entries_branch[OF c(2), of txn h]
    by (intro that[of p b ns]) (simp_all add: pop top_ki_def below_def child_of_def)
qed

definition same_flags :: "('k, 'd) MDB_cursor \<Rightarrow> ('k, 'd) MDB_cursor \<Rightarrow> bool" where
  "same_flags mc mc' \<longleftrightarrow> C_INITIALIZED mc' = C_INITIALIZED mc \<and> C_EOF mc' = C_EOF mc \<and> C_DEL mc' = C_DEL mc \<and>
     mc_error mc' = mc_error mc"

lemma same_flags_simps [simp]:
  "same_flags mc mc" "same_flags mc (set_ki i mc') = same_flags mc mc'"
  "same_flags mc (pushed mc' q) = same_flags mc mc'" "same_flags (set_ki i mc) mc' = same_flags mc mc'"
  "same_flags mc (mc'\<lparr>mc_top := s, mc_snum := n\<rparr>) = same_flags mc mc'"
  by (simp_all add: same_flags_def set_ki_def pushed_def)

lemma same_flags_trans: "same_flags mc mc' \<Longrightarrow> same_flags mc' mc'' \<Longrightarrow> same_flags mc mc''"
  by (simp add: same_flags_def)

lemma path_to_ki: "path_to txn root H mc s h p b \<Longrightarrow> mc_top mc < length (mc_ki mc)"
  using path_to_top by (fastforce simp: path_to_def)

text \<open>
  The step to a sibling, to the right or to the left: the page of the same height next
  to the one the cursor is on, unless this is the last or the first.
\<close>

lemma sibling_down_path:
  assumes p: "path_to txn root H mc s (Suc h) p b" "wf_page txn H root" "mp_nodes p = Branch ns" "top_ki mc < length ns"
  shows "\<exists>mc' q. sibling_down txn right mc = Some (0, mc') \<and> same_flags mc mc' \<and>
    path_to txn root H mc' (Suc s) h q (b + entries_before txn h (top_ki mc) ns) \<and>
    top_ki mc' = (if right then 0 else node_count (mp_nodes q) - 1) \<and> below txn h (ns ! top_ki mc) = entries txn h q \<and>
    wf_page txn h q"
proof -
  obtain q where q: "mdb_page_get txn (snd (ns ! top_ki mc)) = Inr q" "wf_page txn h q"
      "below txn h (ns ! top_ki mc) = entries txn h q"
    using path_to_branchE[OF p(1,2)] p(3,4) by (metis nodes.inject(1))
  note e = enter_child[OF p(1,3,4) q(1)]
  have "mp_nodes (top_page mc) = Branch ns" using path_to_top(1)[OF p(1)] p(3) by simp
  then have "sibling_down txn right mc =
      Some (0, if right then pushed mc q else set_ki (node_count (mp_nodes q) - 1) (pushed mc q))"
    using p(4) q(1) e(1) by (simp add: sibling_down_def Let_def)
  then show ?thesis using e(2,3) q(2,3) path_to_ki[OF e(3)] by (cases right) auto
qed

lemma concat_take_Suc:
  "i < length ns \<Longrightarrow> length (concat (map f (take (Suc i) ns))) = length (concat (map f (take i ns))) + length (f (ns ! i))"
  by (simp add: take_Suc_conv_app_nth)

text \<open>The neighbour of a page, by the entries before the two.\<close>

definition neighbour :: "bool \<Rightarrow> nat \<Rightarrow> nat \<Rightarrow> nat \<Rightarrow> nat \<Rightarrow> bool" where
  "neighbour right b len b' len' \<longleftrightarrow> (if right then b' = b + len else b' + len' = b)"

definition at_edge :: "bool \<Rightarrow> nat \<Rightarrow> nat \<Rightarrow> nat \<Rightarrow> bool" where
  "at_edge right b len n \<longleftrightarrow> (if right then b + len = n else b = 0)"

lemma neighbour_not_edge:
  assumes "path_to txn root H mc s h q b'" "wf_page txn h q" "neighbour right b len b' (length (entries txn h q))"
  shows "\<not> at_edge right b len (length (entries txn H root))"
proof -
  obtain A B where "entries txn H root = A @ entries txn h q @ B" "length A = b'" by (rule path_to_piece[OF assms(1)])
  moreover have "0 < length (entries txn h q)" using wf_entries[OF assms(2)] by simp
  ultimately show ?thesis using assms(3) by (auto simp: neighbour_def at_edge_def split: if_splits)
qed

text \<open>Moving to the next child of the same parent, and to the first child of the parent's neighbour.\<close>

lemma sibling_inner:
  assumes P: "path_to txn root H mc s (Suc h) P B" "wf_page txn H root" "mp_nodes P = Branch ns"
    and i: "i < length ns" "if right then i + 1 < length ns else 0 < i"
    and j: "j = (if right then i + 1 else i - 1)"
  shows "\<exists>mc' q b'. sibling_down txn right (set_ki j mc) = Some (0, mc') \<and> same_flags mc mc' \<and>
    path_to txn root H mc' (Suc s) h q b' \<and> wf_page txn h q \<and>
    neighbour right (B + entries_before txn h i ns) (length (below txn h (ns ! i))) b' (length (entries txn h q)) \<and>
    top_ki mc' = (if right then 0 else node_count (mp_nodes q) - 1)"
proof -
  let ?m = "set_ki j mc"
  have jn: "j < length ns" using i j by (auto split: if_splits)
  have ki: "top_ki ?m = j" using path_to_ki[OF P(1)] by simp
  have "path_to txn root H ?m s (Suc h) P B" using P(1) by simp
  from sibling_down_path[OF this P(2,3), of right] jn ki obtain mc' q where
    d: "sibling_down txn right ?m = Some (0, mc')" "same_flags mc mc'"
      "path_to txn root H mc' (Suc s) h q (B + entries_before txn h j ns)"
      "top_ki mc' = (if right then 0 else node_count (mp_nodes q) - 1)" "below txn h (ns ! j) = entries txn h q"
      "wf_page txn h q"
    by auto
  have "neighbour right (B + entries_before txn h i ns) (length (below txn h (ns ! i)))
      (B + entries_before txn h j ns) (length (entries txn h q))"
  proof (cases right)
    case True
    then show ?thesis using concat_take_Suc[OF i(1), of "below txn h"] j by (simp add: neighbour_def)
  next
    case False
    then have "i = Suc j" using i(2) j by simp
    then show ?thesis using False concat_take_Suc[OF jn, of "below txn h"] d(5) by (simp add: neighbour_def)
  qed
  then show ?thesis using d by blast
qed

lemma sibling_outer:
  assumes P: "path_to txn root H mc s (Suc h) P B" "wf_page txn H root"
    and ki: "top_ki mc = (if right then 0 else node_count (mp_nodes P) - 1)"
    and nb: "neighbour right b0 len0 B (length (entries txn (Suc h) P))"
  shows "\<exists>mc' q b'. sibling_down txn right mc = Some (0, mc') \<and> same_flags mc mc' \<and>
    path_to txn root H mc' (Suc s) h q b' \<and> wf_page txn h q \<and>
    neighbour right b0 len0 b' (length (entries txn h q)) \<and>
    top_ki mc' = (if right then 0 else node_count (mp_nodes q) - 1)"
proof -
  obtain ns where ns: "1 < length ns" "mp_nodes P = Branch ns" "entries txn (Suc h) P = concat (map (below txn h) ns)"
    by (rule path_to_branchE[OF P])
  have i: "top_ki mc < length ns" using ki ns(1,2) by auto
  obtain mc' q where d: "sibling_down txn right mc = Some (0, mc')" "same_flags mc mc'"
      "path_to txn root H mc' (Suc s) h q (B + entries_before txn h (top_ki mc) ns)"
      "top_ki mc' = (if right then 0 else node_count (mp_nodes q) - 1)"
      "below txn h (ns ! top_ki mc) = entries txn h q" "wf_page txn h q"
    using sibling_down_path[OF P ns(2) i, of right] by auto
  have "neighbour right b0 len0 (B + entries_before txn h (top_ki mc) ns) (length (entries txn h q))"
  proof (cases right)
    case True
    then show ?thesis using nb ki by (simp add: neighbour_def)
  next
    case False
    then have "Suc (top_ki mc) = length ns" using ki ns(1,2) by simp
    then have "length (entries txn (Suc h) P) =
        entries_before txn h (top_ki mc) ns + length (entries txn h q)"
      using concat_take_Suc[OF i, of "below txn h"] d(5) ns(3) by simp
    then show ?thesis using False nb by (simp add: neighbour_def)
  qed
  then show ?thesis using d by blast
qed

lemma sibling_step:
  assumes "path_to txn root H mc s h p b" "wf_page txn H root"
  shows "if at_edge right b (length (entries txn h p)) (length (entries txn H root))
    then mdb_cursor_sibling txn right mc = Some (MDB_NOTFOUND, mc)
    else \<exists>mc' q b'. mdb_cursor_sibling txn right mc = Some (0, mc') \<and> same_flags mc mc' \<and>
      path_to txn root H mc' s h q b' \<and> neighbour right b (length (entries txn h p)) b' (length (entries txn h q)) \<and>
      top_ki mc' = (if right then 0 else node_count (mp_nodes q) - 1)"
  using assms
proof (induction s arbitrary: mc h p b)
  case 0
  then have "on_path txn (mc_pg mc) (mc_ki mc) root H 0 h p b" by (simp add: path_to_def)
  then have "b = 0" "h = H" "p = root" by (cases rule: on_path.cases; simp)+
  moreover have "mdb_cursor_sibling txn right mc = Some (MDB_NOTFOUND, mc)"
    using 0 by (subst mdb_cursor_sibling.simps) (simp add: path_to_def)
  ultimately show ?case by (simp add: at_edge_def)
next
  case (Suc s)
  let ?mc = "mdb_cursor_pop mc" and ?N = "length (entries txn H root)"
  obtain P B ns where P: "path_to txn root H ?mc s (Suc h) P B" "mp_nodes P = Branch ns"
      "mp_nodes (top_page ?mc) = Branch ns" "top_ki ?mc < length ns" "below txn h (ns ! top_ki ?mc) = entries txn h p"
      "b = B + entries_before txn h (top_ki ?mc) ns"
      "entries txn (Suc h) P = concat (map (below txn h) ns)"
    by (rule path_to_Suc[OF Suc.prems])
  have snum: "\<not> mc_snum mc < 2" using Suc.prems(1) by (simp add: path_to_def)
  have pop: "mc_top ?mc = s" "mc_snum ?mc = Suc s" "?mc\<lparr>mc_top := Suc s, mc_snum := Suc (Suc s)\<rparr> = mc"
    using Suc.prems(1) by (simp_all add: path_to_def mdb_cursor_pop_def)
  have flags: "same_flags mc ?mc" using Suc.prems(1) by (simp add: path_to_def mdb_cursor_pop_def same_flags_def)
  define outer where "outer = (if right then top_ki ?mc + 1 \<ge> length ns else top_ki ?mc = 0)"
  have sib: "mdb_cursor_sibling txn right mc =
    (if outer then
       (case mdb_cursor_sibling txn right ?mc of
          None \<Rightarrow> None
        | Some (rc, mc) \<Rightarrow>
            if rc \<noteq> MDB_SUCCESS then Some (rc, mc\<lparr>mc_top := mc_top mc + 1, mc_snum := mc_snum mc + 1\<rparr>)
            else sibling_down txn right mc)
     else sibling_down txn right (set_ki (if right then top_ki ?mc + 1 else top_ki ?mc - 1) ?mc))"
    using snum P(3) by (subst mdb_cursor_sibling.simps) (simp add: Let_def outer_def)
  note b = P(6) and len = arg_cong[OF P(5), of length]
  show ?case
  proof (cases outer)
    case False
    then have i: "if right then top_ki ?mc + 1 < length ns else 0 < top_ki ?mc" by (auto simp: outer_def)
    obtain mc' q b' where d: "mdb_cursor_sibling txn right mc = Some (0, mc')" "same_flags ?mc mc'"
        "path_to txn root H mc' (Suc s) h q b'" "wf_page txn h q"
        "neighbour right b (length (entries txn h p)) b' (length (entries txn h q))"
        "top_ki mc' = (if right then 0 else node_count (mp_nodes q) - 1)"
      using sibling_inner[OF P(1) Suc.prems(2) P(2,4) i refl] False unfolding sib b len[symmetric] by auto
    then show ?thesis
      unfolding if_not_P[OF neighbour_not_edge[OF d(3,4,5)]] using same_flags_trans[OF flags] by blast
  next
    case True
    have t: "b + length (entries txn h p) = B + length (entries txn (Suc h) P)" if right
      using that True P(4) concat_take_Suc[OF P(4), of "below txn h"] b len P(7) by (simp add: outer_def)
    have f: "b = B" if "\<not> right" using that True b by (simp add: outer_def)
    note IH = Suc.IH[OF P(1) Suc.prems(2)]
    show ?thesis
    proof (cases "at_edge right B (length (entries txn (Suc h) P)) ?N")
      case e: True
      then have "mdb_cursor_sibling txn right mc = Some (MDB_NOTFOUND, mc)"
        using IH True pop by (simp add: sib)
      moreover have "at_edge right b (length (entries txn h p)) ?N" using e t f by (auto simp: at_edge_def)
      ultimately show ?thesis by simp
    next
      case e: False
      then obtain mc2 P2 B2 where m: "mdb_cursor_sibling txn right ?mc = Some (0, mc2)" "same_flags ?mc mc2"
          "path_to txn root H mc2 s (Suc h) P2 B2"
          "neighbour right B (length (entries txn (Suc h) P)) B2 (length (entries txn (Suc h) P2))"
          "top_ki mc2 = (if right then 0 else node_count (mp_nodes P2) - 1)"
        using IH by auto
      have "neighbour right b (length (entries txn h p)) B2 (length (entries txn (Suc h) P2))"
        using m(4) t f by (auto simp: neighbour_def)
      from sibling_outer[OF m(3) Suc.prems(2) m(5) this] obtain mc' q b' where
        d: "sibling_down txn right mc2 = Some (0, mc')" "same_flags mc2 mc'"
          "path_to txn root H mc' (Suc s) h q b'" "wf_page txn h q"
          "neighbour right b (length (entries txn h p)) b' (length (entries txn h q))"
          "top_ki mc' = (if right then 0 else node_count (mp_nodes q) - 1)"
        by blast
      have "mdb_cursor_sibling txn right mc = Some (0, mc')" using True m(1) d(1) by (simp add: sib)
      then show ?thesis
        unfolding if_not_P[OF neighbour_not_edge[OF d(3,4,5)]]
        using same_flags_trans[OF same_flags_trans[OF flags m(2)] d(2)] d(3,5,6) by blast
    qed
  qed
qed

end
