(* ===== verification/Mdb_Btree.thy ===== *)
theory Mdb_Btree
  imports Mdb_Path
begin

text \<open>
  Searching the tree: the keys of the branch pages lead to the leaf where a key
  belongs, and every operation of a cursor on the pages does what the one of \<open>Lmdb\<close>
  does on the flat list of the entries.
\<close>

subsection \<open>The descent\<close>

text \<open>
  The keys of a branch page separate its children: what is left of a key is below it,
  what is right of it is not.
\<close>

fun separated :: "('k \<Rightarrow> 'r::linorder) \<Rightarrow> ('k \<Rightarrow> bool) \<Rightarrow> ('k, 'd) page_txn \<Rightarrow> nat \<Rightarrow> ('k, 'd) MDB_page \<Rightarrow> bool" where
  "separated rank ok txn 0 p = True"
| "separated rank ok txn (Suc h) p =
     (case mp_nodes p of
        Branch ns \<Rightarrow>
          (\<forall>i < length ns. 0 < i \<longrightarrow> ok (fst (ns ! i)) \<and>
             (\<forall>x \<in> set (below txn h (ns ! (i - 1))). rank (fst x) < rank (fst (ns ! i))) \<and>
             (\<forall>x \<in> set (below txn h (ns ! i)). rank (fst (ns ! i)) \<le> rank (fst x))) \<and>
          (\<forall>n \<in> set ns. case child_of txn n of Some q \<Rightarrow> separated rank ok txn h q | None \<Rightarrow> True)
      | _ \<Rightarrow> True)"

text \<open>
  Where a search has to lead among the entries \<open>E\<close>: to the piece \<open>es\<close> at the begin or
  at the end, or with smaller entries before it and larger ones behind it.
\<close>

definition lands :: "('k \<Rightarrow> 'r::linorder) \<Rightarrow> 'k search \<Rightarrow> nat \<Rightarrow> ('k \<times> 'd) list \<Rightarrow> nat \<Rightarrow> ('k \<times> 'd) list \<Rightarrow> bool" where
  "lands rank flags b E b' es \<longleftrightarrow> (\<exists>A B. E = A @ es @ B \<and> b' = b + length A \<and>
     (case flags of
        PS_FIRST \<Rightarrow> A = []
      | PS_LAST \<Rightarrow> B = []
      | PS_KEY key \<Rightarrow> (\<forall>x \<in> set A. rank (fst x) < rank key) \<and> (\<forall>x \<in> set B. rank key < rank (fst x))))"

lemma lands_refl: "lands rank flags b E b E"
  unfolding lands_def by (rule exI[of _ "[]"], rule exI[of _ "[]"]) (simp split: search.split)

lemma lands_trans:
  assumes "lands rank flags b E b1 E1" "lands rank flags b1 E1 b2 E2"
  shows "lands rank flags b E b2 E2"
proof -
  obtain A B A' B' where "E = A @ E1 @ B" "E1 = A' @ E2 @ B'" "b1 = b + length A" "b2 = b1 + length A'"
    and c: "case flags of PS_FIRST \<Rightarrow> A = [] | PS_LAST \<Rightarrow> B = []
      | PS_KEY key \<Rightarrow> (\<forall>x \<in> set A. rank (fst x) < rank key) \<and> (\<forall>x \<in> set B. rank key < rank (fst x))"
     "case flags of PS_FIRST \<Rightarrow> A' = [] | PS_LAST \<Rightarrow> B' = []
      | PS_KEY key \<Rightarrow> (\<forall>x \<in> set A'. rank (fst x) < rank key) \<and> (\<forall>x \<in> set B'. rank key < rank (fst x))"
    using assms by (auto simp: lands_def)
  then have "E = (A @ A') @ E2 @ (B' @ B)" "b2 = b + length (A @ A')" by simp_all
  moreover have "case flags of PS_FIRST \<Rightarrow> A @ A' = [] | PS_LAST \<Rightarrow> B' @ B = []
      | PS_KEY key \<Rightarrow> (\<forall>x \<in> set (A @ A'). rank (fst x) < rank key) \<and> (\<forall>x \<in> set (B' @ B). rank key < rank (fst x))"
    using c by (cases flags) auto
  ultimately show ?thesis unfolding lands_def by blast
qed

lemma lands_key:
  assumes "lands rank (PS_KEY key) b E b' es"
  shows "b + lower_bound rank E key = b' + lower_bound rank es key"
proof -
  obtain A B where E: "E = A @ es @ B" "b' = b + length A" "\<forall>x \<in> set A. rank (fst x) < rank key"
      "\<forall>x \<in> set B. rank key < rank (fst x)"
    using assms by (auto simp: lands_def)
  have B: "takeWhile (\<lambda>x. rank (fst x) < rank key) B = []" using E(4) by (cases B) auto
  have "takeWhile (\<lambda>x. rank (fst x) < rank key) (es @ B) = takeWhile (\<lambda>x. rank (fst x) < rank key) es"
    using B by (simp add: takeWhile_append flip: takeWhile_eq_all_conv)
  then show ?thesis using E(2,3) by (simp add: lower_bound_def E(1) takeWhile_append)
qed

text \<open>One step down, to the child the flags select.\<close>

definition selected :: "('k \<Rightarrow> 'k \<Rightarrow> int) \<Rightarrow> 'k search \<Rightarrow> ('k \<times> mdb_id) list \<Rightarrow> nat option" where
  "selected cmp flags ns =
     (case flags of PS_FIRST \<Rightarrow> Some 0 | PS_LAST \<Rightarrow> Some (length ns - 1)
      | PS_KEY key \<Rightarrow> followed (length ns) (mdb_node_search_branch cmp (map fst ns) key))"

lemma search_root_down:
  assumes "path_to txn root H mc s (Suc h) p b" "wf_page txn H root" "mp_nodes p = Branch ns"
    "selected cmp flags ns = Some i" "i < length ns" "\<not> C_INITIALIZED mc \<or> flags \<noteq> PS_LAST"
  shows "\<exists>mc' q. mdb_page_search_root cmp txn flags mc = mdb_page_search_root cmp txn flags mc' \<and> same_flags mc mc' \<and>
    path_to txn root H mc' (Suc s) h q (b + entries_before txn h i ns) \<and>
    below txn h (ns ! i) = entries txn h q \<and> child_of txn (ns ! i) = Some q"
proof -
  obtain ns' where "mp_nodes (top_page mc) = Branch ns'" "1 < length ns'" "mp_nodes p = Branch ns'"
      "children_ok txn h ns'"
    by (rule path_to_branchE[OF assms(1,2)])
  then have ns: "mp_nodes (top_page mc) = Branch ns" "1 < length ns"
    and ch: "\<exists>q. mdb_page_get txn (snd (ns ! i)) = Inr q \<and> wf_page txn h q \<and> below txn h (ns ! i) = entries txn h q"
    using assms(3,5) by simp_all
  then obtain q where q: "mdb_page_get txn (snd (ns ! i)) = Inr q" "below txn h (ns ! i) = entries txn h q" by blast
  let ?m = "set_ki i mc"
  have p: "path_to txn root H ?m s (Suc h) p b" "top_ki ?m = i" using assms(1) path_to_ki[OF assms(1)] by simp_all
  note e = enter_child[OF p(1) assms(3), unfolded p(2), OF assms(5) q(1)]
  have over: "set_ki i (set_ki j mc) = ?m" for j by (simp add: set_ki_def)
  have "mdb_page_search_root cmp txn flags mc = mdb_page_search_root cmp txn flags (pushed ?m q)"
    using ns q(1) assms(4,6) e(1)
    by (subst mdb_page_search_root.simps) (cases flags; auto simp: selected_def Let_def over)
  then show ?thesis using e(3) q by (intro exI[of _ "pushed ?m q"] exI[of _ q]) (simp add: child_of_def)
qed

context comparator
begin

text \<open>The child that is followed: its key is not above the one searched, the next one is.\<close>

lemma branch_follows:
  fixes ns :: "('k \<times> mdb_id) list"
  assumes "1 < length ns" and oks: "\<forall>i < length ns. 0 < i \<longrightarrow> ok (fst (ns ! i))"
    and srt: "\<forall>i < length ns - 1. 0 < i \<longrightarrow> rank (fst (ns ! i)) < rank (fst (ns ! Suc i))" and "ok key"
  shows "\<exists>i. followed (length ns) (mdb_node_search_branch cmp (map fst ns) key) = Some i \<and> i < length ns \<and>
    (\<forall>j. 0 < j \<and> j \<le> i \<longrightarrow> rank (fst (ns ! j)) \<le> rank key) \<and>
    (\<forall>j. i < j \<and> j < length ns \<longrightarrow> rank key < rank (fst (ns ! j)))"
proof -
  let ?ks = "map fst ns" and ?n = "length ns"
  have d: "drop 1 ?ks ! i = fst (ns ! Suc i)" if "Suc i < ?n" for i using that by simp
  have "\<forall>k \<in> set (drop 1 ?ks). ok k" using oks by (auto simp: in_set_conv_nth)
  moreover have "sorted_wrt (\<lambda>a b. rank a < rank b) (drop 1 ?ks)"
    using srt by (subst sorted_wrt_iff_nth_Suc_transp) (auto intro!: transpI)
  then have s: "sorted_wrt (\<lambda>a b. rank a < rank b) (drop 1 ?ks)" .
  moreover obtain i rc where loop: "node_search_loop cmp ?ks key 1 (int ?n - 1) 0 0 = (i, rc)" by fastforce
  ultimately have r: "(rc = 0 \<and> 1 \<le> i \<and> i < length ?ks \<and> rank (?ks ! i) = rank key) \<or>
    (rc \<noteq> 0 \<and> (let p = (if rc > 0 then i + 1 else i) in 1 \<le> p \<and> p \<le> length ?ks \<and>
       (\<forall>j < p. 1 \<le> j \<longrightarrow> rank (?ks ! j) < rank key) \<and>
       (\<forall>j < length ?ks. p \<le> j \<longrightarrow> rank key < rank (?ks ! j))))"
    by (intro node_search_loop_spec[where b = 1, OF _ assms(4) _ _ _ _ _ _ _ loop]) (use assms(1) in auto)
  have lt: "rank (fst (ns ! j)) < rank (fst (ns ! l))" if "0 < j" "j < l" "l < ?n" for j l
    using sorted_wrt_nth_less[OF s, of "j - 1" "l - 1"] that d[of "j - 1"] d[of "l - 1"] by simp
  define p where "p = (if rc > 0 then i + 1 else i)"
  have f: "followed ?n (mdb_node_search_branch cmp ?ks key) = followed ?n (p, rc = 0)"
    using assms(1) loop by (cases ns) (auto simp: mdb_node_search_branch_def p_def)
  consider (eq) "rc = 0" "1 \<le> i" "i < ?n" "rank (fst (ns ! i)) = rank key"
    | (ne) "rc \<noteq> 0" "1 \<le> p" "p \<le> ?n" "\<forall>j < p. 1 \<le> j \<longrightarrow> rank (fst (ns ! j)) < rank key"
        "\<forall>j < ?n. p \<le> j \<longrightarrow> rank key < rank (fst (ns ! j))"
    using r by (auto simp: Let_def p_def)
  then show ?thesis
  proof cases
    case eq
    then have "followed ?n (p, rc = 0) = Some i" by (simp add: followed_def p_def)
    moreover have "rank (fst (ns ! j)) \<le> rank key" if "0 < j" "j \<le> i" for j
      using lt[of j i] that eq by (cases "j = i") auto
    moreover have "rank key < rank (fst (ns ! j))" if "i < j" "j < ?n" for j using lt[of i j] that eq by simp
    ultimately show ?thesis unfolding f using eq(3) by blast
  next
    case ne
    then have "followed ?n (p, rc = 0) = Some (p - 1)" by (auto simp: followed_def)
    moreover have "rank (fst (ns ! j)) \<le> rank key" if "0 < j" "j \<le> p - 1" for j
      using ne(2,4) that by (auto intro!: less_imp_le)
    moreover have "rank key < rank (fst (ns ! j))" if "p - 1 < j" "j < ?n" for j using ne(5) that by simp
    ultimately show ?thesis unfolding f using ne(2,3) by (intro exI[of _ "p - 1"]) auto
  qed
qed

lemma separated_keys:
  assumes "separated rank ok txn (Suc h) p" "wf_page txn (Suc h) p" "mp_nodes p = Branch ns"
  shows "\<forall>i < length ns. 0 < i \<longrightarrow> ok (fst (ns ! i))"
    "\<forall>i < length ns - 1. 0 < i \<longrightarrow> rank (fst (ns ! i)) < rank (fst (ns ! Suc i))"
proof -
  have s: "ok (fst (ns ! i)) \<and> (\<forall>x \<in> set (below txn h (ns ! (i - 1))). rank (fst x) < rank (fst (ns ! i))) \<and>
      (\<forall>x \<in> set (below txn h (ns ! i)). rank (fst (ns ! i)) \<le> rank (fst x))" if "i < length ns" "0 < i" for i
    using assms(1,3) that by simp
  then show "\<forall>i < length ns. 0 < i \<longrightarrow> ok (fst (ns ! i))" by blast
  have "rank (fst (ns ! i)) < rank (fst (ns ! Suc i))" if i: "i < length ns - 1" "0 < i" for i
  proof -
    have l: "i < length ns" "Suc i < length ns" using i by linarith+
    have "below txn h (ns ! i) \<noteq> []"
    proof (rule wf_branchE[OF assms(2)])
      fix ns' assume "mp_nodes p = Branch ns'" and c: "children_ok txn h ns'"
      then have "ns' = ns" using assms(3) by simp
      then show ?thesis using c l(1) wf_entries by metis
    qed
    then obtain x where "x \<in> set (below txn h (ns ! i))" by (cases "below txn h (ns ! i)") auto
    then have "rank (fst (ns ! i)) \<le> rank (fst x)" "rank (fst x) < rank (fst (ns ! Suc i))"
      using s[of i] s[of "Suc i"] l i(2) by simp_all
    then show ?thesis by (rule order.strict_trans1)
  qed
  then show "\<forall>i < length ns - 1. 0 < i \<longrightarrow> rank (fst (ns ! i)) < rank (fst (ns ! Suc i))" by blast
qed

end

context comparator
begin

lemma child_lands:
  fixes p :: "('k, 'd) MDB_page"
  assumes sep: "separated rank ok txn (Suc h) p" and wf: "wf_page txn (Suc h) p" and ns: "mp_nodes p = Branch ns"
    and key: "\<forall>key. flags = PS_KEY key \<longrightarrow> ok key"
  shows "\<exists>i. selected cmp flags ns = Some i \<and> i < length ns \<and>
    lands rank flags b (entries txn (Suc h) p) (b + entries_before txn h i ns) (below txn h (ns ! i))"
proof -
  have n: "1 < length ns" using wf ns by (auto simp: wf_page.simps)
  have piece: "entries txn (Suc h) p = concat (map (below txn h) (take i ns)) @ below txn h (ns ! i) @
      concat (map (below txn h) (drop (Suc i) ns))" if "i < length ns" for i
    unfolding entries_branch[OF ns] by (rule concat_split[OF that])
  show ?thesis
  proof (cases flags)
    case (PS_KEY key)
    then obtain i where i: "followed (length ns) (mdb_node_search_branch cmp (map fst ns) key) = Some i" "i < length ns"
        and below: "\<forall>j. 0 < j \<and> j \<le> i \<longrightarrow> rank (fst (ns ! j)) \<le> rank key"
        and above: "\<forall>j. i < j \<and> j < length ns \<longrightarrow> rank key < rank (fst (ns ! j))"
      using branch_follows[OF n separated_keys[OF sep wf ns]] key by blast
    have sep': "(\<forall>x \<in> set (below txn h (ns ! (j - 1))). rank (fst x) < rank (fst (ns ! j))) \<and>
        (\<forall>x \<in> set (below txn h (ns ! j)). rank (fst (ns ! j)) \<le> rank (fst x))" if "j < length ns" "0 < j" for j
      using sep ns that by simp
    have "rank (fst x) < rank key" if x: "x \<in> set (concat (map (below txn h) (take i ns)))" for x
    proof -
      obtain j where j: "j < i" "x \<in> set (below txn h (ns ! j))"
        using x i(2) by (auto simp: in_set_conv_nth[of _ "take i ns"])
      then have "rank (fst x) < rank (fst (ns ! Suc j))" using sep'[of "Suc j"] i(2) by simp
      moreover have "rank (fst (ns ! Suc j)) \<le> rank key" using below j by simp
      ultimately show ?thesis by (rule order.strict_trans2)
    qed
    moreover have "rank key < rank (fst x)" if x: "x \<in> set (concat (map (below txn h) (drop (Suc i) ns)))" for x
    proof -
      obtain n where n: "n \<in> set (drop (Suc i) ns)" "x \<in> set (below txn h n)" using x by auto
      then obtain l where "l < length ns - Suc i" "n = ns ! (Suc i + l)" by (auto simp: in_set_conv_nth)
      then obtain j where j: "i < j" "j < length ns" "x \<in> set (below txn h (ns ! j))"
        using n(2) that[of "Suc i + l"] by simp
      then have "rank (fst (ns ! j)) \<le> rank (fst x)" using sep'[of j] by simp
      then show ?thesis using above j by (meson order.strict_trans2)
    qed
    ultimately have "lands rank flags b (entries txn (Suc h) p) (b + entries_before txn h i ns) (below txn h (ns ! i))"
      unfolding lands_def using piece[OF i(2)] PS_KEY
      by (intro exI[of _ "concat (map (below txn h) (take i ns))"] exI[of _ "concat (map (below txn h) (drop (Suc i) ns))"])
        simp
    then show ?thesis using i PS_KEY by (auto simp: selected_def)
  next
    case PS_FIRST
    have "0 < length ns" using n by linarith
    then show ?thesis using piece[of 0] PS_FIRST by (auto simp: selected_def lands_def)
  next
    case PS_LAST
    have l: "length ns - 1 < length ns" using n by linarith
    then have "lands rank flags b (entries txn (Suc h) p) (b + entries_before txn h (length ns - 1) ns)
        (below txn h (ns ! (length ns - 1)))"
      unfolding lands_def using piece[OF l] PS_LAST
      by (intro exI[of _ "concat (map (below txn h) (take (length ns - 1) ns))"] exI[of _ "[]"]) simp
    then show ?thesis using PS_LAST l by (auto simp: selected_def)
  qed
qed

lemma search_root_lands:
  assumes "path_to txn root H mc s h p b" "wf_page txn H root" "separated rank ok txn h p"
    "\<forall>key. flags = PS_KEY key \<longrightarrow> ok key" "\<not> C_INITIALIZED mc \<or> flags \<noteq> PS_LAST"
  shows "\<exists>mc' q b'. mdb_page_search_root cmp txn flags mc = Some (0, mc'\<lparr>C_INITIALIZED := True, C_EOF := False\<rparr>) \<and>
    same_flags mc mc' \<and> path_to txn root H mc' H 0 q b' \<and> lands rank flags b (entries txn h p) b' (entries txn 0 q)"
  using assms
proof (induction h arbitrary: mc s p b)
  case 0
  have "wf_page txn 0 p" using 0 by (auto simp: path_to_def intro: on_path_wf)
  then obtain es where "mp_nodes p = Leaf es" by (auto simp: wf_leaf)
  then have "mdb_page_search_root cmp txn flags mc = Some (0, mc\<lparr>C_INITIALIZED := True, C_EOF := False\<rparr>)"
    using path_to_top(1)[OF "0.prems"(1)] by (subst mdb_page_search_root.simps) simp
  moreover have "s = H" using path_to_top(4)[OF "0.prems"(1)] by simp
  ultimately show ?case using "0.prems"(1) lands_refl by (metis same_flags_simps(1))
next
  case (Suc h)
  have wf: "wf_page txn (Suc h) p" using Suc.prems(1,2) by (auto simp: path_to_def intro: on_path_wf)
  obtain ns where ns: "mp_nodes p = Branch ns" by (rule wf_branchE[OF wf])
  obtain i where i: "selected cmp flags ns = Some i" "i < length ns"
      "lands rank flags b (entries txn (Suc h) p) (b + entries_before txn h i ns) (below txn h (ns ! i))"
    using child_lands[OF Suc.prems(3) wf ns Suc.prems(4)] by blast
  obtain mc1 q where d: "mdb_page_search_root cmp txn flags mc = mdb_page_search_root cmp txn flags mc1" "same_flags mc mc1"
      "path_to txn root H mc1 (Suc s) h q (b + entries_before txn h i ns)"
      "below txn h (ns ! i) = entries txn h q" "child_of txn (ns ! i) = Some q"
    using search_root_down[OF Suc.prems(1,2) ns i(1,2) Suc.prems(5)] by blast
  have sep: "separated rank ok txn h q" using Suc.prems(3) ns nth_mem[OF i(2)] d(5) by fastforce
  have init: "\<not> C_INITIALIZED mc1 \<or> flags \<noteq> PS_LAST" using Suc.prems(5) d(2) by (auto simp: same_flags_def)
  obtain mc' q' b' where r: "mdb_page_search_root cmp txn flags mc1 = Some (0, mc'\<lparr>C_INITIALIZED := True, C_EOF := False\<rparr>)"
      "same_flags mc1 mc'" "path_to txn root H mc' H 0 q' b'"
      "lands rank flags (b + entries_before txn h i ns) (entries txn h q) b' (entries txn 0 q')"
    using Suc.IH[OF d(3) Suc.prems(2) sep Suc.prems(4) init] by blast
  have "lands rank flags b (entries txn (Suc h) p) b' (entries txn 0 q')"
    using lands_trans[OF i(3)[unfolded d(4)] r(4)] .
  then show ?case using d(1) r(1,3) same_flags_trans[OF d(2) r(2)] by metis
qed

end

subsection \<open>The operations on the flat list\<close>

text \<open>The tree of a transaction, and a cursor that is on the entry \<open>i\<close>, or behind the last one.\<close>

definition tree_ok ::
  "('k \<Rightarrow> 'r::linorder) \<Rightarrow> ('k \<Rightarrow> bool) \<Rightarrow> ('k, 'd) page_txn \<Rightarrow> ('k, 'd) MDB_page \<Rightarrow> nat \<Rightarrow> bool" where
  "tree_ok rank ok txn root H \<longleftrightarrow> wf_page txn H root \<and> separated rank ok txn H root \<and> H < CURSOR_STACK \<and>
     (\<forall>x \<in> set (entries txn H root). ok (fst x)) \<and>
     sorted_wrt (\<lambda>x y. rank (fst x) < rank (fst y)) (entries txn H root) \<and>
     mdb_page_get txn (md_root txn) = Inr root \<and> md_root txn \<noteq> P_INVALID \<and> 1 < md_root txn"

definition cursor_idle :: "('k, 'd) MDB_page \<Rightarrow> ('k, 'd) MDB_cursor \<Rightarrow> bool" where
  "cursor_idle root mc \<longleftrightarrow> length (mc_pg mc) = CURSOR_STACK \<and> length (mc_ki mc) = CURSOR_STACK \<and>
     (mc_pg mc ! 0 = None \<or> mc_pg mc ! 0 = Some root) \<and> \<not> C_DEL mc \<and> \<not> mc_error mc"

definition cursor_at :: "('k, 'd) page_txn \<Rightarrow> ('k, 'd) MDB_page \<Rightarrow> nat \<Rightarrow> ('k, 'd) MDB_cursor \<Rightarrow> nat \<Rightarrow> bool" where
  "cursor_at txn root H mc i \<longleftrightarrow> C_INITIALIZED mc \<and> \<not> C_DEL mc \<and> \<not> mc_error mc \<and>
     (\<exists>p b. path_to txn root H mc H 0 p b \<and> i = b + top_ki mc \<and>
        (top_ki mc < length (entries txn 0 p) \<or>
          top_ki mc = length (entries txn 0 p) \<and> i = length (entries txn H root)) \<and>
        (C_EOF mc \<longrightarrow> b + length (entries txn 0 p) = length (entries txn H root)))"

text \<open>What an operation returns that ends on the entry \<open>i\<close>: the item, or the error of reading it.\<close>

definition found_at ::
  "('d \<Rightarrow> int + bytes) \<Rightarrow> ('k, 'd) page_txn \<Rightarrow> ('k, 'd) MDB_page \<Rightarrow> nat \<Rightarrow> nat \<Rightarrow> ('k, 'd) cursor_result \<Rightarrow> bool" where
  "found_at node_read txn root H i r \<longleftrightarrow> (\<exists>mc. cursor_at txn root H mc i \<and>
     r = (let e = entries txn H root ! i in
          case node_read (snd e) of Inl rc \<Rightarrow> Some (Inl rc, mc) | Inr d \<Rightarrow> Some (Inr (fst e, d), mc)))"

definition not_found :: "('k, 'd) cursor_result \<Rightarrow> bool" where
  "not_found r \<longleftrightarrow> (\<exists>mc. r = Some (Inl MDB_NOTFOUND, mc))"

lemma top_simps [simp]:
  "top_page (mc\<lparr>C_INITIALIZED := x\<rparr>) = top_page mc" "top_page (mc\<lparr>C_EOF := x\<rparr>) = top_page mc"
  "top_page (mc\<lparr>C_DEL := x\<rparr>) = top_page mc" "top_ki (mc\<lparr>C_INITIALIZED := x\<rparr>) = top_ki mc"
  "top_ki (mc\<lparr>C_EOF := x\<rparr>) = top_ki mc" "top_ki (mc\<lparr>C_DEL := x\<rparr>) = top_ki mc"
  by (simp_all add: top_page_def top_ki_def)

lemma set_ki_simps [simp]:
  "C_INITIALIZED (set_ki i mc) = C_INITIALIZED mc" "C_EOF (set_ki i mc) = C_EOF mc" "C_DEL (set_ki i mc) = C_DEL mc"
  "mc_error (set_ki i mc) = mc_error mc" "mc_top (set_ki i mc) = mc_top mc" "mc_pg (set_ki i mc) = mc_pg mc"
  "length (mc_ki (set_ki i mc)) = length (mc_ki mc)"
  by (simp_all add: set_ki_def)

lemma path_to_leaf:
  assumes "path_to txn root H mc H 0 p b" "wf_page txn H root"
  obtains es A B where "mp_nodes (top_page mc) = Leaf es" "mp_nodes p = Leaf es" "entries txn 0 p = es" "es \<noteq> []"
    "entries txn H root = A @ es @ B" "length A = b"
proof -
  have "wf_page txn 0 p" using assms by (auto simp: path_to_def intro: on_path_wf)
  then obtain es where es: "mp_nodes p = Leaf es" "es \<noteq> []" "entries txn 0 p = es" by (auto simp: wf_leaf)
  obtain A B where "entries txn H root = A @ entries txn 0 p @ B" "length A = b" by (rule path_to_piece[OF assms(1)])
  then show thesis using es path_to_top(1)[OF assms(1)] that by simp
qed

lemma read_entry_found:
  assumes "path_to txn root H mc H 0 p b" "wf_page txn H root" "top_ki mc < length (entries txn 0 p)" "i = b + top_ki mc"
    "C_INITIALIZED mc" "\<not> C_DEL mc" "\<not> mc_error mc" "C_EOF mc \<Longrightarrow> b + length (entries txn 0 p) = length (entries txn H root)"
  shows "found_at node_read txn root H i (read_entry node_read mc)"
proof -
  obtain es A B where es: "mp_nodes (top_page mc) = Leaf es" "entries txn 0 p = es"
      "entries txn H root = A @ es @ B" "length A = b"
    by (rule path_to_leaf[OF assms(1,2)])
  have "entries txn H root ! i = es ! top_ki mc" using es assms(3,4) by (simp add: nth_append)
  moreover have "cursor_at txn root H mc i" using assms unfolding cursor_at_def by blast
  ultimately show ?thesis
    unfolding found_at_def read_entry_def using es(1,2) assms(3)
    by (intro exI[of _ mc]) (simp add: Let_def split: sum.split)
qed

text \<open>The step to the right of a leaf, as \<open>mdb_cursor_next\<close> and \<open>mdb_cursor_set\<close> do it.\<close>

lemma right_leaf:
  assumes p: "path_to txn root H mc H 0 p b" "wf_page txn H root" "\<not> C_DEL mc" "\<not> mc_error mc"
  shows "if b + length (entries txn 0 p) = length (entries txn H root)
    then mdb_cursor_sibling txn True mc = Some (MDB_NOTFOUND, mc)
    else \<exists>mc' q. mdb_cursor_sibling txn True mc = Some (0, mc') \<and> same_flags mc mc' \<and>
      path_to txn root H mc' H 0 q (b + length (entries txn 0 p)) \<and> top_ki mc' = 0 \<and> entries txn 0 q \<noteq> []"
proof -
  have "wf_page txn 0 q" if "path_to txn root H mc' H 0 q b'" for mc' q b'
    using that p(2) by (auto simp: path_to_def intro: on_path_wf)
  then show ?thesis
    using sibling_step[OF p(1,2), of True] wf_entries by (auto simp: at_edge_def neighbour_def split: if_splits) blast
qed

lemma next_at:
  assumes c: "cursor_at txn root H mc i" and wf: "wf_page txn H root"
  shows "if Suc i < length (entries txn H root) then found_at node_read txn root H (Suc i) (mdb_cursor_next cmp txn node_read mc)
    else not_found (mdb_cursor_next cmp txn node_read mc)"
proof -
  let ?N = "length (entries txn H root)"
  obtain p b where p: "path_to txn root H mc H 0 p b" "i = b + top_ki mc"
      "top_ki mc < length (entries txn 0 p) \<or> top_ki mc = length (entries txn 0 p) \<and> i = ?N"
      "C_EOF mc \<longrightarrow> b + length (entries txn 0 p) = ?N"
    and f: "C_INITIALIZED mc" "\<not> C_DEL mc" "\<not> mc_error mc"
    using c unfolding cursor_at_def by blast
  obtain es A B where es: "mp_nodes (top_page mc) = Leaf es" "entries txn 0 p = es" "es \<noteq> []"
      "entries txn H root = A @ es @ B" "length A = b"
    by (rule path_to_leaf[OF p(1) wf])
  have N: "b + length es \<le> ?N" using es by simp
  let ?m = "mc\<lparr>C_EOF := False\<rparr>"
  show ?thesis
  proof (cases "Suc (top_ki mc) < length es")
    case True
    then have nx: "mdb_cursor_next cmp txn node_read mc = read_entry node_read (set_ki (Suc (top_ki mc)) ?m)"
      using f es(1) by (auto simp: mdb_cursor_next_def Let_def)
    have "found_at node_read txn root H (Suc i) (read_entry node_read (set_ki (Suc (top_ki mc)) ?m))"
      using p(1) wf True path_to_ki[OF p(1)] f
      by (intro read_entry_found[of _ _ _ _ p b]) (simp_all add: es(2) p(2))
    then show ?thesis using nx True N p(2) by simp
  next
    case False
    have pm: "path_to txn root H ?m H 0 p b" "\<not> C_DEL ?m" "\<not> mc_error ?m" using p(1) f by simp_all
    note r = right_leaf[OF pm(1) wf pm(2,3), unfolded es(2)]
    show ?thesis
    proof (cases "b + length es = ?N")
      case True
      then have "not_found (mdb_cursor_next cmp txn node_read mc)"
        using False f es(1) r by (auto simp: mdb_cursor_next_def Let_def not_found_def)
      then show ?thesis using True False p(2,3) es(2) by auto
    next
      case e: False
      then obtain mc' q where m: "mdb_cursor_sibling txn True ?m = Some (0, mc')" "same_flags ?m mc'"
          "path_to txn root H mc' H 0 q (b + length es)" "top_ki mc' = 0" "entries txn 0 q \<noteq> []"
        using r by auto
      have nx: "mdb_cursor_next cmp txn node_read mc = read_entry node_read mc'"
        using False e p(3,4) f es(1,2) m(1) by (auto simp: mdb_cursor_next_def Let_def)
      have i: "Suc i = b + length es" using False p(2,3) es(2) e N by auto
      have "found_at node_read txn root H (Suc i) (read_entry node_read mc')"
        using m f i by (intro read_entry_found[OF m(3) wf]) (auto simp: same_flags_def)
      then show ?thesis using nx i e N by simp
    qed
  qed
qed

lemma prev_from:
  assumes p: "path_to txn root H mc H 0 p b" "wf_page txn H root" "C_INITIALIZED mc" "\<not> mc_error mc"
    "top_ki mc \<le> length (entries txn 0 p)" "i = b + top_ki mc"
  shows "if i = 0 then not_found (mdb_cursor_prev cmp txn node_read mc)
    else found_at node_read txn root H (i - 1) (mdb_cursor_prev cmp txn node_read mc)"
proof -
  let ?m = "mc\<lparr>C_EOF := False, C_DEL := False\<rparr>"
  have pm: "path_to txn root H ?m H 0 p b" using p(1) by (simp add: path_to_def)
  have ki: "top_ki ?m = top_ki mc" by simp
  show ?thesis
  proof (cases "top_ki mc = 0")
    case False
    have "found_at node_read txn root H (i - 1) (read_entry node_read (set_ki (top_ki mc - 1) ?m))"
      using pm p False path_to_ki[OF p(1)]
      by (intro read_entry_found[of _ _ _ _ p b]) auto
    then show ?thesis using False p(3,6) by (simp add: mdb_cursor_prev_def Let_def ki)
  next
    case True
    note st = sibling_step[OF pm p(2), of False]
    show ?thesis
    proof (cases "b = 0")
      case b: True
      then have "mdb_cursor_sibling txn False ?m = Some (MDB_NOTFOUND, ?m)" using st by (simp add: at_edge_def)
      then show ?thesis using True b p(3,6) by (simp add: mdb_cursor_prev_def Let_def ki not_found_def)
    next
      case b: False
      then obtain mc' q b' where m: "mdb_cursor_sibling txn False ?m = Some (0, mc')" "same_flags ?m mc'"
          "path_to txn root H mc' H 0 q b'" "b' + length (entries txn 0 q) = b"
        using st by (auto simp: at_edge_def neighbour_def)
      obtain es where q: "mp_nodes (top_page mc') = Leaf es" "entries txn 0 q = es" "es \<noteq> []"
        by (rule path_to_leaf[OF m(3) p(2)])
      have "found_at node_read txn root H (i - 1) (read_entry node_read (set_ki (length es - 1) mc'))"
        using m q p(2,3,4,6) True path_to_ki[OF m(3)] by (intro read_entry_found[of _ _ _ _ q b'])
          (auto simp: same_flags_def Suc_leI)
      then show ?thesis using True b p(3,6) m(1) q(1) by (simp add: mdb_cursor_prev_def Let_def ki)
    qed
  qed
qed

lemma prev_at:
  assumes "cursor_at txn root H mc i" and "wf_page txn H root"
  shows "if i = 0 then not_found (mdb_cursor_prev cmp txn node_read mc)
    else found_at node_read txn root H (i - 1) (mdb_cursor_prev cmp txn node_read mc)"
proof -
  obtain p b where "path_to txn root H mc H 0 p b" "i = b + top_ki mc" "top_ki mc \<le> length (entries txn 0 p)"
      "C_INITIALIZED mc" "\<not> mc_error mc"
    using assms(1) unfolding cursor_at_def by auto
  then show ?thesis using assms(2) by (intro prev_from) auto
qed

context comparator
begin

lemma page_search_lands:
  assumes t: "tree_ok rank ok txn root H" and c: "cursor_idle root mc"
    and key: "\<forall>key. flags = PS_KEY key \<longrightarrow> ok key" and "\<not> C_INITIALIZED mc \<or> flags \<noteq> PS_LAST"
  shows "\<exists>mc' q b'. mdb_page_search cmp txn flags mc = Some (0, mc') \<and> C_INITIALIZED mc' \<and> \<not> C_EOF mc' \<and> \<not> C_DEL mc' \<and>
    \<not> mc_error mc' \<and> path_to txn root H mc' H 0 q b' \<and>
    lands rank flags 0 (entries txn H root) b' (entries txn 0 q)"
proof -
  let ?m = "mc\<lparr>mc_pg := (mc_pg mc)[0 := Some root], mc_snum := 1, mc_top := 0\<rparr>"
  have "(case mc_pg mc ! 0 of Some p \<Rightarrow> if mp_pgno p \<noteq> md_root txn then mdb_page_get txn (md_root txn) else Inr p
      | None \<Rightarrow> mdb_page_get txn (md_root txn)) = Inr root"
    using t c by (auto simp: tree_ok_def cursor_idle_def)
  then have s: "mdb_page_search cmp txn flags mc = mdb_page_search_root cmp txn flags ?m"
    using t c by (simp add: mdb_page_search_def tree_ok_def cursor_idle_def)
  have "path_to txn root H ?m 0 H root 0"
    using t c by (auto simp: path_to_def tree_ok_def cursor_idle_def CURSOR_STACK_def intro!: on_path.Root)
  from search_root_lands[OF this _ _ key] t assms(4) obtain mc' q b' where
    r: "mdb_page_search_root cmp txn flags ?m = Some (0, mc'\<lparr>C_INITIALIZED := True, C_EOF := False\<rparr>)" "same_flags ?m mc'"
      "path_to txn root H mc' H 0 q b'" "lands rank flags 0 (entries txn H root) b' (entries txn 0 q)"
    by (auto simp: tree_ok_def)
  then show ?thesis using s c
    by (intro exI[of _ "mc'\<lparr>C_INITIALIZED := True, C_EOF := False\<rparr>"] exI[of _ q] exI[of _ b'])
      (auto simp: same_flags_def cursor_idle_def path_to_def)
qed

lemma first_idle:
  assumes t: "tree_ok rank ok txn root H" and c: "cursor_idle root mc" and "\<not> C_INITIALIZED mc"
  shows "found_at node_read txn root H 0 (mdb_cursor_first cmp txn node_read mc)"
proof -
  have wf: "wf_page txn H root" using t by (simp add: tree_ok_def)
  obtain mc' q b' where s: "mdb_page_search cmp txn PS_FIRST mc = Some (0, mc')" "C_INITIALIZED mc'" "\<not> C_EOF mc'"
      "\<not> C_DEL mc'" "\<not> mc_error mc'" "path_to txn root H mc' H 0 q b'"
      "lands rank PS_FIRST 0 (entries txn H root) b' (entries txn 0 q)"
    using page_search_lands[OF t c, of PS_FIRST] by auto
  have "b' = 0" "0 < length (entries txn 0 q)"
    using s(7) path_to_leaf[OF s(6) wf] by (auto simp: lands_def)
  then have "found_at node_read txn root H 0 (read_entry node_read (set_ki 0 (mc'\<lparr>C_INITIALIZED := True, C_EOF := False\<rparr>)))"
    using s path_to_ki[OF s(6)] wf by (intro read_entry_found[of _ _ _ _ q b']) auto
  then show ?thesis using s(1) assms(3) by (simp add: mdb_cursor_first_def)
qed

end

context comparator
begin

lemma prev_idle:
  assumes t: "tree_ok rank ok txn root H" and c: "cursor_idle root mc" and init: "\<not> C_INITIALIZED mc"
  shows "found_at node_read txn root H (length (entries txn H root) - 1) (mdb_cursor_prev cmp txn node_read mc)"
proof -
  let ?N = "length (entries txn H root)"
  have wf: "wf_page txn H root" using t by (simp add: tree_ok_def)
  obtain mc' q b' where s: "mdb_page_search cmp txn PS_LAST mc = Some (0, mc')" "C_INITIALIZED mc'" "\<not> C_EOF mc'"
      "\<not> C_DEL mc'" "\<not> mc_error mc'" "path_to txn root H mc' H 0 q b'"
      "lands rank PS_LAST 0 (entries txn H root) b' (entries txn 0 q)"
    using page_search_lands[OF t c, of PS_LAST] init by auto
  obtain es where es: "mp_nodes (top_page mc') = Leaf es" "entries txn 0 q = es" "es \<noteq> []"
    by (rule path_to_leaf[OF s(6) wf])
  have N: "b' + length es = ?N" using s(7) es(2) by (auto simp: lands_def)
  let ?m = "set_ki (length es - 1) (mc'\<lparr>C_INITIALIZED := True, C_EOF := True\<rparr>)"
  have last: "mdb_cursor_last cmp txn node_read mc = read_entry node_read ?m"
    using s(1) init es(1) by (simp add: mdb_cursor_last_def)
  have ki: "top_ki ?m = length es - 1" using path_to_ki[OF s(6)] by simp
  have rd: "read_entry node_read ?m = (case node_read (snd (es ! (length es - 1))) of
      Inl rc \<Rightarrow> Some (Inl rc, ?m) | Inr d \<Rightarrow> Some (Inr (fst (es ! (length es - 1)), d), ?m))"
    unfolding read_entry_def ki using es(1,3) by simp
  show ?thesis
  proof (cases "node_read (snd (es ! (length es - 1)))")
    case (Inl rc)
    have "found_at node_read txn root H (?N - 1) (read_entry node_read ?m)"
      using s wf ki es(2,3) N by (intro read_entry_found[of _ _ _ _ q b']) (auto simp: Suc_leI)
    moreover have "mdb_cursor_prev cmp txn node_read mc = read_entry node_read ?m"
      using Inl init last rd by (simp add: mdb_cursor_prev_def)
    ultimately show ?thesis by simp
  next
    case (Inr d)
    let ?n = "set_ki (length es) ?m"
    have "mdb_cursor_prev cmp txn node_read mc = mdb_cursor_prev cmp txn node_read ?n"
      using Inr init last rd ki es(3) by (simp add: mdb_cursor_prev_def)
    moreover have "if b' + length es = 0 then not_found (mdb_cursor_prev cmp txn node_read ?n)
        else found_at node_read txn root H (b' + length es - 1) (mdb_cursor_prev cmp txn node_read ?n)"
      using s es(2) wf path_to_ki[OF s(6)] by (intro prev_from[of _ _ _ _ q b']) auto
    moreover have "b' + length es \<noteq> 0" using es(3) by simp
    ultimately show ?thesis unfolding N by presburger
  qed
qed

text \<open>The search of a leaf, once the cursor is on the one where the key belongs.\<close>

lemma set2_lands:
  assumes t: "tree_ok rank ok txn root H" and p: "path_to txn root H mc H 0 p b"
    and f: "C_INITIALIZED mc" "\<not> C_EOF mc" "\<not> C_DEL mc" "\<not> mc_error mc"
    and l: "lands rank (PS_KEY key) 0 (entries txn H root) b (entries txn 0 p)" and key: "ok key"
  shows "if lower_bound rank (entries txn H root) key < length (entries txn H root) \<and>
      (exactp \<longrightarrow> (\<exists>x \<in> set (entries txn H root). rank (fst x) = rank key))
    then found_at node_read txn root H (lower_bound rank (entries txn H root) key) (set2 cmp txn node_read exactp key mc)
    else not_found (set2 cmp txn node_read exactp key mc)"
proof -
  let ?E = "entries txn H root" and ?N = "length (entries txn H root)"
  have wf: "wf_page txn H root" using t by (simp add: tree_ok_def)
  obtain es A B where es: "mp_nodes (top_page mc) = Leaf es" "entries txn 0 p = es" "es \<noteq> []" "?E = A @ es @ B" "length A = b"
    by (rule path_to_leaf[OF p wf])
  define i where "i = lower_bound rank es key"
  have lb: "lower_bound rank ?E key = b + i" using lands_key[OF l] es(2) by (simp add: i_def)
  have srt: "sorted_tree rank ok es" using t es(4) by (auto simp: sorted_tree_def tree_ok_def sorted_wrt_append sorted_wrt_map)
  have ex: "(\<exists>x \<in> set es. rank (fst x) = rank key) \<longleftrightarrow> (\<exists>x \<in> set ?E. rank (fst x) = rank key)"
    using l unfolding lands_def search.case es(2)
    by (metis (no_types, lifting) UnE UnI1 UnI2 order_less_irrefl set_append)
  have pm: "path_to txn root H (set_ki i mc) H 0 p b" "top_ki (set_ki i mc) = i"
    "\<not> C_DEL (set_ki i mc)" "\<not> mc_error (set_ki i mc)"
    using p f path_to_ki[OF p] by simp_all
  define present where "present \<longleftrightarrow> (\<exists>x \<in> set ?E. rank (fst x) = rank key)"
  note ns = node_search_spec[OF srt key, folded i_def, unfolded ex, folded present_def]
  have i: "i \<le> length es" unfolding i_def by (rule lower_bound_le)
  show ?thesis
  proof (cases "exactp \<longrightarrow> present")
    case False
    then show ?thesis using es(1) ns by (auto simp: set2_def not_found_def present_def)
  next
    case x: True
    show ?thesis
    proof (cases "i < length es")
      case True
      then have "found_at node_read txn root H (b + i) (set1 node_read (set_ki i mc))"
        unfolding set1_def using pm f wf es(2)
        by (intro read_entry_found[of _ _ _ _ p b]) auto
      moreover have "set2 cmp txn node_read exactp key mc = set1 node_read (set_ki i mc)"
        using es(1) ns x True by (auto simp: set2_def Let_def)
      moreover have "b + i < ?N" using True es(4,5) by simp
      ultimately show ?thesis using x[unfolded present_def] lb by simp
    next
      case False
      then have i: "i = length es" using i by simp
      note r = right_leaf[OF pm(1) wf pm(3,4), unfolded es(2)]
      show ?thesis
      proof (cases "b + length es = ?N")
        case True
        then show ?thesis using r es(1) ns x i lb by (auto simp: set2_def not_found_def Let_def)
      next
        case e: False
        then obtain mc' q where m: "mdb_cursor_sibling txn True (set_ki i mc) = Some (0, mc')" "same_flags mc mc'"
            "path_to txn root H mc' H 0 q (b + length es)" "top_ki mc' = 0" "entries txn 0 q \<noteq> []"
          using r by auto
        have "found_at node_read txn root H (b + i) (set1 node_read mc')"
          unfolding set1_def using m f wf i by (intro read_entry_found[of _ _ _ _ q "b + length es"]) (auto simp: same_flags_def)
        moreover have "set2 cmp txn node_read exactp key mc = set1 node_read mc'"
          using es(1) ns x i m(1) by (auto simp: set2_def Let_def)
        moreover have "b + i < ?N" using e i es(4,5) by simp
        ultimately show ?thesis using x[unfolded present_def] lb by simp
      qed
    qed
  qed
qed

lemma set_from_root:
  assumes t: "tree_ok rank ok txn root H" and c: "cursor_idle root mc" and key: "ok key"
  shows "\<exists>mc'. mdb_page_search cmp txn (PS_KEY key) mc = Some (0, mc') \<and>
    (if lower_bound rank (entries txn H root) key < length (entries txn H root) \<and>
      (exactp \<longrightarrow> (\<exists>x \<in> set (entries txn H root). rank (fst x) = rank key))
    then found_at node_read txn root H (lower_bound rank (entries txn H root) key) (set2 cmp txn node_read exactp key mc')
    else not_found (set2 cmp txn node_read exactp key mc'))"
proof -
  obtain mc' q b' where s: "mdb_page_search cmp txn (PS_KEY key) mc = Some (0, mc')" "C_INITIALIZED mc'" "\<not> C_EOF mc'"
      "\<not> C_DEL mc'" "\<not> mc_error mc'" "path_to txn root H mc' H 0 q b'"
      "lands rank (PS_KEY key) 0 (entries txn H root) b' (entries txn 0 q)"
    using page_search_lands[OF t c, of "PS_KEY key"] key by auto
  show ?thesis using s(1) set2_lands[OF t s(6,2-5,7) key, of exactp node_read] by blast
qed

lemma set_idle:
  assumes t: "tree_ok rank ok txn root H" and c: "cursor_idle root mc" "\<not> C_INITIALIZED mc" and key: "ok key"
  shows "if lower_bound rank (entries txn H root) key < length (entries txn H root) \<and>
      (exactp \<longrightarrow> (\<exists>x \<in> set (entries txn H root). rank (fst x) = rank key))
    then found_at node_read txn root H (lower_bound rank (entries txn H root) key)
      (mdb_cursor_set cmp txn node_read exactp key mc)
    else not_found (mdb_cursor_set cmp txn node_read exactp key mc)"
proof -
  have "cursor_idle root (mc\<lparr>mc_pg := (mc_pg mc)[0 := None]\<rparr>)"
    using c(1) by (auto simp: cursor_idle_def CURSOR_STACK_def)
  from set_from_root[OF t this key, of exactp node_read] obtain mc' where
    s: "mdb_page_search cmp txn (PS_KEY key) (mc\<lparr>mc_pg := (mc_pg mc)[0 := None]\<rparr>) = Some (0, mc')"
    and r: "if lower_bound rank (entries txn H root) key < length (entries txn H root) \<and>
        (exactp \<longrightarrow> (\<exists>x \<in> set (entries txn H root). rank (fst x) = rank key))
      then found_at node_read txn root H (lower_bound rank (entries txn H root) key) (set2 cmp txn node_read exactp key mc')
      else not_found (set2 cmp txn node_read exactp key mc')"
    by blast
  have "mdb_cursor_set cmp txn node_read exactp key mc = set2 cmp txn node_read exactp key mc'"
    using c(2) s by (simp add: mdb_cursor_set_def)
  then show ?thesis using r by simp
qed

end

lemma on_path_root: "on_path txn pg ki root H s h p b \<Longrightarrow> pg ! 0 = Some root"
  by (induction rule: on_path.induct) simp_all

lemma no_right_edge:
  assumes "on_path txn pg ki root H s h p b" "wf_page txn H root"
    and "\<forall>l < s. \<not> ki ! l < node_count (mp_nodes (the (pg ! l))) - 1"
  shows "b + length (entries txn h p) = length (entries txn H root)"
  using assms
proof (induction rule: on_path.induct)
  case Root
  show ?case by simp
next
  case (Down s h p b ns q)
  have "pg ! s = Some p" using on_path_page[OF Down.hyps(1)] by simp
  then have "Suc (ki ! s) = length ns" using Down.prems(2)[rule_format, of s] Down.hyps(2,3) by simp
  moreover have "below txn h (ns ! (ki ! s)) = entries txn h q" using Down.hyps(4) by (simp add: below_def child_of_def)
  ultimately have "length (entries txn (Suc h) p) =
      entries_before txn h (ki ! s) ns + length (entries txn h q)"
    unfolding entries_branch[OF Down.hyps(2)] using concat_take_Suc[OF Down.hyps(3), of "below txn h"] by simp
  then show ?case using Down.IH Down.prems by simp
qed

context comparator
begin

lemma lower_bound_at:
  "sorted_tree rank ok t \<Longrightarrow> j < length t \<Longrightarrow> rank (fst (t ! j)) = rank key \<Longrightarrow> lower_bound rank t key = j"
  by (rule lower_bound_eqI) (auto dest: sorted_tree_nth_less)

text \<open>Where a key belongs that lies within the leaf \<open>es\<close>, behind it when it is the last, before it when it is the first.\<close>

lemma lands_inside:
  assumes srt: "sorted_tree rank ok (A @ es @ B)" and ne: "es \<noteq> []"
    and first: "rank (fst (hd es)) < rank key" and last: "rank key < rank (fst (last es))"
  shows "lands rank (PS_KEY key) 0 (A @ es @ B) (length A) es"
proof -
  have parts: "\<forall>x \<in> set A. \<forall>y \<in> set es. rank (fst x) < rank (fst y)"
      "\<forall>x \<in> set es. \<forall>y \<in> set B. rank (fst x) < rank (fst y)"
    using srt by (auto simp: sorted_tree_def sorted_wrt_append)
  have "rank (fst x) < rank key" if "x \<in> set A" for x
    using parts(1) that first hd_in_set[OF ne] order.strict_trans by blast
  moreover have "rank key < rank (fst x)" if "x \<in> set B" for x
    using parts(2) that last last_in_set[OF ne] order.strict_trans by blast
  ultimately show ?thesis unfolding lands_def by (intro exI[of _ A] exI[of _ B]) simp
qed

lemma lower_bound_behind:
  assumes "sorted_tree rank ok (A @ es)" "es \<noteq> []" "rank (fst (last es)) < rank key"
  shows "lower_bound rank (A @ es) key = length (A @ es)"
proof -
  have "rank (fst x) < rank key" if "x \<in> set (A @ es)" for x
  proof -
    define xs where "xs = A @ butlast es"
    have t: "A @ es = xs @ [last es]" using assms(2) by (simp add: xs_def)
    have "\<forall>y \<in> set xs. rank (fst y) < rank (fst (last es))"
      using assms(1) unfolding t by (auto simp: sorted_tree_def sorted_wrt_append)
    then show ?thesis using that assms(3) order.strict_trans unfolding t by auto
  qed
  then show ?thesis unfolding lower_bound_def by (metis takeWhile_eq_all_conv)
qed

lemma lower_bound_front:
  "es \<noteq> [] \<Longrightarrow> rank key < rank (fst (hd es)) \<Longrightarrow> lower_bound rank (es @ B) key = 0"
  by (cases es) (auto simp: lower_bound_def)

text \<open>The decisions of a cursor that is on a leaf already.\<close>

lemma set_here_cases:
  assumes srt: "sorted_tree rank ok E" and E: "E = A @ es @ B" "length A = b" and ne: "es \<noteq> []" and key: "ok key"
    and edge: "no_right_siblings mc \<longrightarrow> B = []" and top: "mc_top mc = 0 \<longrightarrow> A = []"
  shows "case set_here cmp False key es mc of
      Set1 mc' \<Rightarrow> \<exists>k < length es. (mc' = set_ki k mc \<or> mc' = mc \<and> k = top_ki mc) \<and> lower_bound rank E key = b + k
    | Set2 mc' \<Rightarrow> mc' = mc\<lparr>C_EOF := False\<rparr> \<and> lands rank (PS_KEY key) 0 E b es
    | Return rc mc' \<Rightarrow> rc = MDB_NOTFOUND \<and> lower_bound rank E key = length E
    | Search mc' \<Rightarrow> mc' = mc"
proof -
  let ?n = "length es" and ?c = "\<lambda>k. cmp key (fst (es ! k))"
  have nth: "E ! (b + k) = es ! k" "b + k < length E" if "k < ?n" for k using that E by (simp_all add: nth_append)
  have okk: "ok (fst (es ! k))" if "k < ?n" for k using srt nth[OF that] by (metis nth_mem sorted_tree_def)
  have eq: "lower_bound rank E key = b + k" if "k < ?n" "?c k = 0" for k
    using that lower_bound_at[OF srt nth(2)[OF that(1)]] nth(1)[OF that(1)] cmp_zero_iff[OF key okk] by simp
  have n: "0 < ?n" "?n - 1 < ?n" using ne by simp_all
  have hl: "hd es = es ! 0" "last es = es ! (?n - 1)" using ne by (simp_all add: hd_conv_nth last_conv_nth)
  have inside: "lands rank (PS_KEY key) 0 E b es" if "?c 0 > 0" "?c (?n - 1) < 0"
    using that lands_inside[OF srt[unfolded E(1)] ne, of key] cmp_pos_iff[OF key okk[OF n(1)]] cmp_neg_iff[OF key okk[OF n(2)]]
    by (simp add: hl E)
  have above: "lower_bound rank E key = length E" if "?c (?n - 1) > 0" "B = []"
    using that lower_bound_behind[of A es key] srt cmp_pos_iff[OF key okk[OF n(2)]] ne by (simp add: hl E(1))
  have front: "lower_bound rank E key = b + 0" if "?c 0 < 0" "A = []"
    using that lower_bound_front[OF ne, of key B] cmp_neg_iff[OF key okk[OF n(1)]] E by (simp add: hl)
  consider "?c 0 = 0" | "?c 0 > 0" | "?c 0 < 0" by linarith
  then show ?thesis
  proof cases
    case 1
    then show ?thesis using eq[OF n(1)] ne by (auto simp: set_here_def Let_def intro!: exI[of _ 0])
  next
    case 2
    show ?thesis
    proof (cases "?n > 1 \<and> ?c (?n - 1) \<le> 0")
      case True
      then consider (last) "?n > 1" "?c (?n - 1) = 0" | (cur) "?n > 1" "?c (?n - 1) < 0" "top_ki mc < ?n" "?c (top_ki mc) = 0"
        | (other) "?n > 1" "?c (?n - 1) < 0" "\<not> (top_ki mc < ?n \<and> ?c (top_ki mc) = 0)"
        by linarith
      then show ?thesis
      proof cases
        case last
        then have "set_here cmp False key es mc = Set1 (set_ki (?n - 1) mc)" using 2 ne by (simp add: set_here_def Let_def)
        then show ?thesis using eq[OF n(2) last(2)] n(2) by auto
      next
        case cur
        then have "set_here cmp False key es mc = Set1 mc" using 2 ne by (simp add: set_here_def Let_def)
        then show ?thesis using eq[OF cur(3,4)] cur(3) by auto
      next
        case other
        then have "set_here cmp False key es mc = Set2 (mc\<lparr>C_EOF := False\<rparr>)" using 2 ne by (auto simp: set_here_def Let_def)
        then show ?thesis using inside[OF 2 other(2)] by simp
      qed
    next
      case False
      then have "?c (?n - 1) > 0" using 2 n by (cases "?n = 1") auto
      then show ?thesis using 2 False above edge ne by (auto simp: set_here_def Let_def no_right_siblings_def)
    qed
  next
    case 3
    then show ?thesis using front top ne by (auto simp: set_here_def Let_def intro!: exI[of _ 0])
  qed
qed

end

context comparator
begin

lemma set_at:
  assumes t: "tree_ok rank ok txn root H" and c: "cursor_at txn root H mc i" and key: "ok key"
  shows "if lower_bound rank (entries txn H root) key < length (entries txn H root)
    then found_at node_read txn root H (lower_bound rank (entries txn H root) key) (mdb_cursor_set cmp txn node_read False key mc)
    else not_found (mdb_cursor_set cmp txn node_read False key mc)"
proof -
  let ?E = "entries txn H root" and ?r = "mdb_cursor_set cmp txn node_read False key mc"
  have wf: "wf_page txn H root" and srt: "sorted_tree rank ok ?E"
    using t by (auto simp: tree_ok_def sorted_tree_def sorted_wrt_map)
  obtain p b where p: "path_to txn root H mc H 0 p b" and f: "C_INITIALIZED mc" "\<not> C_DEL mc" "\<not> mc_error mc"
    using c unfolding cursor_at_def by blast
  have path: "on_path txn (mc_pg mc) (mc_ki mc) root H H 0 p b" using p by (simp add: path_to_def)
  obtain es A B where es: "mp_nodes (top_page mc) = Leaf es" "entries txn 0 p = es" "es \<noteq> []" "?E = A @ es @ B" "length A = b"
    by (rule path_to_leaf[OF p wf])
  have edge: "no_right_siblings mc \<longrightarrow> B = []"
    using no_right_edge[OF path wf] path_to_top(2)[OF p] es(2,4,5) by (simp add: no_right_siblings_def)
  have top: "mc_top mc = 0 \<longrightarrow> A = []"
  proof
    assume "mc_top mc = 0"
    then have "H = 0" using path_to_top(2)[OF p] by simp
    with path have "b = 0" by (cases rule: on_path.cases) simp_all
    then show "A = []" using es(5) by simp
  qed
  note h = set_here_cases[OF srt es(4,5,3) key edge top]
  show ?thesis
  proof (cases "set_here cmp False key es mc")
    case (Set1 mc')
    then obtain k where k: "k < length es" "mc' = set_ki k mc \<or> mc' = mc \<and> k = top_ki mc" "lower_bound rank ?E key = b + k"
      using h by auto
    have m: "path_to txn root H mc' H 0 p b" "top_ki mc' = k" "\<not> C_DEL mc'" "\<not> mc_error mc'"
      using k(2) p f path_to_ki[OF p] by auto
    have "found_at node_read txn root H (b + k) (set1 node_read mc')"
      unfolding set1_def using m wf k(1) es(2) by (intro read_entry_found[of _ _ _ _ p b]) auto
    moreover have "?r = set1 node_read mc'" using Set1 f(1) es(1) by (simp add: mdb_cursor_set_def)
    moreover have "b + k < length ?E" using k(1) es(4,5) by simp
    ultimately show ?thesis using k(3) by simp
  next
    case (Set2 mc')
    then have m: "mc' = mc\<lparr>C_EOF := False\<rparr>" "lands rank (PS_KEY key) 0 ?E b es" using h by auto
    have "?r = set2 cmp txn node_read False key mc'" using Set2 f(1) es(1) by (simp add: mdb_cursor_set_def)
    moreover have "path_to txn root H mc' H 0 p b" "C_INITIALIZED mc'" "\<not> C_EOF mc'" "\<not> C_DEL mc'" "\<not> mc_error mc'"
      using p f by (simp_all add: m(1))
    ultimately show ?thesis using set2_lands[OF t, of mc' p b key False node_read] m(2) es(2) key by simp
  next
    case (Return rc mc')
    then show ?thesis using h f(1) es(1) by (simp add: mdb_cursor_set_def not_found_def)
  next
    case (Search mc')
    then have m: "mc' = mc" using h by simp
    have "cursor_idle root mc" using p f on_path_root[OF path] by (simp add: cursor_idle_def path_to_def)
    from set_from_root[OF t this key, of False node_read] show ?thesis
      using Search m f(1) es(1) by (auto simp: mdb_cursor_set_def)
  qed
qed

end

text \<open>
  The operations of \<open>Lmdb\<close> on the flat list are those on the pages: the same answers,
  and the cursor ends at the same place. \<open>None\<close> stands for a cursor that is not
  initialised.
\<close>

definition cursor_for ::
  "('k, 'd) page_txn \<Rightarrow> ('k, 'd) MDB_page \<Rightarrow> nat \<Rightarrow> ('k, 'd) MDB_cursor \<Rightarrow> nat option \<Rightarrow> bool" where
  "cursor_for txn root H mc pos \<longleftrightarrow>
     (case pos of None \<Rightarrow> cursor_idle root mc \<and> \<not> C_INITIALIZED mc | Some i \<Rightarrow> cursor_at txn root H mc i)"

lemma new_cursor_for: "cursor_for txn root H new_cursor None"
  by (simp add: cursor_for_def cursor_idle_def new_cursor_def CURSOR_STACK_def)

context comparator
begin

lemma cursor_get_pages:
  assumes t: "tree_ok rank ok ptxn root H" and c: "cursor_for ptxn root H mc pos" and key: "ok key"
    and flat: "mt_tree txn = entries ptxn H root" "\<not> mt_error txn"
  shows "case mdb_cursor_get cmp txn pos key op of
      Inl rc \<Rightarrow> \<exists>mc'. mdb_cursor_get_pages cmp ptxn Inr mc key op = Some (Inl rc, mc')
    | Inr (i, e) \<Rightarrow> \<exists>mc'. mdb_cursor_get_pages cmp ptxn Inr mc key op = Some (Inr e, mc') \<and>
        cursor_for ptxn root H mc' (Some i)"
proof -
  let ?E = "entries ptxn H root" and ?r = "mdb_cursor_get_pages cmp ptxn Inr mc key op"
  have wf: "wf_page ptxn H root" and srt: "sorted_tree rank ok ?E"
    using t by (auto simp: tree_ok_def sorted_tree_def sorted_wrt_map)
  have ne: "0 < length ?E" using wf_entries[OF wf] by simp
  have err: "\<not> mc_error mc" using c by (auto simp: cursor_for_def cursor_idle_def cursor_at_def split: option.splits)
  have nf: "\<exists>mc'. r = Some (Inl MDB_NOTFOUND, mc')" if "not_found r" for r :: "('k, bytes) cursor_result"
    using that by (simp add: not_found_def)
  have fd: "\<exists>mc'. r = Some (Inr (?E ! i), mc') \<and> cursor_for ptxn root H mc' (Some i)"
    if "found_at Inr ptxn root H i r" for r i
    using that by (auto simp: found_at_def cursor_for_def Let_def)
  show ?thesis
  proof (cases op)
    case MDB_SET_RANGE
    have "if lower_bound rank ?E key < length ?E then found_at Inr ptxn root H (lower_bound rank ?E key) ?r
        else not_found ?r"
      using set_idle[OF t _ _ key, of mc False Inr] set_at[OF t _ key, of mc _ Inr] c err
      by (cases pos) (simp_all add: MDB_SET_RANGE cursor_for_def mdb_cursor_get_pages_def)
    then show ?thesis using fd nf node_search_spec[OF srt key] flat
      by (auto simp: MDB_SET_RANGE mdb_cursor_get_def Let_def split: if_splits)
  next
    case MDB_NEXT
    show ?thesis
    proof (cases pos)
      case None
      then have "found_at Inr ptxn root H 0 ?r"
        using first_idle[OF t, of mc Inr] c err
        by (simp add: MDB_NEXT cursor_for_def mdb_cursor_get_pages_def mdb_cursor_next_def)
      then show ?thesis using fd ne flat by (auto simp: None MDB_NEXT mdb_cursor_get_def Let_def)
    next
      case (Some i)
      then have "if Suc i < length ?E then found_at Inr ptxn root H (Suc i) ?r else not_found ?r"
        using next_at[OF _ wf, of mc i Inr cmp] c err by (simp add: MDB_NEXT cursor_for_def mdb_cursor_get_pages_def)
      then show ?thesis using fd nf flat by (auto simp: Some MDB_NEXT mdb_cursor_get_def Let_def split: if_splits)
    qed
  next
    case MDB_PREV
    show ?thesis
    proof (cases pos)
      case None
      then have "found_at Inr ptxn root H (length ?E - 1) ?r"
        using prev_idle[OF t, of mc Inr] c err by (simp add: MDB_PREV cursor_for_def mdb_cursor_get_pages_def)
      then show ?thesis using fd ne flat by (auto simp: None MDB_PREV mdb_cursor_get_def Let_def)
    next
      case (Some i)
      then have "if i = 0 then not_found ?r else found_at Inr ptxn root H (i - 1) ?r"
        using prev_at[OF _ wf, of mc i cmp Inr] c err
        by (simp add: MDB_PREV cursor_for_def mdb_cursor_get_pages_def split: if_splits)
      then show ?thesis using fd nf flat by (auto simp: Some MDB_PREV mdb_cursor_get_def Let_def split: if_splits)
    qed
  qed
qed

lemma get_pages:
  assumes t: "tree_ok rank ok ptxn root H" and key: "ok key"
    and flat: "mt_tree txn = entries ptxn H root" "\<not> mt_error txn"
  shows "mdb_get_pages cmp ptxn Inr key = Some (mdb_get cmp txn key)"
proof -
  let ?E = "entries ptxn H root" and ?r = "mdb_cursor_set cmp ptxn Inr True key new_cursor"
  have srt: "sorted_tree rank ok ?E" using t by (auto simp: tree_ok_def sorted_tree_def sorted_wrt_map)
  have idle: "cursor_idle root new_cursor" "\<not> C_INITIALIZED (new_cursor :: ('k, bytes) MDB_cursor)"
    using new_cursor_for[of ptxn root H] by (simp_all add: cursor_for_def)
  have lb: "lower_bound rank ?E key < length ?E" if "\<exists>x \<in> set ?E. rank (fst x) = rank key"
    using that present_iff_at_lower_bound[OF srt] by blast
  have "if \<exists>x \<in> set ?E. rank (fst x) = rank key then found_at Inr ptxn root H (lower_bound rank ?E key) ?r
      else not_found ?r"
    using set_idle[OF t idle key, of True Inr] lb by (simp split: if_splits)
  then show ?thesis
    using node_search_spec[OF srt key] flat
    by (auto simp: mdb_get_pages_def mdb_get_def found_at_def not_found_def Let_def split: if_splits prod.split)
qed

end

text \<open>In an empty tree there is nothing to find.\<close>

lemma empty_tree:
  assumes "md_root ptxn = P_INVALID" "\<not> C_INITIALIZED mc" "\<not> mc_error mc"
  shows "\<exists>mc'. mdb_cursor_get_pages cmp ptxn node_read mc key op = Some (Inl MDB_NOTFOUND, mc')"
    "mdb_get_pages cmp ptxn node_read key = Some (Inl MDB_NOTFOUND)"
proof -
  show "\<exists>mc'. mdb_cursor_get_pages cmp ptxn node_read mc key op = Some (Inl MDB_NOTFOUND, mc')"
    using assms
    by (cases op) (simp_all add: mdb_cursor_get_pages_def mdb_cursor_set_def mdb_cursor_next_def mdb_cursor_first_def
        mdb_cursor_prev_def mdb_cursor_last_def mdb_page_search_def)
  show "mdb_get_pages cmp ptxn node_read key = Some (Inl MDB_NOTFOUND)"
    using assms(1) by (simp add: mdb_get_pages_def mdb_cursor_set_def mdb_page_search_def new_cursor_def)
qed

end
