(* ===== verification/Samples.thy ===== *)
theory Samples
  imports Transact Server Mdb_Page Mdb_Btree
begin

text \<open>
  A small database on which the properties are exercised: the counters of the
  namespace 0, an attribute 15 of cardinality many, and two facts of the first
  transaction.
\<close>

definition sample_fact :: "entity_t \<Rightarrow> attribute_t \<Rightarrow> i64 \<Rightarrow> transaction_t \<Rightarrow> u8 \<Rightarrow> custom_key" where
  "sample_fact e a v t s = \<lparr>ck_ns = 0, ck_type = KEY_INTEGER, ck_sort = s, ck_pad = 0, ck_e = e, ck_a = a,
     ck_t = t, ck_v = set_v_i v zero_value\<rparr>"

definition sample_env :: cenv where
  "sample_env = \<lparr>me_tree =
     [(fill_meta_key zero_key 0 META_TX, i64_bytes 2), (fill_meta_key zero_key 0 META_ID, i64_bytes 20),
      (sample_fact 15 db_cardinality db_cardinality_many 2 SORT_AETV, []),
      (sample_fact 12 3 7 2 SORT_EATV, []), (sample_fact 15 12 7 2 SORT_EATV, [])],
     me_junk = (\<lambda>_. CHR 0x00)\<rparr>"

lemma sample_fact_rank:
  "key_rank (sample_fact e a v t 177) = [0, 3, 177, sint a, sint e, sint t, 4, sint v]"
  "key_rank (sample_fact e a v t 180) = [0, 3, 180, sint e, sint a, sint t, 4, sint v]"
  by (simp_all add: sample_fact_def rank_AETV rank_EATV value_rank_def)

lemma sample_fact_inv:
  "in_window e \<Longrightarrow> in_window a \<Longrightarrow> in_window v \<Longrightarrow> in_window t \<Longrightarrow> 0 < sint e \<Longrightarrow> 0 \<le> sint t \<Longrightarrow>
     s = SORT_EATV \<or> s = SORT_AETV \<Longrightarrow> key_inv (sample_fact e a v t s)"
  by (auto simp: sample_fact_def key_inv_def key_ok_def)

lemma in_window_sample: "in_window 12" "in_window 15" "in_window 20"
  by (simp_all add: in_window_def)

lemma sample_metas_inv: "in_window m \<Longrightarrow> key_inv (fill_meta_key zero_key 0 m)"
  using meta_key_ok [of 0 m] by (simp add: ns_ok_def key_inv_def fill_meta_key_def)

lemma key_inv_ok: "key_inv k \<Longrightarrow> key_ok k"
  by (simp add: key_inv_def)

lemma sample_tree_inv: "tree_inv (me_tree sample_env)"
  by (simp add: sample_env_def tree_inv_def sorted_tree_def sample_metas_inv sample_fact_inv
      in_window_sample key_inv_ok meta_key_rank sample_fact_rank)

lemma sample_metas: "get_meta (begun sample_env) 0 META_TX = Some 2" "get_meta (begun sample_env) 0 META_ID = Some 20"
proof -
  have "cmap (begun sample_env) [0, 0, 0] = Some (i64_bytes 2)" "cmap (begun sample_env) [0, 0, 1] = Some (i64_bytes 20)"
    by (simp_all add: sample_env_def tree_map_def meta_key_rank)
  then show "get_meta (begun sample_env) 0 META_TX = Some 2" "get_meta (begun sample_env) 0 META_ID = Some 20"
    using get_meta_live [OF begun_live [OF sample_tree_inv], of 0] by (simp_all add: ns_ok_def)
qed

lemma sample_exists: "exists_ns (begun sample_env) 0"
  unfolding exists_ns_def sample_metas by simp

text \<open>The unique index of an attribute 13 whose value 7 belongs to the entity 12.\<close>

definition unique_env :: cenv where
  "unique_env = \<lparr>me_tree = [(unique_key 0 (sample_fact 12 13 7 2 SORT_EATV), i64_bytes 12)],
     me_junk = (\<lambda>_. CHR 0x00)\<rparr>"

lemma unique_env_inv: "tree_inv (me_tree unique_env)"
  using unique_key_inv [of 0 "sample_fact 12 13 7 2 SORT_EATV"]
  by (simp add: unique_env_def tree_inv_def sorted_tree_def key_inv_ok ns_ok_def sample_fact_def in_window_def)

lemma unique_env_entry:
  "cmap (begun unique_env) (key_rank (unique_key 0 (sample_fact e 13 7 t SORT_EATV))) = Some (i64_bytes 12)"
  by (simp add: unique_env_def tree_map_def unique_key_rank sample_fact_def)

definition sample_facts :: json where
  "sample_facts = JArray [JArray [JInt (-1), JInt 12, JInt 9, JInt 0], JArray [JInt 15, JInt 13, JString ''abc'', JInt 0]]"

lemma sample_printable: "printable sample_facts"
  by (simp add: sample_facts_def)

lemma sample_fact_ok: "v \<in> set (GetArray sample_facts) \<Longrightarrow> fact_ok sha256 v"
  by (auto simp: sample_facts_def GetArray_def fact_ok_def GetInt64_def GetString_def str_ok_def
      in_window_def)

lemma sample_transact_ok: "transact_ok sha256 sample_env 0 2 20 sample_facts"
  using sample_metas sample_fact_ok
  by (auto simp: transact_ok_def sample_tree_inv ns_ok_def room_def sample_facts_def GetArray_def)

lemma sample_entries:
  "(sample_fact 12 3 7 2 SORT_EATV, []) \<in> set (me_tree sample_env)"
  "in_EATV 0 (sample_fact 12 3 7 2 SORT_EATV, [])"
  by (simp_all add: sample_env_def in_EATV_def sample_fact_def)

lemma sample_uniques: "uniques_at (begun sample_env) 0 2 = []"
proof -
  have "attr_log (mt_tree (begun sample_env)) 0 db_unique 2 = []"
    by (simp add: attr_log_def sample_env_def in_AETV_def sample_fact_def fill_meta_key_def zero_key_def)
  then have "snd (query_a (begun sample_env) 0 2 db_unique) = []"
    using query_a_batches [OF begun_live [OF sample_tree_inv] _ _ in_window_small(3), of 0 2] sample_tree_inv
    by (simp add: ns_ok_def batch_result_def)
  then show ?thesis by (simp add: uniques_at_def)
qed

lemma sample_wf:
  "\<forall>v \<in> set (GetArray sample_facts). wf_fact sha256 v \<and>
     GetInt64 (GetArray v ! 1) \<notin> set (uniques_at (begun sample_env) 0 2)"
  unfolding sample_uniques
  by (simp add: sample_facts_def GetArray_def wf_fact_def IsArray_def IsInt64_def GetInt64_def GetString_def Let_def)

lemma sample_commits:
  "snd (handle_transact sha256 sample_env [] (CHR ''t'' # print_json sample_facts @ [CHR 0x0D]) 0) \<noteq> perror"
  by (rule handle_transact_commits [OF sample_transact_ok parse_argument_line [OF sample_printable] _ _ sample_wf])
    (simp_all add: sample_facts_def IsArray_def GetArray_def)

text \<open>The server after its first client has sent a facts request.\<close>

definition sample_session :: session where
  "sample_session = (read_request (new_session 0))\<lparr>s_data := ''f1'' @ EOL\<rparr>"

definition sample_world :: world where
  "sample_world = read_done 0 sample_session
     (update_session 0 (\<lambda>s. s\<lparr>s_data := s_data s @ ''f1'' @ EOL\<rparr>) (accept (initial_world sample_env)))"

lemma sample_received:
  "w_sessions (update_session 0 (\<lambda>s. s\<lparr>s_data := s_data s @ ''f1'' @ EOL\<rparr>)
     (accept (initial_world sample_env))) 0 = Some sample_session"
  by (simp add: accept_def initial_world_def Let_def sample_session_def read_request_def new_session_def)

lemma sample_world_reachable: "reachable sha256 sample_env sample_world"
proof -
  let ?w1 = "accept (initial_world sample_env)"
  let ?w2 = "update_session 0 (\<lambda>s. s\<lparr>s_data := s_data s @ ''f1'' @ EOL\<rparr>) ?w1"
  have "w_sessions ?w1 0 = Some (read_request (new_session 0))"
    by (simp add: accept_def initial_world_def Let_def)
  then have "step sha256 ?w1 ?w2"
    by (rule step.Receive) (simp add: read_request_def)
  moreover have "step sha256 ?w2 sample_world"
    unfolding sample_world_def
    by (rule step.ReadDone [OF sample_received])
      (simp_all add: sample_session_def read_request_def EOL_def)
  ultimately show ?thesis
    by (meson reachable.Start reachable.Step step.Accept)
qed

lemma sample_line: "read_line sample_session = sample_session\<lparr>s_reads := 0, s_arg := ''f1'' @ [CHR 0x0D], s_data := []\<rparr>"
  by (simp add: read_line_def sample_session_def read_request_def new_session_def getline_def EOL_def)

lemma sample_world_reader: "w_reader sample_world = [(CFacts, 0)]"
  by (simp add: sample_world_def read_done_def sample_line Let_def command_of_def accept_def initial_world_def)

lemma sample_world_arg: "arg_of sample_world 0 = ''f1'' @ [CHR 0x0D]"
  by (simp add: arg_of_def sample_world_def read_done_def sample_line Let_def command_of_def accept_def
      initial_world_def)

subsection \<open>ID lists\<close>

definition small_heap :: allocator where
  "small_heap bytes = (if bytes < 2 ^ 40 \<and> bytes mod 8 = 0 then Some (replicate (bytes div 8) 7) else None)"

lemma small_heap_ok: "malloc_ok small_heap"
  by (auto simp: malloc_ok_def small_heap_def)

definition two_pages :: "unit mdb_id2 list" where
  "two_pages = \<lparr>mid = 2, mptr = ()\<rparr> # [\<lparr>mid = 10, mptr = ()\<rparr>, \<lparr>mid = 30, mptr = ()\<rparr>] @
     replicate (MDB_IDL_UM_MAX - 2) \<lparr>mid = 0, mptr = ()\<rparr>"

lemma two_pages_inv: "mid2l_inv two_pages" and two_pages_list: "mid2l_list two_pages = [\<lparr>mid = 10, mptr = ()\<rparr>, \<lparr>mid = 30, mptr = ()\<rparr>]"
  unfolding two_pages_def by (rule mid2l_listI; simp add: MDB_IDL_UM_MAX_def)+

subsection \<open>A page\<close>

definition blank_page :: mdb_page where
  "blank_page = \<lparr>mp_flags = P_LEAF OR P_DIRTY, mp_lower = 16, mp_upper = 64, mp_ptrs = replicate 24 0,
     mp_bytes = replicate 64 (CHR ''?'')\<rparr>"

lemma blank_page_inv: "page_inv 64 blank_page" and blank_page_nodes: "page_nodes blank_page = []"
  using page_invI[of blank_page 64 0 "[]" True] by (simp_all add: blank_page_def IS_LEAF_def)

lemma blank_page_leaf: "IS_LEAF blank_page" "\<not> IS_LEAF2 blank_page" "NUMKEYS blank_page = 0"
  by (simp_all add: blank_page_def IS_LEAF_def IS_LEAF2_def NUMKEYS_def)

lemma blank_page_room: "node_room blank_page 40 ''key'' ''data''" "fits_inline 40 ''key'' ''data''"
  by (simp_all add: node_room_def fits_inline_def EVEN_def blank_page_def)

definition one_node_page :: mdb_page where
  "one_node_page = added blank_page 0 ''key'' ''data'' 4 0"

lemma one_node_page_inv:
  "page_inv 64 one_node_page" "\<not> IS_LEAF2 one_node_page" "0 < NUMKEYS one_node_page"
proof -
  have "mp_lower blank_page + 2 + EVEN (8 + length ''key'' + length ''data'') \<le> mp_upper blank_page"
    by (simp add: EVEN_def blank_page_def)
  then show "page_inv 64 one_node_page" "\<not> IS_LEAF2 one_node_page"
    using added_refines[OF blank_page_inv blank_page_leaf(1), of 0 "''key''" 4 "''data''" 0] blank_page_leaf(2)
    by (simp_all add: one_node_page_def)
  show "0 < NUMKEYS one_node_page"
    by (simp add: one_node_page_def added_def Let_def NUMKEYS_def blank_page_def)
qed

subsection \<open>A tree of two leaves\<close>

definition sample_pages :: "(custom_key, bytes) page_txn" where
  "sample_pages = \<lparr>pt_rdonly = True, pt_levels = [], mt_next_pgno = 5,
     me_map = (\<lambda>pgno. \<lparr>mp_pgno = pgno, mp_nodes =
       (if pgno = 2 then Branch [(zero_key, 3), (sample_fact 15 db_cardinality db_cardinality_many 2 SORT_AETV, 4)]
        else if pgno = 3 then Leaf (take 2 (me_tree sample_env)) else Leaf (drop 2 (me_tree sample_env)))\<rparr>),
     md_root = 2\<rparr>"

definition sample_root :: "(custom_key, bytes) MDB_page" where
  "sample_root = me_map sample_pages 2"

lemma sample_children:
  "mp_nodes sample_root = Branch [(zero_key, 3), (sample_fact 15 db_cardinality db_cardinality_many 2 SORT_AETV, 4)]"
  "child_of sample_pages (k, 3) = Some (me_map sample_pages 3)" "child_of sample_pages (k, 4) = Some (me_map sample_pages 4)"
  "below sample_pages 0 (k, 3) = take 2 (me_tree sample_env)" "below sample_pages 0 (k, 4) = drop 2 (me_tree sample_env)"
  by (simp_all add: sample_root_def sample_pages_def child_of_def mdb_page_get_def below_def entries.simps)

lemma sample_entries_pages: "entries sample_pages 1 sample_root = me_tree sample_env"
  unfolding One_nat_def entries_branch[OF sample_children(1)] by (simp add: sample_children(4,5))

lemma sample_separated: "separated key_rank key_ok sample_pages 1 sample_root"
proof -
  let ?k = "sample_fact 15 db_cardinality db_cardinality_many 2 SORT_AETV"
  have "key_ok ?k" by (intro key_inv_ok sample_fact_inv) (simp_all add: in_window_def)
  moreover have "\<forall>x \<in> set (take 2 (me_tree sample_env)). key_rank (fst x) < key_rank ?k"
    "\<forall>x \<in> set (drop 2 (me_tree sample_env)). key_rank ?k \<le> key_rank (fst x)"
    by (simp_all add: sample_env_def meta_key_rank sample_fact_rank)
  ultimately show ?thesis
    unfolding One_nat_def separated.simps sample_children(1) nodes.case
    by (auto simp: less_Suc_eq sample_children(2-5))
qed

lemma sample_pages_ok: "tree_ok key_rank key_ok sample_pages sample_root 1"
proof -
  have "wf_page sample_pages 1 sample_root"
    unfolding One_nat_def wf_page.simps sample_children(1) nodes.case
    by (simp add: sample_children(2,3) wf_page.simps) (simp add: sample_pages_def sample_env_def)
  then show ?thesis
    using sample_tree_inv sample_separated unfolding tree_ok_def sample_entries_pages
    by (auto simp: tree_inv_def sorted_tree_def sorted_wrt_map CURSOR_STACK_def mdb_page_get_def P_INVALID_def
        sample_pages_def sample_root_def)
qed

end
