(* ===== verification/Midl_Sort.thy ===== *)
theory Midl_Sort
  imports Midl
begin

text \<open>
  The sort of ID lists (mdb\_midl\_sort of lib/liblmdb/midl.c): a quicksort with an
  explicit stack of bounded size that leaves segments of at most eight IDs to
  an insertion sort. Reads outside the array and a full stack are None, so that
  the theorem that a list is sorted also says that neither happens.
\<close>

subsection \<open>Quicksort\<close>

definition SMALL :: nat where "SMALL = 8"

definition ISTACK :: nat where "ISTACK = 4 * 8 * 2"

definition MIDL_SWAP :: "mdb_id list \<Rightarrow> nat \<Rightarrow> nat \<Rightarrow> mdb_id list" where
  "MIDL_SWAP ids x y = ids[x := ids ! y, y := ids ! x]"

fun insert_down :: "mdb_id list \<Rightarrow> mdb_id \<Rightarrow> nat \<Rightarrow> mdb_id list" where
  "insert_down ids a 0 = ids[1 := a]"
| "insert_down ids a (Suc i) =
     (if a \<le> ids ! Suc i then ids[Suc (Suc i) := a]
      else insert_down (ids[Suc (Suc i) := ids ! Suc i]) a i)"

function insertion_sort :: "mdb_id list \<Rightarrow> nat \<Rightarrow> nat \<Rightarrow> mdb_id list" where
  "insertion_sort ids j ir =
     (if j \<le> ir then insertion_sort (insert_down ids (ids ! j) (j - 1)) (Suc j) ir else ids)"
  by auto
termination by (relation "measure (\<lambda>(ids, j, ir). Suc ir - j)") auto

declare insertion_sort.simps [simp del]

definition median3 :: "mdb_id list \<Rightarrow> nat \<Rightarrow> nat \<Rightarrow> mdb_id list" where
  "median3 ids l ir =
     (let k = (l + ir) div 2;
          ids = MIDL_SWAP ids k (l + 1);
          ids = (if ids ! l < ids ! ir then MIDL_SWAP ids l ir else ids);
          ids = (if ids ! (l + 1) < ids ! ir then MIDL_SWAP ids (l + 1) ir else ids)
      in if ids ! l < ids ! (l + 1) then MIDL_SWAP ids l (l + 1) else ids)"

text \<open>The two scans: None is a read outside the array.\<close>

function scan_up :: "mdb_id list \<Rightarrow> mdb_id \<Rightarrow> nat \<Rightarrow> nat option" where
  "scan_up ids a i =
     (if i + 1 < length ids
      then if a < ids ! (i + 1) then scan_up ids a (i + 1) else Some (i + 1)
      else None)"
  by auto
termination by (relation "measure (\<lambda>(ids, a, i). length ids - i)") auto

declare scan_up.simps [simp del]

fun scan_down :: "mdb_id list \<Rightarrow> mdb_id \<Rightarrow> nat \<Rightarrow> nat option" where
  "scan_down ids a 0 = None"
| "scan_down ids a (Suc j) = (if ids ! j < a then scan_down ids a j else Some j)"

partial_function (option) partition_ids ::
    "mdb_id list \<Rightarrow> mdb_id \<Rightarrow> nat \<Rightarrow> nat \<Rightarrow> (mdb_id list \<times> nat \<times> nat) option" where
  "partition_ids ids a i j =
     (case scan_up ids a i of
        None \<Rightarrow> None
      | Some i \<Rightarrow>
          (case scan_down ids a j of
             None \<Rightarrow> None
           | Some j \<Rightarrow> if j < i then Some (ids, i, j) else partition_ids (MIDL_SWAP ids i j) a i j))"

text \<open>The stack of pending segments is kept top first, one pair (l, ir) for two entries.\<close>

partial_function (option) midl_sort_loop ::
    "mdb_id list \<Rightarrow> nat \<Rightarrow> nat \<Rightarrow> (nat \<times> nat) list \<Rightarrow> mdb_id list option" where
  "midl_sort_loop ids l ir istack =
     (if ir - l < SMALL then
        (let ids = insertion_sort ids (l + 1) ir in
         case istack of
           [] \<Rightarrow> Some ids
         | (l, ir) # istack \<Rightarrow> midl_sort_loop ids l ir istack)
      else
        (let ids = median3 ids l ir; a = ids ! (l + 1) in
         case partition_ids ids a (l + 1) ir of
           None \<Rightarrow> None
         | Some (ids, i, j) \<Rightarrow>
             let ids = ids[l + 1 := ids ! j, j := a] in
             if 2 * (length istack + 1) \<ge> ISTACK then None
             else if ir - i + 1 \<ge> j - l then midl_sort_loop ids l (j - 1) ((i, ir) # istack)
             else midl_sort_loop ids i ir ((l, j - 1) # istack)))"

definition mdb_midl_sort :: "mdb_id list \<Rightarrow> mdb_id list option" where
  "mdb_midl_sort ids = midl_sort_loop ids 1 (nat (sint (ucast (ids ! 0) :: u32))) []"

subsection \<open>The insertion sort of a short segment\<close>

lemma insert_down_insort:
  "insert_down (c # u @ h # post) a (length u) = c # rev (insort a (rev u)) @ post"
proof (induction u arbitrary: h post rule: rev_induct)
  case Nil
  then show ?case by simp
next
  case (snoc x u)
  have at: "(c # (u @ [x]) @ h # post) ! Suc (length u) = x" by (simp add: nth_append)
  have up: "(c # (u @ [x]) @ h # post)[Suc (Suc (length u)) := y] = c # u @ x # y # post" for y
    by (simp add: list_update_append)
  show ?case using snoc.IH[of x "x # post"]
    by (simp only: length_append list.size One_nat_def add_Suc_right add_0_right insert_down.simps at up) simp
qed

lemma insort_append_le: "\<forall>x\<in>set bs. y \<le> x \<Longrightarrow> insort y (as @ bs) = insort y as @ bs" for y :: "'a::linorder"
proof (induction as)
  case Nil
  then show ?case by (cases bs) auto
qed auto

lemma insertion_sort_segment:
  assumes "s \<noteq> []" "descending s" "\<forall>x\<in>set pre. \<forall>y\<in>set (s @ ys). y \<le> x"
  shows "insertion_sort (c # pre @ s @ ys @ post) (Suc (length pre + length s)) (length pre + length s + length ys)
    = c # pre @ rev (sort (s @ ys)) @ post"
  using assms
proof (induction ys arbitrary: s)
  case Nil
  have "s = rev (sort s)" using Nil by (intro descending_unique) (simp_all add: descending_rev_sort)
  then show ?case by (subst insertion_sort.simps) simp
next
  case (Cons y ys)
  define s' where "s' = rev (insort y (rev s))"
  have "\<forall>x\<in>set (rev pre). y \<le> x" using Cons.prems(3) by auto
  then have "rev (insort y (rev (pre @ s))) = pre @ s'"
    using insort_append_le[of "rev pre" y "rev s"] by (simp add: s'_def)
  then have ins: "insert_down (c # pre @ s @ (y # ys) @ post) y (length pre + length s) = c # pre @ s' @ ys @ post"
    using insert_down_insort[of c "pre @ s" y "ys @ post" y] by simp
  have nth: "(c # pre @ s @ (y # ys) @ post) ! Suc (length pre + length s) = y"
    by (simp add: nth_append)
  have len: "length s' = Suc (length s)" by (simp add: s'_def)
  have "insertion_sort (c # pre @ s @ (y # ys) @ post) (Suc (length pre + length s)) (length pre + length s + length (y # ys))
      = insertion_sort (c # pre @ s' @ ys @ post) (Suc (length pre + length s')) (length pre + length s' + length ys)"
    by (subst insertion_sort.simps, unfold nth) (simp add: ins[simplified] len)
  also have "\<dots> = c # pre @ rev (sort (s' @ ys)) @ post"
  proof (rule Cons.IH)
    show "s' \<noteq> []" using len by auto
    show "descending s'" using Cons.prems(2) by (simp add: s'_def descending_rev sorted_insort)
    show "\<forall>x\<in>set pre. \<forall>y\<in>set (s' @ ys). y \<le> x" using Cons.prems(3) by (auto simp: s'_def set_insort_key)
  qed
  also have "sort (s' @ ys) = sort (s @ y # ys)"
    by (rule properties_for_sort) (simp_all add: s'_def)
  finally show ?case .
qed

subsection \<open>Permutations of a segment\<close>

definition perm_in :: "nat \<Rightarrow> nat \<Rightarrow> 'a list \<Rightarrow> 'a list \<Rightarrow> bool" where
  "perm_in l ir ids ids' \<longleftrightarrow>
     mset ids' = mset ids \<and> take l ids' = take l ids \<and> drop (Suc ir) ids' = drop (Suc ir) ids"

lemma perm_in_refl [simp]: "perm_in l ir ids ids"
  by (simp add: perm_in_def)

lemma perm_in_trans: "perm_in l ir xs ys \<Longrightarrow> perm_in l ir ys zs \<Longrightarrow> perm_in l ir xs zs"
  by (simp add: perm_in_def)

lemma perm_in_length: "perm_in l ir xs ys \<Longrightarrow> length ys = length xs"
  unfolding perm_in_def by (metis size_mset)

lemma perm_in_mono:
  assumes "perm_in l ir xs ys" "l' \<le> l"
  shows "perm_in l' ir xs ys"
  using assms unfolding perm_in_def by (metis min.absorb1 take_take)

lemma perm_in_nth: "perm_in l ir xs ys \<Longrightarrow> p < l \<Longrightarrow> ys ! p = xs ! p"
  unfolding perm_in_def by (metis nth_take)

lemma perm_in_swap:
  assumes "l \<le> x" "x \<le> ir" "l \<le> y" "y \<le> ir" "ir < length ids"
  shows "perm_in l ir ids (MIDL_SWAP ids x y)"
  using assms unfolding perm_in_def MIDL_SWAP_def by (simp add: mset_swap)

lemma swap_nth:
  assumes "x < length ids" "y < length ids"
  shows "MIDL_SWAP ids x y ! p = (if p = x then ids ! y else if p = y then ids ! x else ids ! p)"
  using assms by (auto simp: MIDL_SWAP_def nth_list_update)

lemma length_swap [simp]: "length (MIDL_SWAP ids x y) = length ids"
  by (simp add: MIDL_SWAP_def)

lemma perm_in_append:
  assumes "perm_in (length pre) ir (pre @ seg @ post) ids'" "Suc ir = length pre + length seg"
  obtains seg' where "ids' = pre @ seg' @ post" "mset seg' = mset seg" "length seg' = length seg"
proof -
  have len: "length ids' = length pre + length seg + length post" using perm_in_length[OF assms(1)] by simp
  have t: "take (length pre) ids' = pre" and d: "drop (Suc ir) ids' = post"
    using assms unfolding perm_in_def by simp_all
  define seg' where "seg' = take (length seg) (drop (length pre) ids')"
  have "ids' = pre @ seg' @ post"
    using t d len assms(2) unfolding seg'_def by (metis append_take_drop_id add.commute drop_drop)
  moreover from this have "mset seg' = mset seg" using assms(1) unfolding perm_in_def by simp
  ultimately show thesis using that size_mset by metis
qed

subsection \<open>The partition of a segment\<close>

lemma scan_up_stops:
  assumes "i < t" "t < length ids" "ids ! t \<le> a"
  shows "\<exists>i'. scan_up ids a i = Some i' \<and> i < i' \<and> i' \<le> t \<and> ids ! i' \<le> a \<and> (\<forall>p. i < p \<and> p < i' \<longrightarrow> a < ids ! p)"
  using assms
proof (induction ids a i rule: scan_up.induct)
  case (1 ids a i)
  have b: "i + 1 < length ids" using 1(2,3) by simp
  show ?case
  proof (cases "a < ids ! (i + 1)")
    case False
    then show ?thesis using b 1(2) by (subst scan_up.simps) (auto simp: not_less)
  next
    case True
    then have "i + 1 \<noteq> t" using 1(4) by auto
    then obtain i' where "scan_up ids a (i + 1) = Some i'" "i + 1 < i'" "i' \<le> t" "ids ! i' \<le> a"
        "\<forall>p. i + 1 < p \<and> p < i' \<longrightarrow> a < ids ! p"
      using 1(1)[OF b True] 1(2-4) by auto
    then show ?thesis using b True
      by (subst scan_up.simps) (auto, metis Suc_lessI)
  qed
qed

lemma scan_down_stops:
  assumes "t < j" "a \<le> ids ! t"
  shows "\<exists>j'. scan_down ids a j = Some j' \<and> t \<le> j' \<and> j' < j \<and> a \<le> ids ! j' \<and> (\<forall>p. j' < p \<and> p < j \<longrightarrow> ids ! p < a)"
  using assms
proof (induction j)
  case (Suc j)
  show ?case
  proof (cases "ids ! j < a")
    case False
    then show ?thesis using Suc.prems by (auto simp: not_less)
  next
    case True
    then have "t < j" using Suc.prems by (metis leD less_SucE)
    then show ?thesis using Suc True by (auto, metis less_antisym)
  qed
qed simp

lemma partition_splits:
  assumes "ir < length ids" "l + 1 \<le> i" "i \<le> j" "j \<le> ir" "i = j \<Longrightarrow> l + 1 < i \<and> j < ir"
    "\<And>p. l \<le> p \<Longrightarrow> p \<le> i \<Longrightarrow> a \<le> ids ! p" "\<And>p. j \<le> p \<Longrightarrow> p \<le> ir \<Longrightarrow> ids ! p \<le> a"
  shows "\<exists>ids' i' j'. partition_ids ids a i j = Some (ids', i', j') \<and> perm_in (l + 2) ir ids ids' \<and>
    j' < i' \<and> l + 1 \<le> j' \<and> i' \<le> ir \<and>
    (\<forall>p. l \<le> p \<and> p < i' \<longrightarrow> a \<le> ids' ! p) \<and> (\<forall>p. j' < p \<and> p \<le> ir \<longrightarrow> ids' ! p \<le> a)"
  using assms
proof (induction "j - i" arbitrary: ids i j rule: less_induct)
  case less
  note B = less.prems(1-5) and ge = less.prems(6) and le = less.prems(7)
  define t u where "t = (if i = j then j + 1 else j)" and "u = (if i = j then i - 1 else i)"
  have t: "i < t" "t < length ids" "j \<le> t" "t \<le> ir" and u: "u < j" "u \<le> i" "l \<le> u"
    using B by (auto simp: t_def u_def)
  obtain i' where i': "scan_up ids a i = Some i'" "i < i'" "i' \<le> t" "ids ! i' \<le> a"
      "\<And>p. i < p \<Longrightarrow> p < i' \<Longrightarrow> a < ids ! p"
    using scan_up_stops[OF t(1,2) le[OF t(3,4)]] by blast
  obtain j' where j': "scan_down ids a j = Some j'" "j' < j" "u \<le> j'" "a \<le> ids ! j'"
      "\<And>p. j' < p \<Longrightarrow> p < j \<Longrightarrow> ids ! p < a"
    using scan_down_stops[OF u(1) ge[OF u(3,2)]] by blast
  have bounds: "i' \<le> ir" "l + 1 \<le> j'" using i'(3) j'(3) t B by (auto simp: u_def split: if_splits)
  have gei: "a \<le> ids ! p" if "l \<le> p" "p < i'" for p
    using ge[of p] i'(5)[of p] that by (cases "p \<le> i") auto
  have lej: "ids ! p \<le> a" if "j' < p" "p \<le> ir" for p
    using le[of p] j'(5)[of p] that by (cases "j \<le> p") auto
  show ?case
  proof (cases "j' < i'")
    case True
    then show ?thesis using i'(1) j'(1) bounds gei lej by (subst partition_ids.simps) auto
  next
    case False
    define ids1 where "ids1 = MIDL_SWAP ids i' j'"
    have ij: "l + 2 \<le> i'" "i' \<le> j'" "j' \<le> ir" "j' < ir" "i' < length ids" "j' < length ids" using False B i'(2) j'(2) by auto
    have nth: "ids1 ! p = (if p = i' then ids ! j' else if p = j' then ids ! i' else ids ! p)" for p
      unfolding ids1_def by (rule swap_nth) (use ij in auto)
    have p1: "perm_in (l + 2) ir ids ids1"
      unfolding ids1_def by (rule perm_in_swap) (use ij B in auto)
    have "\<exists>ids' i'' j''. partition_ids ids1 a i' j' = Some (ids', i'', j'') \<and> perm_in (l + 2) ir ids1 ids' \<and>
      j'' < i'' \<and> l + 1 \<le> j'' \<and> i'' \<le> ir \<and>
      (\<forall>p. l \<le> p \<and> p < i'' \<longrightarrow> a \<le> ids' ! p) \<and> (\<forall>p. j'' < p \<and> p \<le> ir \<longrightarrow> ids' ! p \<le> a)"
    proof (rule less.hyps)
      show "j' - i' < j - i" using ij i'(2) j'(2) by linarith
      show "ir < length ids1" using B by (simp add: ids1_def)
      show "i' = j' \<Longrightarrow> l + 1 < i' \<and> j' < ir" using ij by simp
      show "a \<le> ids1 ! p" if "l \<le> p" "p \<le> i'" for p
        using that gei[of p] j'(4) ij i'(4) by (cases "p = i'") (auto simp: nth)
      show "ids1 ! p \<le> a" if "j' \<le> p" "p \<le> ir" for p
        using that lej[of p] i'(4) ij j'(4) by (cases "p = j'") (auto simp: nth)
    qed (use ij in auto)
    moreover have "partition_ids ids a i j = partition_ids ids1 a i' j'"
      using False by (subst partition_ids.simps) (simp add: i'(1) j'(1) ids1_def)
    ultimately show ?thesis using perm_in_trans[OF p1] by auto
  qed
qed

lemma median3_orders:
  assumes "ir < length ids" "l + 2 \<le> ir"
  shows "perm_in l ir ids (median3 ids l ir) \<and>
    median3 ids l ir ! (l + 1) \<le> median3 ids l ir ! l \<and> median3 ids l ir ! ir \<le> median3 ids l ir ! (l + 1)"
proof -
  define cswap where "cswap x y xs = (if xs ! x < xs ! y then MIDL_SWAP xs x y else xs)" for x y and xs :: "mdb_id list"
  have perm: "perm_in l ir ids (cswap x y xs)" if "perm_in l ir ids xs" "x \<in> {l..ir}" "y \<in> {l..ir}" for x y xs
    using that assms perm_in_swap[of l x ir y xs] perm_in_length[OF that(1)]
    by (auto simp: cswap_def intro: perm_in_trans)
  define i1 where "i1 = MIDL_SWAP ids ((l + ir) div 2) (l + 1)"
  define i2 where "i2 = cswap l ir i1"
  define i3 where "i3 = cswap (l + 1) ir i2"
  have m: "median3 ids l ir = cswap l (l + 1) i3"
    by (simp add: median3_def Let_def cswap_def i1_def i2_def i3_def)
  have p1: "perm_in l ir ids i1" unfolding i1_def by (rule perm_in_swap) (use assms in auto)
  have p2: "perm_in l ir ids i2" unfolding i2_def by (rule perm[OF p1]) (use assms in auto)
  have p3: "perm_in l ir ids i3" unfolding i3_def by (rule perm[OF p2]) (use assms in auto)
  have p4: "perm_in l ir ids (cswap l (l + 1) i3)" by (rule perm[OF p3]) (use assms in auto)
  note len = p1[THEN perm_in_length] p2[THEN perm_in_length] p3[THEN perm_in_length]
  have o2: "i2 ! ir \<le> i2 ! l"
    using assms len by (auto simp: i2_def cswap_def swap_nth)
  have o3: "i3 ! ir \<le> i3 ! l" "i3 ! ir \<le> i3 ! (l + 1)"
    using assms len o2 by (auto simp: i3_def cswap_def swap_nth)
  have "cswap l (l + 1) i3 ! (l + 1) \<le> cswap l (l + 1) i3 ! l" "cswap l (l + 1) i3 ! ir \<le> cswap l (l + 1) i3 ! (l + 1)"
    using assms len o3 by (auto simp: cswap_def swap_nth)
  then show ?thesis using p4 by (simp add: m)
qed

text \<open>A segment whose middle part equals the pivot, with the larger ones before and the smaller ones behind.\<close>

lemma cut_at_pivot:
  fixes xs :: "mdb_id list"
  assumes "0 < j" "j < i" "i < length xs" and hi: "\<And>p. p < j \<Longrightarrow> a \<le> xs ! p"
    and mid: "\<And>p. j \<le> p \<Longrightarrow> p < i \<Longrightarrow> xs ! p = a" and lo: "\<And>p. i \<le> p \<Longrightarrow> p < length xs \<Longrightarrow> xs ! p \<le> a"
  obtains L M R where "xs = L @ M @ R" "length L = j" "length M = i - j" "L \<noteq> []" "M \<noteq> []" "R \<noteq> []"
    "descending M" "\<forall>x\<in>set L. \<forall>y\<in>set (M @ R). y \<le> x" "\<forall>x\<in>set M. \<forall>y\<in>set R. y \<le> x"
proof -
  define L M R where "L = take j xs" and "M = take (i - j) (drop j xs)" and "R = drop i xs"
  have "drop j xs = M @ R"
    unfolding M_def R_def using assms(2) append_take_drop_id[of "i - j" "drop j xs"] by simp
  then have xs: "xs = L @ M @ R" unfolding L_def by (metis append_take_drop_id)
  have lens: "length L = j" "length M = i - j" "length R = length xs - i"
    using assms(2,3) by (simp_all add: L_def M_def R_def)
  have ne: "L \<noteq> []" "M \<noteq> []" "R \<noteq> []" using lens assms(1-3) by auto
  have L: "a \<le> x" if "x \<in> set L" for x
    using that hi lens(1) by (auto simp: in_set_conv_nth L_def)
  have M: "x = a" if "x \<in> set M" for x
    using that mid assms(3) by (auto simp: in_set_conv_nth M_def)
  have R: "x \<le> a" if "x \<in> set R" for x
    using that lo assms(3) by (auto simp: in_set_conv_nth R_def)
  have "descending M" unfolding sorted_wrt_iff_nth_less by (metis M nth_mem order.refl order.strict_trans)
  moreover have "\<forall>x\<in>set L. \<forall>y\<in>set (M @ R). y \<le> x" using L M R by (fastforce intro: order.trans)
  moreover have "\<forall>x\<in>set M. \<forall>y\<in>set R. y \<le> x" using M R by blast
  ultimately show thesis using xs lens(1,2) ne by (intro that)
qed

lemma split_segment:
  fixes pre seg post :: "mdb_id list"
  assumes "length pre = l" "Suc ir = l + length seg" "SMALL \<le> ir - l"
  defines "m \<equiv> median3 (pre @ seg @ post) l ir"
  obtains ids i j L M R where
    "partition_ids m (m ! (l + 1)) (l + 1) ir = Some (ids, i, j)"
    "ids[l + 1 := ids ! j, j := m ! (l + 1)] = pre @ L @ M @ R @ post"
    "j = l + length L" "i = l + length L + length M" "L \<noteq> []" "M \<noteq> []" "R \<noteq> []"
    "mset (L @ M @ R) = mset seg" "descending M"
    "\<forall>x\<in>set L. \<forall>y\<in>set (M @ R). y \<le> x" "\<forall>x\<in>set M. \<forall>y\<in>set R. y \<le> x"
proof -
  define a where "a = m ! (l + 1)"
  have ir: "ir < length (pre @ seg @ post)" "l + 2 \<le> ir" using assms(1-3) by (simp_all add: SMALL_def)
  note md = median3_orders[OF ir, folded m_def]
  have len: "length m = length (pre @ seg @ post)" using md perm_in_length by blast
  have ge: "a \<le> m ! p" if "l \<le> p" "p \<le> l + 1" for p
    using that md by (cases "p = l + 1") (auto simp: a_def le_Suc_eq)
  have le: "m ! p \<le> a" if "ir \<le> p" "p \<le> ir" for p using that md by (auto simp: a_def)
  obtain ids i j where part: "partition_ids m a (l + 1) ir = Some (ids, i, j)" and p2: "perm_in (l + 2) ir m ids"
      and ij: "j < i" "l + 1 \<le> j" "i \<le> ir"
      and G: "\<And>p. l \<le> p \<Longrightarrow> p < i \<Longrightarrow> a \<le> ids ! p" and LE: "\<And>p. j < p \<Longrightarrow> p \<le> ir \<Longrightarrow> ids ! p \<le> a"
    using partition_splits[of ir m l "l + 1" ir a] ir len ge le by auto
  have lids: "length ids = length (pre @ seg @ post)" using perm_in_length[OF p2] len by simp
  have a: "ids ! (l + 1) = a" using perm_in_nth[OF p2, of "l + 1"] by (simp add: a_def)
  have sw: "ids[l + 1 := ids ! j, j := a] = MIDL_SWAP ids (l + 1) j" unfolding MIDL_SWAP_def a by simp
  have "perm_in l ir (pre @ seg @ post) (MIDL_SWAP ids (l + 1) j)"
  proof -
    have "perm_in l ir (pre @ seg @ post) m" using md by simp
    moreover have "perm_in l ir m ids" by (rule perm_in_mono[OF p2]) simp
    moreover have "perm_in l ir ids (MIDL_SWAP ids (l + 1) j)" by (rule perm_in_swap) (use ij ir lids in auto)
    ultimately show ?thesis by (blast intro: perm_in_trans)
  qed
  then obtain seg' where seg': "MIDL_SWAP ids (l + 1) j = pre @ seg' @ post" "mset seg' = mset seg"
      "length seg' = length seg"
    using perm_in_append[of pre ir seg post] assms(1,2) by metis
  have at: "seg' ! k = (if l + k = l + 1 then ids ! j else if l + k = j then a else ids ! (l + k))"
    if "k < length seg" for k
    using that swap_nth[of "l + 1" ids j "l + k"] ij ir lids a seg' assms(1) by (auto simp: nth_append)
  have mid: "ids ! p = a" if "j < p" "p < i" for p using G[of p] LE[of p] that ij by (intro antisym) auto
  have "0 < j - l" "j - l < i - l" "i - l < length seg'" using ij assms(2) seg'(3) by auto
  moreover have "a \<le> seg' ! p" if "p < j - l" for p
    using that at[of p] G[of "l + p"] G[of j] ij assms(2) by auto
  moreover have "seg' ! p = a" if "j - l \<le> p" "p < i - l" for p
    using that at[of p] mid[of "l + p"] a ij assms(2) by (cases "l + p = j") auto
  moreover have "seg' ! p \<le> a" if "i - l \<le> p" "p < length seg'" for p
    using that at[of p] LE[of "l + p"] ij assms(2) seg'(3) by auto
  ultimately obtain L M R where "seg' = L @ M @ R" "length L = j - l" "length M = i - l - (j - l)"
      "L \<noteq> []" "M \<noteq> []" "R \<noteq> []" "descending M"
      "\<forall>x\<in>set L. \<forall>y\<in>set (M @ R). y \<le> x" "\<forall>x\<in>set M. \<forall>y\<in>set R. y \<le> x"
    by (rule cut_at_pivot)
  then show thesis
    using part seg'(1,2) ij unfolding sw[symmetric] a_def by (intro that) auto
qed


subsection \<open>The whole sort\<close>

text \<open>
  What is left to do when a segment is sorted: take the next one off the stack.
  The larger half of a split goes onto the stack, so a segment that is worked
  on with \<open>d\<close> others pending has at most \<open>2 ^ (31 - d)\<close> IDs and the
  stack never overflows.
\<close>

fun resume :: "(nat \<times> nat) list \<Rightarrow> mdb_id list \<Rightarrow> mdb_id list option" where
  "resume [] ids = Some ids"
| "resume ((l, ir) # istack) ids = midl_sort_loop ids l ir istack"

lemma rev_sort_split:
  fixes L M R :: "'a::linorder list"
  assumes "mset (L @ M @ R) = mset seg" "descending M"
    "\<forall>x\<in>set L. \<forall>y\<in>set (M @ R). y \<le> x" "\<forall>x\<in>set M. \<forall>y\<in>set R. y \<le> x"
  shows "rev (sort seg) = rev (sort L) @ M @ rev (sort R)"
proof (rule descending_unique)
  have "set (sort L) = set L" "set (sort R) = set R" by simp_all
  then show "descending (rev (sort L) @ M @ rev (sort R))"
    using assms(2-) by (auto simp: sorted_wrt_append descending_rev_sort simp del: sorted_wrt_rev)
  show "mset (rev (sort seg)) = mset (rev (sort L) @ M @ rev (sort R))"
    using assms(1) by simp
qed (rule descending_rev_sort)

lemma midl_sort_small:
  assumes "l = length pre + 1" "ir = length pre + length seg" "\<forall>x\<in>set pre. \<forall>y\<in>set seg. y \<le> x"
    "ir - l < SMALL"
  shows "midl_sort_loop (c # pre @ seg @ post) l ir istack = resume istack (c # pre @ rev (sort seg) @ post)"
proof -
  have "insertion_sort (c # pre @ seg @ post) (l + 1) ir = c # pre @ rev (sort seg) @ post"
  proof (cases seg)
    case Nil
    then show ?thesis using assms by (subst insertion_sort.simps) simp
  next
    case (Cons y ys)
    then show ?thesis using insertion_sort_segment[of "[y]" pre ys c post] assms by simp
  qed
  then show ?thesis using assms(4)
    by (subst midl_sort_loop.simps) (simp add: Let_def split: list.split)
qed

text \<open>The stack is deep enough, as the larger part is the one that is pushed.\<close>

lemma half_segment:
  assumes "2 * n \<le> m" "m * 2 ^ k < (2 :: nat) ^ 31"
  shows "n * 2 ^ Suc k < (2 :: nat) ^ 31"
proof -
  have "2 * n * 2 ^ k \<le> m * 2 ^ k" using assms(1) by (rule mult_right_mono) simp
  from le_less_trans[OF this assms(2)] show ?thesis by (simp add: mult.commute mult.left_commute)
qed

lemma istack_room:
  assumes "SMALL \<le> n" "n * 2 ^ k < 2 ^ 31"
  shows "\<not> 2 * (k + 1) \<ge> ISTACK"
proof -
  have "8 * 2 ^ k \<le> n * 2 ^ k" using assms(1) by (intro mult_right_mono) (simp_all add: SMALL_def)
  from le_less_trans[OF this assms(2)] have "(2::nat) ^ k < 2 ^ 28" by simp
  then have "k < 28" by (rule power_less_imp_less_exp[rotated]) simp
  then show ?thesis by (simp add: ISTACK_def)
qed

text \<open>One round of the loop on a long segment: one part is sorted next, the other pushed.\<close>

lemma midl_sort_round:
  assumes "l = length pre + 1" "ir = length pre + length seg" "\<not> ir - l < SMALL"
    "length seg * 2 ^ length istack < 2 ^ 31"
  obtains i j L M R where "mset (L @ M @ R) = mset seg" "descending M"
    "\<forall>x\<in>set L. \<forall>y\<in>set (M @ R). y \<le> x" "\<forall>x\<in>set M. \<forall>y\<in>set R. y \<le> x"
    "j - 1 = length pre + length L" "i = length (pre @ L @ M) + 1"
    "length L < length seg" "length R < length seg" "length L + length M + length R = length seg"
    "midl_sort_loop (c # pre @ seg @ post) l ir istack =
      (if length R \<ge> length L then midl_sort_loop (c # pre @ L @ M @ R @ post) l (j - 1) ((i, ir) # istack)
       else midl_sort_loop (c # pre @ L @ M @ R @ post) i ir ((l, j - 1) # istack))"
proof -
  have big: "length (c # pre) = l" "Suc ir = l + length seg" "SMALL \<le> ir - l"
    using assms by simp_all
  define m where "m = median3 (c # pre @ seg @ post) l ir"
  obtain ids i j L M R where P: "partition_ids m (m ! (l + 1)) (l + 1) ir = Some (ids, i, j)"
      "ids[l + 1 := ids ! j, j := m ! (l + 1)] = c # pre @ L @ M @ R @ post"
      "j = l + length L" "i = l + length L + length M" "L \<noteq> []" "M \<noteq> []" "R \<noteq> []"
      and S: "mset (L @ M @ R) = mset seg" "descending M"
      "\<forall>x\<in>set L. \<forall>y\<in>set (M @ R). y \<le> x" "\<forall>x\<in>set M. \<forall>y\<in>set R. y \<le> x"
    by (rule split_segment[OF big, of post, unfolded append_Cons, folded m_def])
  have len: "length L + length M + length R = length seg"
    using arg_cong[OF S(1), of size] by simp
  have pos: "0 < length L" "0 < length M" "0 < length R" using P(5-7) by simp_all
  have "\<not> 2 * (length istack + 1) \<ge> ISTACK" using istack_room[OF _ assms(4)] big assms(1) by simp
  moreover have "ir - i + 1 \<ge> j - l \<longleftrightarrow> length R \<ge> length L"
    using P(3,4) pos(3) len assms(1,2) by linarith
  ultimately have "midl_sort_loop (c # pre @ seg @ post) l ir istack =
      (if length R \<ge> length L then midl_sort_loop (c # pre @ L @ M @ R @ post) l (j - 1) ((i, ir) # istack)
       else midl_sort_loop (c # pre @ L @ M @ R @ post) i ir ((l, j - 1) # istack))"
    using assms(3) P(1) by (subst midl_sort_loop.simps) (simp add: Let_def m_def[symmetric] P(2)[simplified])
  moreover have "length L < length seg" "length R < length seg" using pos len by linarith+
  ultimately show thesis using S P(3,4) len assms(1) by (intro that) simp_all
qed

lemma midl_sort_loop_segment:
  assumes "l = length pre + 1" "ir = length pre + length seg"
    "\<forall>x\<in>set pre. \<forall>y\<in>set seg. y \<le> x" "length seg * 2 ^ length istack < 2 ^ 31"
  shows "midl_sort_loop (c # pre @ seg @ post) l ir istack = resume istack (c # pre @ rev (sort seg) @ post)"
  using assms
proof (induction "length seg" arbitrary: pre seg post l ir istack rule: less_induct)
  case less
  show ?case
  proof (cases "ir - l < SMALL")
    case True
    then show ?thesis using midl_sort_small[OF less.prems(1-3)] by blast
  next
    case False
    obtain i j L M R where S: "mset (L @ M @ R) = mset seg" "descending M"
        "\<forall>x\<in>set L. \<forall>y\<in>set (M @ R). y \<le> x" "\<forall>x\<in>set M. \<forall>y\<in>set R. y \<le> x"
        and P: "j - 1 = length pre + length L" "i = length (pre @ L @ M) + 1"
        "length L < length seg" "length R < length seg" and len: "length L + length M + length R = length seg"
        and round: "midl_sort_loop (c # pre @ seg @ post) l ir istack =
          (if length R \<ge> length L then midl_sort_loop (c # pre @ L @ M @ R @ post) l (j - 1) ((i, ir) # istack)
           else midl_sort_loop (c # pre @ L @ M @ R @ post) i ir ((l, j - 1) # istack))"
      by (rule midl_sort_round[OF less.prems(1,2) False less.prems(4), of c post])
    have sets: "set L \<subseteq> set seg" "set M \<subseteq> set seg" "set R \<subseteq> set seg"
      using arg_cong[OF S(1), of set_mset] by auto
    have le: "\<forall>x\<in>set pre. \<forall>y\<in>set L. y \<le> x" "\<forall>x\<in>set (pre @ L @ M). \<forall>y\<in>set R. y \<le> x"
        "\<forall>x\<in>set (pre @ rev (sort L) @ M). \<forall>y\<in>set R. y \<le> x"
      using less.prems(3) sets S(3,4) by auto
    have dep: "length L * 2 ^ length istack < 2 ^ 31" "length R * 2 ^ length istack < 2 ^ 31"
      using less.prems(4) len by (auto elim!: order.strict_trans1[rotated] intro: mult_right_mono)
    note half = half_segment[OF _ less.prems(4)]
    have "midl_sort_loop (c # pre @ seg @ post) l ir istack
        = resume istack (c # pre @ rev (sort L) @ M @ rev (sort R) @ post)"
    proof (cases "length R \<ge> length L")
      case True
      have "midl_sort_loop (c # pre @ L @ (M @ R @ post)) l (j - 1) ((i, ir) # istack)
          = resume ((i, ir) # istack) (c # pre @ rev (sort L) @ (M @ R @ post))"
        by (rule less.hyps) (use len P half[of "length L"] le True less.prems(1) in simp_all)
      moreover have "midl_sort_loop (c # (pre @ rev (sort L) @ M) @ R @ post) i ir istack
          = resume istack (c # (pre @ rev (sort L) @ M) @ rev (sort R) @ post)"
        by (rule less.hyps) (use len P le(3) dep less.prems(2) in simp_all)
      ultimately show ?thesis unfolding round using True by simp
    next
      case False
      have "midl_sort_loop (c # (pre @ L @ M) @ R @ post) i ir ((l, j - 1) # istack)
          = resume ((l, j - 1) # istack) (c # (pre @ L @ M) @ rev (sort R) @ post)"
        by (rule less.hyps) (use len P le(2) half[of "length R"] False less.prems(2) in simp_all)
      moreover have "midl_sort_loop (c # pre @ L @ (M @ rev (sort R) @ post)) l (j - 1) istack
          = resume istack (c # pre @ rev (sort L) @ (M @ rev (sort R) @ post))"
        by (rule less.hyps) (use len P le(1) dep less.prems(1) in simp_all)
      ultimately show ?thesis unfolding round using False by simp
    qed
    then show ?thesis by (simp add: rev_sort_split[OF S])
  qed
qed

lemma midl_sort_sorts:
  assumes "unat c < 2 ^ 31" "unat c \<le> length xs"
  shows "mdb_midl_sort (c # xs) = Some (c # rev (sort (take (unat c) xs)) @ drop (unat c) xs)"
proof -
  have u: "unat (ucast c :: u32) = unat c"
    using assms(1) by (simp add: unsigned_ucast_eq take_bit_nat_eq_self)
  then have "sint (ucast c :: u32) = int (unat c)" using sint_small[of "ucast c"] assms(1)
    by (metis uint_nat)
  then have "nat (sint (ucast c :: u32)) = unat c" by simp
  then show ?thesis
    using midl_sort_loop_segment[of 1 "[]" "unat c" "take (unat c) xs" "[]" c "drop (unat c) xs"] assms
    by (simp add: mdb_midl_sort_def)
qed

end
