(* ===== verification/Indices.thy ===== *)
theory Indices
  imports Db Json_Itoa
begin

text \<open>
  The tool that lists a database (src/src/indices.cpp), as the text it prints:
  \<open>printf\<close> and \<open>std::cout\<close> write to one stream in the order of the calls.
\<close>

subsection \<open>Bytes as text\<close>

definition hexc :: string where
  "hexc = ''0123456789abcdef''"

definition hex :: "byte \<Rightarrow> string" where
  "hex c = (let n = of_char c :: nat in [hexc ! (n div 16), hexc ! (n mod 16)])"

text \<open>\<open>isprint\<close> in the C locale.\<close>

definition isprint :: "byte \<Rightarrow> bool" where
  "isprint c \<longleftrightarrow> 0x20 \<le> (of_char c :: nat) \<and> (of_char c :: nat) \<le> 0x7e"

fun text_of :: "bytes \<Rightarrow> string" where
  "text_of [] = []"
| "text_of (c # cs) = (if isprint c then [c] else CHR 0x5C # hex c) @ text_of cs"

fun hexify :: "bytes \<Rightarrow> string" where
  "hexify [] = []"
| "hexify (c # cs) = hex c @ hexify cs"

subsection \<open>printf and the colours\<close>

text \<open>\<open>%0wd\<close>: zeros between the sign and the digits, up to the width.\<close>

definition zero_padded :: "nat \<Rightarrow> int \<Rightarrow> string" where
  "zero_padded w x =
     (let ds = dec (nat \<bar>x\<bar>); sign = (if x < 0 then ''-'' else '''') in
      sign @ replicate (w - length sign - length ds) (CHR ''0'') @ ds)"

text \<open>\<open>%.*s\<close>: at most \<open>n\<close> bytes, up to a NUL.\<close>

definition precision_string :: "nat \<Rightarrow> bytes \<Rightarrow> string" where
  "precision_string n bs = takeWhile (\<lambda>c. c \<noteq> CHR 0x00) (take n bs)"

definition red :: string where "red = CHR 0x1B # ''[1;31m''"
definition green :: string where "green = CHR 0x1B # ''[1;32m''"
definition yellow :: string where "yellow = CHR 0x1B # ''[1;33m''"
definition blue :: string where "blue = CHR 0x1B # ''[1;34m''"
definition reset :: string where "reset = CHR 0x1B # ''[0m''"

definition newline :: string where "newline = [CHR 0x0A]"

subsection \<open>A key\<close>

text \<open>The bytes of the struct as they lie in memory, without padding between the members.\<close>

definition key_bytes :: "custom_key \<Rightarrow> bytes" where
  "key_bytes k =
     le_bytes 4 (uint (ck_ns k)) @ le_bytes 1 (uint (ck_type k)) @ le_bytes 1 (uint (ck_sort k)) @
     le_bytes 2 (uint (ck_pad k)) @ le_bytes 8 (uint (ck_e k)) @ le_bytes 8 (uint (ck_a k)) @
     le_bytes 8 (uint (ck_t k)) @ ck_v k"

definition sort_name :: "u8 \<Rightarrow> string" where
  "sort_name s =
     (if s = SORT_E then red @ ''E'' @ reset
      else if s = SORT_A then green @ ''A'' @ reset
      else if s = SORT_V then blue @ ''V'' @ reset
      else if s = SORT_T then yellow @ ''T'' @ reset
      else [])"

fun sort_names :: "nat \<Rightarrow> u8 \<Rightarrow> string" where
  "sort_names 0 sorting = []"
| "sort_names (Suc i) sorting = sort_name (sorting AND 3) @ sort_names i (drop_bit 2 sorting)"

definition print_value :: "custom_key \<Rightarrow> string" where
  "print_value ck =
     (if ck_type ck = KEY_MIN_SENTINEL then ''MIN''
      else if ck_type ck = KEY_INTEGER then dec_int (sint (v_i (ck_v ck)))
      else if ck_type ck = KEY_BLOB then
        (if 0 < sint (ck_pad ck) then text_of (take (nat (sint (ck_pad ck) - 1)) (ck_v ck))
         else hexify (take 32 (ck_v ck)))
      else [])"

definition print_custom_key :: "custom_key \<Rightarrow> string" where
  "print_custom_key ck =
     zero_padded 10 (sint (ck_ns ck)) @ '' '' @ zero_padded 2 (sint (ck_pad ck)) @ '' '' @
     (let fields = (\<lambda>tag. tag @ sort_names 4 (ck_sort ck) @ '':'' @
            red @ dec_int (sint (ck_e ck)) @ reset @ '':'' @
            green @ dec_int (sint (ck_a ck)) @ reset @ '':'' @
            blue @ print_value ck @
            reset @ '':'' @ yellow @ dec_int (sint (ck_t ck)) @ reset @ '' '')
      in if ck_type ck = KEY_MIN_SENTINEL then fields ''min:''
         else if ck_type ck = KEY_META then ''M:'' @ precision_string 32 (ck_v ck) @ '' ''
         else if ck_type ck = KEY_INTEGER then fields ''I:''
         else if ck_type ck = KEY_BLOB then fields ''B:''
         else if ck_type ck = KEY_UNIQUE then ''U:'' @ precision_string 32 (ck_v ck) @ '' ''
         else ''invalid key '' @ dec (unat (ck_type ck)) @ newline @
           text_of (key_bytes ck) @ newline @ newline)"

subsection \<open>The dump\<close>

definition dump_entry :: "custom_key \<times> bytes \<Rightarrow> string" where
  "dump_entry kd =
     (let (key, d) = kd; pad = sint (ck_pad key) in
      print_custom_key key @
      (if pad < 0 then text_of (take (nat (int (length d) + pad)) d) else text_of d) @ newline)"

function dump_loop :: "ctxn \<Rightarrow> nat option \<Rightarrow> custom_key \<Rightarrow> string" where
  "dump_loop txn mc key =
     (case mdb_cursor_get cmp txn mc key MDB_NEXT of
        Inl rc \<Rightarrow> []
      | Inr (i, k, d) \<Rightarrow> dump_entry (k, d) @ dump_loop txn (Some i) k)"
  by pat_completeness auto
termination
  by (relation "measure (\<lambda>(txn, mc, key). length (mt_tree txn) - (case mc of None \<Rightarrow> 0 | Some i \<Rightarrow> i + 1))")
    (auto simp: mdb_cursor_get_def Let_def split: if_splits option.splits)

declare dump_loop.simps [simp del]

text \<open>The text printed, and the database after the commit of the read transaction, which leaves it.\<close>

definition dump :: "cenv \<Rightarrow> int list \<Rightarrow> string" where
  "dump env faults =
     (let (rc, txn) = mdb_txn_begin env faults in
      if rc \<noteq> 0 then ''failed to open txn'' @ newline
      else let (rc, txn) = mdb_cursor_open txn in
      if rc \<noteq> 0 then ''failed to open cursor'' @ newline
      else dump_loop txn None zero_key)"

definition indices_main :: "cenv option \<Rightarrow> int list \<Rightarrow> int list \<Rightarrow> int \<times> string" where
  "indices_main arg faults dump_faults =
     (case arg of
        None \<Rightarrow> (1, [])
      | Some env \<Rightarrow>
          (let (rc, env) = open_db env faults in
           if rc \<noteq> 0 then (1, []) else (0, dump env dump_faults)))"

lemma hex_inj: "hex c = hex d \<longleftrightarrow> c = d"
proof
  assume h: "hex c = hex d"
  let ?n = "of_char c :: nat" and ?m = "of_char d :: nat"
  have lt: "?n < 256" "?m < 256" by (rule nat_of_char_less_256)+
  have dist: "distinct hexc" "length hexc = 16" by (simp_all add: hexc_def)
  have "?n div 16 < 16" "?m div 16 < 16"
    using lt by (auto intro: less_mult_imp_div_less)
  moreover have "hexc ! (?n div 16) = hexc ! (?m div 16)" "hexc ! (?n mod 16) = hexc ! (?m mod 16)"
    using h by (simp_all add: hex_def Let_def)
  ultimately have "?n div 16 = ?m div 16" "?n mod 16 = ?m mod 16"
    using dist by (simp_all add: nth_eq_iff_index_eq)
  then have "?n = ?m" by (metis div_mult_mod_eq)
  then show "c = d" by simp
qed simp

lemma length_hex [simp]: "length (hex c) = 2"
  by (simp add: hex_def Let_def)

text \<open>
  The textual listing is ambiguous: a NUL byte and the three characters of its escape are
  listed alike. The hexadecimal one determines the bytes.
\<close>

lemma text_of_ambiguous: "text_of [CHR 0x00] = text_of [CHR 0x5C, CHR ''0'', CHR ''0'']"
  by (simp add: isprint_def hex_def hexc_def)

lemma hexify_inj: "hexify as = hexify bs \<longleftrightarrow> as = bs"
proof (induction as arbitrary: bs)
  case Nil
  then show ?case by (cases bs) (auto simp: hex_def Let_def)
next
  case (Cons a as)
  show ?case
  proof (cases bs)
    case Nil
    then show ?thesis by (simp add: hex_def Let_def)
  next
    case (Cons b bs')
    have "hexify (a # as) = hexify bs \<longleftrightarrow> hex a = hex b \<and> hexify as = hexify bs'"
      by (simp add: Cons)
    then show ?thesis by (simp add: Cons hex_inj Cons.IH)
  qed
qed

lemma text_of_printable: "list_all isprint bs \<Longrightarrow> text_of bs = bs"
  by (induction bs) auto

lemma dump_loop_drop:
  assumes "\<not> mt_error txn"
  shows "dump_loop txn mc key =
    concat (map dump_entry (drop (case mc of None \<Rightarrow> 0 | Some i \<Rightarrow> i + 1) (mt_tree txn)))"
  using assms
proof (induction txn mc key rule: dump_loop.induct)
  case (1 txn mc key)
  define i where "i = (case mc of None \<Rightarrow> 0 | Some i \<Rightarrow> i + 1)"
  show ?case
  proof (cases "i < length (mt_tree txn)")
    case False
    then show ?thesis using 1(2)
      by (subst dump_loop.simps) (simp add: mdb_cursor_get_def i_def[symmetric])
  next
    case True
    obtain k d where kd: "mt_tree txn ! i = (k, d)" by (cases "mt_tree txn ! i")
    have get: "mdb_cursor_get cmp txn mc key MDB_NEXT = Inr (i, k, d)"
      using True 1(2) kd by (simp add: mdb_cursor_get_def i_def[symmetric])
    have "dump_loop txn mc key = dump_entry (k, d) @ dump_loop txn (Some i) k"
      by (subst dump_loop.simps) (simp add: get)
    also have "dump_loop txn (Some i) k = concat (map dump_entry (drop (i + 1) (mt_tree txn)))"
      using 1(1)[OF get refl refl 1(2)] by simp
    also have "dump_entry (k, d) @ \<dots> = concat (map dump_entry (drop i (mt_tree txn)))"
      using True kd by (simp add: Cons_nth_drop_Suc[symmetric])
    finally show ?thesis by (simp add: i_def)
  qed
qed

lemma dump_eq: "dump env [] = concat (map dump_entry (me_tree env))"
  by (simp add: dump_def mdb_txn_begin_def next_fault_def mdb_cursor_open_def dump_loop_drop)

lemma dump_entry_padded:
  assumes "sint (ck_pad k) = - int (length junk)" "junk \<noteq> []"
  shows "dump_entry (k, d @ junk) = print_custom_key k @ text_of d @ newline"
  using assms by (simp add: dump_entry_def)

end
