(* ===== verification/Options.thy ===== *)
theory Options
  imports Json_Itoa
begin

text \<open>
  The command line of the server (the first part of \<open>main\<close> in
  src/src/server.cpp): the options, or the lines printed before it gives up.
\<close>

subsection \<open>atoi\<close>

definition isspace :: "char \<Rightarrow> bool" where
  "isspace c \<longleftrightarrow> (of_char c :: nat) \<in> {9, 10, 11, 12, 13, 32}"

definition isdigit :: "char \<Rightarrow> bool" where
  "isdigit c \<longleftrightarrow> 48 \<le> (of_char c :: nat) \<and> (of_char c :: nat) \<le> 57"

definition atoi_value :: "string \<Rightarrow> nat" where
  "atoi_value ds = foldl (\<lambda>n c. 10 * n + (of_char c - 48)) 0 ds"

text \<open>The library's \<open>atoi\<close>: \<open>strtol\<close>, which saturates at the range of long, cut to an int.\<close>

definition atoi :: "string \<Rightarrow> int" where
  "atoi s =
     (let s = dropWhile isspace s;
          (neg, s) = (case s of c # cs \<Rightarrow> if c = CHR ''-'' then (True, cs)
                        else if c = CHR ''+'' then (False, cs) else (False, s) | [] \<Rightarrow> (False, s));
          n = int (atoi_value (takeWhile isdigit s));
          v = (if neg then max (- (2 ^ 63)) (- n) else min (2 ^ 63 - 1) n)
      in sint (word_of_int v :: u32))"

subsection \<open>The command line of the server\<close>

record options =
  o_port :: i16
  o_readers :: int
  o_sz :: int
  o_dbfile :: "string option"
  o_logfile :: "string option"

definition default_options :: options where
  "default_options = \<lparr>o_port = 4444, o_readers = 8, o_sz = 30, o_dbfile = None, o_logfile = None\<rparr>"

definition display_usage :: "string list" where
  "display_usage =
    [''nstore server'',
     ''usage: nstore [options]'',
     ''options:'',
     ''  --db  <filename>  database file'',
     ''  --log <filename>  log file'',
     ''  --map        <n>  map size (log2n)'',
     ''  --port    <port>  listening port'',
     ''  --readers    <n>  # of reader threads'']"

text \<open>
  The loop over the arguments: the options when it is left by its condition or
  at \<open>--\<close>, the lines printed before \<open>return 1\<close> otherwise.
\<close>

fun parse_args :: "options \<Rightarrow> string list \<Rightarrow> string list + options" where
  "parse_args opts [] = Inr opts"
| "parse_args opts [a] = (if a = ''--'' then Inr opts else Inl display_usage)"
| "parse_args opts (a # v # args) =
     (if a = ''--'' then Inr opts
      else if a = ''--db'' then parse_args (opts\<lparr>o_dbfile := Some v\<rparr>) args
      else if a = ''--port'' then
        (let port = word_of_int (atoi v) :: i16 in
         if 0 < sint port then parse_args (opts\<lparr>o_port := port\<rparr>) args
         else Inl (''invalid port number'' # display_usage))
      else if a = ''--map'' then
        (if 0 < atoi v then parse_args (opts\<lparr>o_sz := atoi v\<rparr>) args
         else Inl (''invalid map size'' # display_usage))
      else if a = ''--log'' then parse_args (opts\<lparr>o_logfile := Some v\<rparr>) args
      else if a = ''--readers'' then
        (if 0 < atoi v then parse_args (opts\<lparr>o_readers := atoi v\<rparr>) args
         else Inl (''invalid number of reader threads'' # display_usage))
      else Inl display_usage)"

definition server_options :: "string list \<Rightarrow> string list + options" where
  "server_options args =
     (case parse_args default_options args of
        Inl out \<Rightarrow> Inl out
      | Inr opts \<Rightarrow>
          if o_dbfile opts = None then Inl (''db filename not specified'' # display_usage)
          else Inr (if 128 < o_readers opts then opts\<lparr>o_readers := 128\<rparr> else opts))"

subsection \<open>What the options are\<close>

definition options_ok :: "options \<Rightarrow> bool" where
  "options_ok opts \<longleftrightarrow> 0 < sint (o_port opts) \<and> 0 < o_readers opts \<and> 0 < o_sz opts \<and> o_sz opts < 2 ^ 31"

lemma atoi_bounds: "- (2 ^ 31) \<le> atoi s" "atoi s < 2 ^ 31"
proof -
  have "- (2 ^ 31) \<le> sint (w :: u32) \<and> sint w < 2 ^ 31" for w
    using sint_greater_eq[of w] sint_less[of w] by simp
  then show "- (2 ^ 31) \<le> atoi s" "atoi s < 2 ^ 31" by (auto simp: atoi_def Let_def split: list.split)
qed

lemma parse_args_ok:
  assumes "options_ok opts" "parse_args opts args = Inr opts'"
  shows "options_ok opts'"
  using assms
  by (induction opts args rule: parse_args.induct)
    (auto simp: options_ok_def Let_def atoi_bounds simp flip: power_numeral split: if_splits)

lemma server_options_ok:
  assumes "server_options args = Inr opts"
  shows "0 < sint (o_port opts) \<and> sint (o_port opts) \<le> 32767 \<and> 1 \<le> o_readers opts \<and> o_readers opts \<le> 128 \<and>
    0 < o_sz opts \<and> o_dbfile opts \<noteq> None"
proof -
  obtain o' where p: "parse_args default_options args = Inr o'" "o_dbfile o' \<noteq> None"
      "opts = (if 128 < o_readers o' then o'\<lparr>o_readers := 128\<rparr> else o')"
    using assms by (auto simp: server_options_def split: sum.splits if_splits)
  have "options_ok default_options" by (simp add: options_ok_def default_options_def)
  from parse_args_ok[OF this p(1)] have ok: "options_ok o'" .
  have "sint w \<le> 32767" for w :: i16 using sint_less[of w] by simp
  then show ?thesis using ok p(2,3) by (simp add: options_ok_def)
qed

lemma isdigit_digit_char: "d < 10 \<Longrightarrow> isdigit (digit_char d) \<and> of_char (digit_char d) - 48 = d"
  by (simp add: isdigit_def digit_char_def)

lemma atoi_value_dec: "atoi_value (dec n) = n \<and> list_all isdigit (dec n)"
proof (induction n rule: dec.induct)
  case (1 n)
  then show ?case
    by (subst (1 2) dec.simps) (auto simp: atoi_value_def isdigit_digit_char)
qed

lemma atoi_dec:
  assumes "n < 2 ^ 31"
  shows "atoi (dec n) = int n"
proof -
  obtain c cs where d: "dec n = c # cs" by (cases "dec n") (auto simp: dec.simps split: if_splits)
  have dig: "list_all isdigit (dec n)" using atoi_value_dec by simp
  then have c: "\<not> isspace c" "c \<noteq> CHR ''-''" "c \<noteq> CHR ''+''"
    by (auto simp: d isdigit_def isspace_def)
  have "takeWhile isdigit (dec n) = dec n" using dig by (metis list_all_iff takeWhile_eq_all_conv)
  then have v: "atoi_value (takeWhile isdigit (dec n)) = n" by (simp only: atoi_value_dec)
  have "sint (word_of_int (int n) :: u32) = int n"
    using assms by (intro sint_word_of_int_32) simp_all
  then show ?thesis using c v assms by (simp add: atoi_def d min_def)
qed


lemma sint_i16_positive:
  "0 < sint (of_nat n :: i16) \<longleftrightarrow> 0 < n mod 65536 \<and> n mod 65536 < 32768"
proof -
  have s: "sint (of_nat n :: i16) = (int n + 32768) mod 65536 - 32768"
    unfolding signed_of_nat signed_take_bit_eq_take_bit_shift take_bit_eq_mod by simp
  show ?thesis
  proof (cases "n mod 65536 < 32768")
    case True
    have "(int n + 32768) mod 65536 = (int (n mod 65536) + 32768) mod 65536"
      by (simp add: zmod_int mod_simps)
    also have "\<dots> = int (n mod 65536) + 32768" using True by (intro mod_pos_pos_trivial) linarith+
    finally show ?thesis using True s by simp
  next
    case False
    have lt: "n mod 65536 < 65536" by simp
    have "(int n + 32768) mod 65536 = (int (n mod 65536) + 32768) mod 65536"
      by (simp add: zmod_int mod_simps)
    also have "\<dots> = (int (n mod 65536) - 32768) mod 65536"
      using mod_add_self2[of "int (n mod 65536) - 32768" 65536] by (simp add: add.commute)
    also have "\<dots> = int (n mod 65536) - 32768" using False lt by (intro mod_pos_pos_trivial) linarith+
    finally show ?thesis using False s lt by simp
  qed
qed

lemma port_option:
  assumes "n < 2 ^ 31"
  shows "server_options [''--db'', f, ''--port'', dec n] =
    (if 0 < n mod 65536 \<and> n mod 65536 < 32768
     then Inr (default_options\<lparr>o_dbfile := Some f, o_port := of_nat n\<rparr>)
     else Inl (''invalid port number'' # display_usage))"
  using assms
  by (simp add: server_options_def atoi_dec sint_i16_positive Let_def default_options_def)

end
