(* ===== verification/Mdb_Cmp.thy ===== *)
theory Mdb_Cmp
  imports Lmdb
begin

text \<open>
  The comparison functions of LMDB itself (lib/liblmdb/mdb.c), which it uses
  for keys that have no function of their own, and the orders they compute. Each
  is an instance of the contract of a comparison function, so that what the
  store promises holds for it too.
\<close>

subsection \<open>The comparison functions\<close>

definition mdb_cmp_long :: "bytes \<Rightarrow> bytes \<Rightarrow> int" where
  "mdb_cmp_long a b =
     (let x = le_int (take 8 a); y = le_int (take 8 b) in
      if x < y then -1 else if x > y then 1 else 0)"

definition mdb_cmp_int :: "bytes \<Rightarrow> bytes \<Rightarrow> int" where
  "mdb_cmp_int a b =
     (let x = le_int (take 4 a); y = le_int (take 4 b) in
      if x < y then -1 else if x > y then 1 else 0)"

text \<open>The pointers \<open>u\<close> and \<open>c\<close> are one offset, as both run down from the size of \<open>a\<close>.\<close>

fun cint_loop :: "bytes \<Rightarrow> bytes \<Rightarrow> nat \<Rightarrow> int" where
  "cint_loop a b u =
     (let u = u - 2; x = le_int (take 2 (drop u a)) - le_int (take 2 (drop u b)) in
      if x = 0 \<and> 0 < u then cint_loop a b u else x)"

declare cint_loop.simps [simp del]

definition mdb_cmp_cint :: "bytes \<Rightarrow> bytes \<Rightarrow> int" where
  "mdb_cmp_cint a b = cint_loop a b (length a)"

definition mdb_cmp_memn :: "bytes \<Rightarrow> bytes \<Rightarrow> int" where
  "mdb_cmp_memn a b =
     (let len = length a;
          len_diff = int (length a) - int (length b);
          (len, len_diff) = (if len_diff > 0 then (length b, 1) else (len, len_diff));
          diff = memcmp (take len a) (take len b)
      in if diff \<noteq> 0 then diff else if len_diff < 0 then -1 else len_diff)"

fun memnr_loop :: "bytes \<Rightarrow> bytes \<Rightarrow> nat \<Rightarrow> nat \<Rightarrow> nat \<Rightarrow> int" where
  "memnr_loop a b p1 p2 p1_lim =
     (if p1_lim < p1 then
        let diff = of_char (a ! (p1 - 1)) - of_char (b ! (p2 - 1)) in
        if diff \<noteq> 0 then diff else memnr_loop a b (p1 - 1) (p2 - 1) p1_lim
      else 0)"

declare memnr_loop.simps [simp del]

definition mdb_cmp_memnr :: "bytes \<Rightarrow> bytes \<Rightarrow> int" where
  "mdb_cmp_memnr a b =
     (let len_diff = int (length a) - int (length b);
          (p1_lim, len_diff) = (if len_diff > 0 then (nat len_diff, 1) else (0, len_diff));
          diff = memnr_loop a b (length a) (length b) p1_lim
      in if diff \<noteq> 0 then diff else if len_diff < 0 then -1 else len_diff)"

subsection \<open>The orders they compute\<close>

lemma sgn_memcmp: "sgn (memcmp a b) = memcmp a b"
  by (induction a b rule: memcmp.induct) auto

lemma ord_of_prefix:
  fixes xs ys :: "'a::linorder list"
  assumes "n = min (length xs) (length ys)" "take n xs = take n ys"
  shows "ord_of xs ys = ord_of (length xs) (length ys)"
proof -
  define zs us vs where "zs = take n xs" and "us = drop n xs" and "vs = drop n ys"
  have z: "xs = zs @ us" "ys = zs @ vs"
    unfolding zs_def us_def vs_def by (simp, metis assms(2) append_take_drop_id)
  have "us = [] \<or> vs = []" unfolding us_def vs_def using assms(1) by auto
  then show ?thesis unfolding z ord_of_append_same length_append
    by (cases us; cases vs) (auto simp: ord_of_def)
qed

lemma byte_ranks_take: "byte_ranks (take n a) = take n (byte_ranks a)"
  by (simp add: byte_ranks_def take_map)

lemma ord_of_take:
  fixes xs ys :: "'a::linorder list"
  assumes "take n xs \<noteq> take n ys" "n \<le> length xs" "n \<le> length ys"
  shows "ord_of xs ys = ord_of (take n xs) (take n ys)"
  using ord_of_append[of "take n xs" "take n ys" "drop n xs" "drop n ys"] assms by simp

lemma memn_lexicographic:
  "sgn (mdb_cmp_memn a b) = ord_of (byte_ranks a) (byte_ranks b)"
proof -
  let ?n = "min (length a) (length b)"
  have m: "mdb_cmp_memn a b = (let diff = memcmp (take ?n a) (take ?n b) in
      if diff \<noteq> 0 then diff else ord_of (length a) (length b))"
    by (auto simp: mdb_cmp_memn_def Let_def ord_of_def min_def)
  have diff: "memcmp (take ?n a) (take ?n b) = ord_of (take ?n (byte_ranks a)) (take ?n (byte_ranks b))"
    by (simp add: memcmp_ord_of byte_ranks_take)
  show ?thesis
  proof (cases "take ?n (byte_ranks a) = take ?n (byte_ranks b)")
    case True
    then show ?thesis unfolding m diff using ord_of_prefix[of ?n "byte_ranks a" "byte_ranks b"]
      by (simp add: ord_of_def)
  next
    case False
    then show ?thesis unfolding m diff using ord_of_take[OF False]
      by (simp add: ord_of_def)
  qed
qed

interpretation memn: comparator mdb_cmp_memn byte_ranks "\<lambda>_. True"
  by unfold_locales (rule memn_lexicographic)


text \<open>\<open>mdb_cmp_memnr\<close> is \<open>mdb_cmp_memn\<close> on the reversed strings.\<close>

lemma memnr_loop_rev:
  assumes "n \<le> length a" "n \<le> length b"
  shows "sgn (memnr_loop a b (length a) (length b) (length a - n)) =
    memcmp (take n (rev a)) (take n (rev b))"
  using assms
proof (induction n arbitrary: a b)
  case 0
  then show ?case by (subst memnr_loop.simps) simp
next
  case (Suc n)
  obtain as x where a: "a = as @ [x]" using Suc.prems(1) by (cases a rule: rev_cases) auto
  obtain bs y where b: "b = bs @ [y]" using Suc.prems(2) by (cases b rule: rev_cases) auto
  have frame: "memnr_loop (as @ [x]) (bs @ [y]) p1 p2 lim = memnr_loop as bs p1 p2 lim"
    if "p1 \<le> length as" "p2 \<le> length bs" "p1 - lim \<le> p2" for p1 p2 lim
    using that
  proof (induction p1 arbitrary: p2)
    case 0
    then show ?case by (subst (1 2) memnr_loop.simps) simp
  next
    case (Suc p1)
    then show ?case by (subst (1 2) memnr_loop.simps) (cases p2, auto simp: nth_append Let_def)
  qed
  have "memnr_loop a b (length a) (length b) (length a - Suc n) =
      (if x = y then memnr_loop as bs (length as) (length bs) (length as - n) else of_char x - of_char y)"
    using Suc.prems frame[of "length as" "length bs" "length as - n"]
    by (subst memnr_loop.simps) (auto simp: a b nth_append Let_def)
  moreover have "(of_char x :: int) < of_char y \<or> x = y \<or> (of_char y :: int) < of_char x"
    by (metis linorder_less_linear of_char_eq_iff)
  ultimately show ?case using Suc.IH[of as bs] Suc.prems by (auto simp: a b)
qed

lemma memnr_memn: "sgn (mdb_cmp_memnr a b) = sgn (mdb_cmp_memn (rev a) (rev b))"
proof -
  let ?n = "min (length a) (length b)"
  have lim: "(if length b < length a then length a - length b else 0) = length a - ?n" by simp
  have nd: "nat (int (length a) - int (length b)) = length a - length b" by linarith
  have 1: "mdb_cmp_memnr a b = (let diff = memnr_loop a b (length a) (length b) (length a - ?n) in
      if diff \<noteq> 0 then diff else ord_of (length a) (length b))"
    unfolding mdb_cmp_memnr_def Let_def lim[symmetric] nd
    by (auto simp: ord_of_def)
  have 2: "mdb_cmp_memn (rev a) (rev b) = (let diff = memcmp (take ?n (rev a)) (take ?n (rev b)) in
      if diff \<noteq> 0 then diff else ord_of (length a) (length b))"
    by (auto simp: mdb_cmp_memn_def Let_def ord_of_def min_def)
  have s: "memcmp (take ?n (rev a)) (take ?n (rev b)) = sgn (memnr_loop a b (length a) (length b) (length a - ?n))"
    by (rule memnr_loop_rev[symmetric]) simp_all
  show ?thesis unfolding 1 2 Let_def s by (simp add: sgn_0_0)
qed

interpretation memnr: comparator mdb_cmp_memnr "\<lambda>a. byte_ranks (rev a)" "\<lambda>_. True"
  by unfold_locales (simp add: memnr_memn memn_lexicographic)

text \<open>The integer comparisons agree with the order of the numbers the keys hold.\<close>

lemma le_int_append: "le_int (as @ bs) = le_int as + 256 ^ length as * le_int bs"
  by (induction as) (auto simp: algebra_simps)

lemma le_int_split: "n \<le> length a \<Longrightarrow> le_int a = le_int (take n a) + 256 ^ n * le_int (drop n a)"
  using le_int_append[of "take n a" "drop n a"] by simp

lemma ord_of_scaled:
  fixes x y u v m :: int
  assumes "0 \<le> x" "x < m" "0 \<le> y" "y < m"
  shows "ord_of (x + m * u) (y + m * v) = (if u \<noteq> v then ord_of u v else ord_of x y)"
proof (cases u v rule: linorder_cases)
  case less
  then have "m * (u + 1) \<le> m * v" using assms by (intro mult_left_mono) auto
  then show ?thesis using less assms by (simp add: ord_of_def algebra_simps)
next
  case greater
  then have "m * (v + 1) \<le> m * u" using assms by (intro mult_left_mono) auto
  then show ?thesis using greater assms by (simp add: ord_of_def algebra_simps)
qed (simp add: ord_of_def)

lemma cint_loop_ord:
  assumes "u \<le> length a" "u \<le> length b" "even u" "0 < u"
  shows "sgn (cint_loop a b u) = ord_of (le_int (take u a)) (le_int (take u b))"
  using assms
proof (induction u rule: less_induct)
  case (less u)
  define w where "w = u - 2"
  have u: "u = w + 2" "even w" using less.prems by (auto simp: w_def elim: evenE)
  let ?x = "le_int (take 2 (drop w a))" and ?y = "le_int (take 2 (drop w b))"
  have split: "le_int (take u c) = le_int (take w c) + 256 ^ w * le_int (take 2 (drop w c))"
    if "u \<le> length c" for c
    using le_int_split[of w "take u c"] that u by (simp add: drop_take min_def)
  have b: "0 \<le> le_int (take w c)" "le_int (take w c) < 256 ^ w" if "u \<le> length c" for c
    using le_int_bounds[of "take w c"] that u by (simp_all add: min_def)
  have o: "ord_of (le_int (take u a)) (le_int (take u b)) =
      (if ?x \<noteq> ?y then ord_of ?x ?y else ord_of (le_int (take w a)) (le_int (take w b)))"
    unfolding split[OF less.prems(1)] split[OF less.prems(2)]
    by (rule ord_of_scaled) (use b less.prems in auto)
  have l: "cint_loop a b u = (if ?x - ?y = 0 \<and> 0 < w then cint_loop a b w else ?x - ?y)"
    by (subst cint_loop.simps) (simp add: w_def Let_def)
  show ?case
  proof (cases "?x = ?y \<and> 0 < w")
    case True
    then have "sgn (cint_loop a b w) = ord_of (le_int (take w a)) (le_int (take w b))"
      using less.IH[of w] less.prems u by simp
    then show ?thesis unfolding o l using True by simp
  next
    case False
    then show ?thesis unfolding o l by (auto simp: ord_of_def sgn_if)
  qed
qed

lemma cint_numeric:
  assumes "length a = length b" "even (length a)" "a \<noteq> []"
  shows "sgn (mdb_cmp_cint a b) = ord_of (le_int a) (le_int b)"
  using cint_loop_ord[of "length a" a b] assms by (cases b) (simp_all add: mdb_cmp_cint_def)

interpretation cint: comparator mdb_cmp_cint le_int "\<lambda>k. length k = 8"
  by unfold_locales (rule cint_numeric, auto)

interpretation clong: comparator mdb_cmp_long "\<lambda>k. le_int (take 8 k)" "\<lambda>_. True"
  by unfold_locales (simp add: mdb_cmp_long_def ord_of_def)

interpretation cmpint: comparator mdb_cmp_int "\<lambda>k. le_int (take 4 k)" "\<lambda>_. True"
  by unfold_locales (simp add: mdb_cmp_int_def ord_of_def)

end
