(* ===== verification/Mdb_Alloc.thy ===== *)
theory Mdb_Alloc
  imports Mdb_Btree Mdb_Page Mdb_Cmp
begin

text \<open>
  The allocation of pages in a write transaction (lib/liblmdb/mdb.c): the oldest
  reader, the list of dirty pages, the search for a run of free pages, and the
  records of the free-page database that are merged into the list as long as no
  reader can see the pages they free.

  The program opens the environment with \<open>MDB_WRITEMAP\<close>, without nested
  transactions: a page is its place in the map, so it is named by its number, and
  the branches for pages copied to the heap are left out. The loose pages, which the
  code links through the pages themselves, are a list. \<open>None\<close> is a failed
  assertion, an access out of bounds, or the fuel of the loop used up.
\<close>

subsection \<open>Pages in the map\<close>

definition MDB_TXN_FULL :: int where [simp]: "MDB_TXN_FULL = -30788"
definition MDB_MAP_FULL :: int where [simp]: "MDB_MAP_FULL = -30792"
definition P_LOOSE :: u16 where [simp]: "P_LOOSE = 0x4000"
definition FREE_DBI :: nat where "FREE_DBI = 0"

record MDB_reader =
  mr_pid :: int
  mr_txnid :: u64

record wtxn =
  me_txns :: "MDB_reader list option"
  me_pghead :: "mdb_idl option"
  me_pglast :: u64
  me_pgoldest :: u64
  me_maxpg :: mdb_id
  me_psize :: nat
  w_map :: "mdb_id \<Rightarrow> bytes"
  w_txnid :: u64
  w_next_pgno :: mdb_id
  w_free_pgs :: mdb_idl
  w_spill_pgs :: "mdb_idl option"
  w_dirty :: "mdb_id mdb_id2 list"
  w_dirty_room :: nat
  w_loose_pgs :: "mdb_id list"
  w_loose_count :: int
  w_roots :: "nat \<Rightarrow> mdb_id"
  w_error :: bool
  w_spills :: bool

text \<open>The fields of the page header: page number, flags, lower and upper bound, offsets.\<close>

definition pg_pgno :: "bytes \<Rightarrow> mdb_id" where
  "pg_pgno bs = word_of_int (le_int (chunk 0 8 bs))"

definition set_pgno :: "mdb_id \<Rightarrow> bytes \<Rightarrow> bytes" where
  "set_pgno pgno bs = memcpy_at bs 0 (le_bytes 8 (uint pgno))"

definition pg_flags :: "bytes \<Rightarrow> u16" where
  "pg_flags bs = of_nat (u16_at bs 10)"

definition set_flags :: "u16 \<Rightarrow> bytes \<Rightarrow> bytes" where
  "set_flags f bs = set_u16 bs 10 (unat f)"

definition pg_lower :: "bytes \<Rightarrow> nat" where
  "pg_lower bs = u16_at bs 12"

definition pg_upper :: "bytes \<Rightarrow> nat" where
  "pg_upper bs = u16_at bs 14"

definition NODEPTR :: "bytes \<Rightarrow> nat \<Rightarrow> nat" where
  "NODEPTR bs i = u16_at bs (PAGEHDRSZ + 2 * i)"

definition page_offsets :: "bytes \<Rightarrow> nat list" where
  "page_offsets bs = map (NODEPTR bs) [0..<(pg_lower bs - PAGEHDRSZ) div 2]"

text \<open>The bytes of the node at an offset, and a page as the cursors see it.\<close>

definition node_bytes :: "bytes \<Rightarrow> nat \<Rightarrow> bytes" where
  "node_bytes bs ofs =
     chunk ofs (NODESIZE + NODEKSZ bs ofs + (if odd (mn_flags bs ofs) then 8 else NODEDSZ bs ofs)) bs"

definition read_page :: "bytes \<Rightarrow> (bytes, bytes) MDB_page" where
  "read_page bs = \<lparr>mp_pgno = pg_pgno bs,
     mp_nodes =
       (if pg_flags bs AND P_BRANCH = P_BRANCH
        then Branch (map (\<lambda>ofs. (NODEKEY bs ofs, of_nat (NODEPGNO bs ofs))) (page_offsets bs))
        else if pg_flags bs AND P_LEAF = P_LEAF
        then Leaf (map (\<lambda>ofs. (NODEKEY bs ofs, node_bytes bs ofs)) (page_offsets bs))
        else OtherPage)\<rparr>"

text \<open>The tree of a database in the map: \<open>MDB_TXN_WRITEMAP\<close> makes \<open>mdb_page_get\<close> read the map.\<close>

definition map_view :: "wtxn \<Rightarrow> nat \<Rightarrow> (bytes, bytes) page_txn" where
  "map_view txn dbi = \<lparr>pt_rdonly = True, pt_levels = [], mt_next_pgno = w_next_pgno txn,
     me_map = (\<lambda>pgno. read_page (w_map txn pgno)), md_root = w_roots txn dbi\<rparr>"

definition overflow_data :: "wtxn \<Rightarrow> nat \<Rightarrow> int + bytes" where
  "overflow_data txn pg =
     (if unat (w_next_pgno txn) \<le> pg then Inl MDB_PAGE_NOTFOUND
      else Inr (drop PAGEHDRSZ
        (concat (map (\<lambda>i. w_map txn (of_nat (pg + i)))
          [0..<nat (le_int (chunk 12 4 (w_map txn (of_nat pg))))]))))"

definition leaf_data :: "wtxn \<Rightarrow> bytes \<Rightarrow> int + bytes" where
  "leaf_data txn leaf = mdb_node_read (overflow_data txn) leaf 0"

subsection \<open>The oldest reader\<close>

fun oldest_loop :: "MDB_reader list \<Rightarrow> nat \<Rightarrow> u64 \<Rightarrow> u64" where
  "oldest_loop r 0 oldest = oldest"
| "oldest_loop r (Suc i) oldest =
     oldest_loop r i
       (if mr_pid (r ! i) \<noteq> 0 then
          (let mr = mr_txnid (r ! i) in if oldest > mr then mr else oldest)
        else oldest)"

definition mdb_find_oldest :: "wtxn \<Rightarrow> u64" where
  "mdb_find_oldest txn =
     (let oldest = w_txnid txn - 1 in
      case me_txns txn of None \<Rightarrow> oldest | Some r \<Rightarrow> oldest_loop r (length r) oldest)"

subsection \<open>Dirty and loose pages\<close>

definition mdb_page_dirty :: "mdb_id \<Rightarrow> wtxn \<Rightarrow> wtxn option" where
  "mdb_page_dirty mp txn =
     (let (rc, dl) = mdb_mid2l_append (w_dirty txn) \<lparr>mid = pg_pgno (w_map txn mp), mptr = mp\<rparr> in
      if rc \<noteq> 0 then None
      else Some (txn\<lparr>w_dirty := dl, w_dirty_room := w_dirty_room txn - 1\<rparr>))"

definition mdb_page_loose :: "allocator \<Rightarrow> nat \<Rightarrow> mdb_id \<Rightarrow> wtxn \<Rightarrow> int \<times> wtxn" where
  "mdb_page_loose malloc dbi mp txn =
     (let pgno = pg_pgno (w_map txn mp); flags = pg_flags (w_map txn mp) in
      if flags AND P_DIRTY \<noteq> 0 \<and> dbi \<noteq> FREE_DBI then
        (MDB_SUCCESS, txn\<lparr>w_loose_pgs := mp # w_loose_pgs txn, w_loose_count := w_loose_count txn + 1,
           w_map := (w_map txn)(mp := set_flags (flags OR P_LOOSE) (w_map txn mp))\<rparr>)
      else
        (let (rc, ids) = mdb_midl_append malloc (w_free_pgs txn) pgno in (rc, txn\<lparr>w_free_pgs := ids\<rparr>)))"

subsection \<open>The search for a run of free pages\<close>

text \<open>The block of \<open>me_pghead\<close> from its count on, and the count.\<close>

definition pghead_ids :: "wtxn \<Rightarrow> mdb_id list" where
  "pghead_ids txn = (case me_pghead txn of None \<Rightarrow> [] | Some b \<Rightarrow> tl b)"

definition pghead_len :: "wtxn \<Rightarrow> nat" where
  "pghead_len txn = (case me_pghead txn of None \<Rightarrow> 0 | Some b \<Rightarrow> unat (b ! 1))"

fun seek_run :: "mdb_id list \<Rightarrow> nat \<Rightarrow> nat \<Rightarrow> nat option" where
  "seek_run mop n2 i =
     (if mop ! (i - n2) = mop ! i + of_nat n2 then Some i
      else if i - 1 > n2 then seek_run mop n2 (i - 1) else None)"

declare seek_run.simps [simp del]

text \<open>Moving the IDs above the run down.\<close>

function stragglers :: "mdb_id list \<Rightarrow> nat \<Rightarrow> nat \<Rightarrow> nat \<Rightarrow> mdb_id list" where
  "stragglers mop j i mop_len =
     (if j < mop_len then stragglers (mop[j + 1 := mop ! (i + 1)]) (j + 1) (i + 1) mop_len else mop)"
  by pat_completeness auto
termination
  by (relation "measure (\<lambda>(mop, j, i, mop_len). mop_len - j)") auto

declare stragglers.simps [simp del]

subsection \<open>The records of the free-page database\<close>

datatype fetch = Fetch_First | Fetch_Range | Fetch_Next

fun idl_words :: "bytes \<Rightarrow> mdb_id list" where
  "idl_words bs = (if length bs < 8 then [] else word_of_int (le_int (take 8 bs)) # idl_words (drop 8 bs))"

declare idl_words.simps [simp del]

type_synonym free_cursor = "(bytes, bytes) MDB_cursor"

text \<open>\<open>mdb_cursor_get (&m2, &key, NULL, op)\<close>: without a place for the data nothing is read.\<close>

definition free_get :: "wtxn \<Rightarrow> fetch \<Rightarrow> u64 \<Rightarrow> free_cursor \<Rightarrow> (bytes, bytes) cursor_result" where
  "free_get txn op last_id m2 =
     (let view = map_view txn FREE_DBI in
      if mc_error m2 then Some (Inl MDB_BAD_TXN, m2)
      else case op of
        Fetch_First \<Rightarrow> mdb_cursor_first mdb_cmp_long view (\<lambda>_. Inr []) m2
      | Fetch_Range \<Rightarrow> mdb_cursor_set mdb_cmp_long view (\<lambda>_. Inr []) False (le_bytes 8 (uint last_id)) m2
      | Fetch_Next \<Rightarrow> mdb_cursor_next mdb_cmp_long view (\<lambda>_. Inr []) m2)"

text \<open>The node the cursor is on, read by \<open>mdb_node_read\<close>.\<close>

definition free_record :: "wtxn \<Rightarrow> free_cursor \<Rightarrow> (int + mdb_id list) option" where
  "free_record txn m2 =
     (case mp_nodes (top_page m2) of
        Leaf es \<Rightarrow>
          if \<not> top_ki m2 < length es then None
          else Some (case leaf_data txn (snd (es ! top_ki m2)) of Inl rc \<Rightarrow> Inl rc | Inr bs \<Rightarrow> Inr (idl_words bs))
      | _ \<Rightarrow> None)"

text \<open>The check that a record is not too recent: the oldest reader is looked up once.\<close>

definition look_oldest :: "u64 \<Rightarrow> u64 \<Rightarrow> bool \<Rightarrow> wtxn \<Rightarrow> u64 \<times> bool \<times> wtxn" where
  "look_oldest last_id oldest found_old txn =
     (if oldest \<le> last_id \<and> \<not> found_old
      then (let oldest = mdb_find_oldest txn in (oldest, True, txn\<lparr>me_pgoldest := oldest\<rparr>))
      else (oldest, found_old, txn))"

text \<open>Room for a record in \<open>me_pghead\<close>, and the record merged into it.\<close>

definition merge_record :: "allocator \<Rightarrow> u64 \<Rightarrow> mdb_id list \<Rightarrow> wtxn \<Rightarrow> (int + wtxn) option" where
  "merge_record malloc last_id idl txn =
     (case (case me_pghead txn of
              None \<Rightarrow> (case mdb_midl_alloc malloc (unat (ucast (idl ! 0) :: u32)) of
                  None \<Rightarrow> (ENOMEM, None) | Some b \<Rightarrow> (0, Some b))
            | Some b \<Rightarrow> (let (rc, b) = mdb_midl_need malloc b (ucast (idl ! 0)) in (rc, Some b))) of
        (rc, head) \<Rightarrow>
          if rc \<noteq> 0 then Some (Inl rc)
          else
            (case mdb_midl_xmerge (tl (the head)) idl of
               None \<Rightarrow> None
             | Some mop \<Rightarrow> Some (Inr (txn\<lparr>me_pghead := Some (the head ! 0 # mop), me_pglast := last_id\<rparr>))))"

text \<open>
  One more record: the loop ends because the next record is too recent or there is none,
  with an error, or the record is merged and the loop goes on.
\<close>

type_synonym alloc_result = "(int + nat) \<times> wtxn"
type_synonym alloc_vars = "u64 \<times> u64 \<times> bool \<times> free_cursor \<times> wtxn"

definition fetch_record ::
  "allocator \<Rightarrow> fetch \<Rightarrow> u64 \<Rightarrow> u64 \<Rightarrow> bool \<Rightarrow> free_cursor \<Rightarrow> wtxn \<Rightarrow> (alloc_result + alloc_vars) option" where
  "fetch_record malloc op last_id oldest found_old m2 txn =
     (let last_id = last_id + 1;
          (oldest, found_old, txn) = look_oldest last_id oldest found_old txn
      in if oldest \<le> last_id then Some (Inl (Inr 0, txn))
      else
        (case free_get txn op last_id m2 of
           None \<Rightarrow> None
         | Some (Inl rc, m2) \<Rightarrow> Some (Inl (if rc = MDB_NOTFOUND then Inr 0 else Inl rc, txn))
         | Some (Inr (key, _), m2) \<Rightarrow>
             (let last_id = word_of_int (le_int (take 8 key));
                  (oldest, found_old, txn) = look_oldest last_id oldest found_old txn
              in if oldest \<le> last_id then Some (Inl (Inr 0, txn))
              else
                (case free_record txn m2 of
                   None \<Rightarrow> None
                 | Some (Inl rc) \<Rightarrow> Some (Inl (Inl rc, txn))
                 | Some (Inr idl) \<Rightarrow>
                     (case merge_record malloc last_id idl txn of
                        None \<Rightarrow> None
                      | Some (Inl rc) \<Rightarrow> Some (Inl (Inl rc, txn))
                      | Some (Inr txn) \<Rightarrow> Some (Inr (last_id, oldest, found_old, m2, txn)))))))"

text \<open>
  The loop of \<open>mdb_page_alloc\<close>: the index of a run in \<open>me_pghead\<close>, 0 when new pages
  have to be used, or an error.
\<close>

fun alloc_loop ::
  "allocator \<Rightarrow> nat \<Rightarrow> nat \<Rightarrow> fetch \<Rightarrow> int \<Rightarrow> u64 \<Rightarrow> u64 \<Rightarrow> bool \<Rightarrow> free_cursor \<Rightarrow> wtxn \<Rightarrow> alloc_result option" where
  "alloc_loop malloc 0 num op retry last_id oldest found_old m2 txn = None"
| "alloc_loop malloc (Suc n) num op retry last_id oldest found_old m2 txn =
     (let n2 = num - 1; mop_len = pghead_len txn in
      case (if mop_len > n2 then seek_run (pghead_ids txn) n2 mop_len else None) of
        Some i \<Rightarrow> Some (Inr i, txn)
      | None \<Rightarrow>
          (let retry = (if mop_len > n2 then retry - 1 else retry) in
           if mop_len > n2 \<and> retry < 0 then Some (Inr 0, txn)
           else
             (let (op, last_id, oldest) =
                    (if op = Fetch_First
                     then (if me_pglast txn \<noteq> 0 then Fetch_Range else Fetch_First, me_pglast txn, me_pgoldest txn)
                     else (op, last_id, oldest))
              in case fetch_record malloc op last_id oldest found_old m2 txn of
                   None \<Rightarrow> None
                 | Some (Inl res) \<Rightarrow> Some res
                 | Some (Inr (last_id, oldest, found_old, m2, txn)) \<Rightarrow>
                     alloc_loop malloc n num Fetch_Next retry last_id oldest found_old m2 txn)))"

declare alloc_loop.simps(2) [simp del]

text \<open>The label \<open>search_done\<close>: the run leaves the list, or the end of the file moves.\<close>

definition search_done :: "nat \<Rightarrow> nat \<Rightarrow> wtxn \<Rightarrow> (mdb_id \<times> wtxn) option" where
  "search_done num i txn =
     (let pgno = (if i \<noteq> 0 then pghead_ids txn ! i else w_next_pgno txn);
          txn = (if i \<noteq> 0 then
              (let mop = pghead_ids txn; mop_len = pghead_len txn - num;
                   mop = mop[0 := of_nat mop_len]
               in txn\<lparr>me_pghead := Some (the (me_pghead txn) ! 0 # stragglers mop (i - num) i mop_len)\<rparr>)
            else txn\<lparr>w_next_pgno := pgno + of_nat num\<rparr>);
          txn = txn\<lparr>w_map := (w_map txn)(pgno := set_pgno pgno (w_map txn pgno))\<rparr>
      in map_option (Pair pgno) (mdb_page_dirty pgno txn))"

definition page_alloc_free :: "allocator \<Rightarrow> nat \<Rightarrow> nat \<Rightarrow> wtxn \<Rightarrow> ((int + mdb_id) \<times> wtxn) option" where
  "page_alloc_free malloc fuel num txn =
     (if w_dirty_room txn = 0 then Some (Inl MDB_TXN_FULL, txn\<lparr>w_error := True\<rparr>)
      else
        (case alloc_loop malloc fuel num Fetch_First (int num * 60) 0 0 False new_cursor txn of
           None \<Rightarrow> None
         | Some (Inl rc, txn) \<Rightarrow> Some (Inl rc, txn\<lparr>w_error := True\<rparr>)
         | Some (Inr i, txn) \<Rightarrow>
             if i = 0 \<and> w_next_pgno txn + of_nat num \<ge> me_maxpg txn
             then Some (Inl MDB_MAP_FULL, txn\<lparr>w_error := True\<rparr>)
             else map_option (\<lambda>(pgno, txn). (Inr pgno, txn)) (search_done num i txn)))"

definition mdb_page_alloc :: "allocator \<Rightarrow> nat \<Rightarrow> nat \<Rightarrow> wtxn \<Rightarrow> ((int + mdb_id) \<times> wtxn) option" where
  "mdb_page_alloc malloc fuel num txn =
     (if num = 1 \<and> w_loose_pgs txn \<noteq> []
      then Some (Inr (hd (w_loose_pgs txn)),
        txn\<lparr>w_loose_pgs := tl (w_loose_pgs txn), w_loose_count := w_loose_count txn - 1\<rparr>)
      else page_alloc_free malloc fuel num txn)"

subsection \<open>The oldest reader is the minimum\<close>

definition snapshots :: "wtxn \<Rightarrow> u64 set" where
  "snapshots txn = insert (w_txnid txn - 1)
     (case me_txns txn of None \<Rightarrow> {} | Some r \<Rightarrow> mr_txnid ` {x \<in> set r. mr_pid x \<noteq> 0})"

lemma oldest_loop_Min:
  "i \<le> length r \<Longrightarrow> oldest_loop r i old = Min (insert old (mr_txnid ` {x \<in> set (take i r). mr_pid x \<noteq> 0}))"
proof (induction i arbitrary: old)
  case (Suc i)
  let ?A = "\<lambda>i. mr_txnid ` {x \<in> set (take i r). mr_pid x \<noteq> 0}"
  have A: "?A (Suc i) = (if mr_pid (r ! i) \<noteq> 0 then insert (mr_txnid (r ! i)) (?A i) else ?A i)"
    using Suc.prems by (auto simp: take_Suc_conv_app_nth)
  have fin: "finite (?A i)" by simp
  have step: "Min (insert (min m old) A) = Min (insert old (insert m A))"
    if "finite A" for A and m :: u64
    using that by (cases "A = {}") (simp_all add: min.assoc min.left_commute min.commute)
  have "oldest_loop r (Suc i) old =
      oldest_loop r i (if mr_pid (r ! i) \<noteq> 0 then min (mr_txnid (r ! i)) old else old)"
    by (auto simp: Let_def min_def)
  then show ?case using Suc step[OF fin] unfolding A by simp
qed simp

lemma find_oldest_Min: "mdb_find_oldest txn = Min (snapshots txn)"
  by (simp add: mdb_find_oldest_def snapshots_def Let_def oldest_loop_Min split: option.split)

lemma find_oldest_le: "t \<in> snapshots txn \<Longrightarrow> mdb_find_oldest txn \<le> t"
  unfolding find_oldest_Min by (rule Min_le) (simp_all add: snapshots_def split: option.split)

subsection \<open>Runs of pages\<close>

lemma seek_run_Some:
  assumes "seek_run mop n2 i = Some k" "n2 < i"
  shows "n2 < k \<and> k \<le> i \<and> mop ! (k - n2) = mop ! k + of_nat n2"
  using assms
proof (induction mop n2 i rule: seek_run.induct)
  case (1 mop n2 i)
  then show ?case using seek_run.simps[of mop n2 i]
    by (cases "mop ! (i - n2) = mop ! i + of_nat n2"; cases "n2 < i - 1") auto
qed

abbreviation falling :: "mdb_id list \<Rightarrow> bool" where
  "falling \<equiv> sorted_wrt (\<lambda>x y. y < x)"

lemma falling_drop:
  assumes "falling L" "a + n < length L"
  shows "unat (L ! (a + n)) + n \<le> unat (L ! a)"
  using assms(2)
proof (induction n)
  case (Suc n)
  have "L ! (a + Suc n) < L ! (a + n)"
    using assms(1) Suc.prems by (simp add: sorted_wrt_iff_nth_less)
  then have "unat (L ! (a + Suc n)) < unat (L ! (a + n))" by (simp add: word_less_nat_alt)
  then show ?case using Suc by simp
qed simp

text \<open>In a list without repetitions the ends of a run determine what is between them.\<close>

lemma falling_run:
  assumes L: "falling L" "a + n < length L" and run: "L ! a = L ! (a + n) + of_nat n" and k: "k \<le> n"
  shows "L ! (a + n - k) = L ! (a + n) + of_nat k" "unat (L ! (a + n)) + n < 2 ^ 64"
proof -
  have le: "unat (L ! (a + n)) + n \<le> unat (L ! a)" by (rule falling_drop[OF L])
  moreover have "unat (L ! a) < 2 ^ 64" using unsigned_less[of "L ! a"] by simp
  ultimately show small: "unat (L ! (a + n)) + n < 2 ^ 64" by linarith
  then have top: "unat (L ! a) = unat (L ! (a + n)) + n" unfolding run by (simp add: unat_add_small)
  have "unat (L ! (a + n)) + k \<le> unat (L ! (a + n - k))" "unat (L ! (a + n - k)) + (n - k) \<le> unat (L ! a)"
    using falling_drop[OF L(1), of "a + n - k" k] falling_drop[OF L(1), of a "n - k"] L(2) k by simp_all
  then have "unat (L ! (a + n - k)) = unat (L ! (a + n)) + k" using top k by linarith
  then show "L ! (a + n - k) = L ! (a + n) + of_nat k"
    using small k by (simp add: word_unat_eq_iff unat_add_small)
qed

lemma stragglers_length [simp]: "length (stragglers mop j i n) = length mop"
  by (induction mop j i n rule: stragglers.induct) (subst stragglers.simps, simp)

lemma stragglers_nth:
  assumes "j \<le> i" "i + (n - j) < length mop" "k < length mop"
  shows "stragglers mop j i n ! k = (if j < k \<and> k \<le> n then mop ! (k + i - j) else mop ! k)"
  using assms
proof (induction mop j i n rule: stragglers.induct)
  case (1 mop j i n)
  show ?case
  proof (cases "j < n")
    case False
    then show ?thesis by (subst stragglers.simps) auto
  next
    case True
    then have "stragglers mop j i n ! k = (if j + 1 < k \<and> k \<le> n then mop[j + 1 := mop ! (i + 1)] ! (k + i - j)
        else mop[j + 1 := mop ! (i + 1)] ! k)"
      using 1 by (subst stragglers.simps) auto
    moreover have "mop[j + 1 := mop ! (i + 1)] ! (k + i - j) = mop ! (k + i - j)" if "j + 1 < k"
      using that 1(2) by simp
    ultimately show ?thesis using 1(2-4) True
      by (cases "k = j + 1") (auto simp: nth_list_update)
  qed
qed

text \<open>Taking the run that ends at position \<open>i\<close> out of the block.\<close>

lemma stragglers_block:
  assumes "num \<le> i" "i \<le> n" "n \<le> length xs"
  shows "of_nat (length xs) # stragglers (tl ((block n xs)[1 := of_nat (n - num)])) (i - num) i (n - num) =
    block (n - num) (take (i - num) xs @ take (n - i) (drop i xs) @ drop (n - num) xs)"
proof (rule nth_equalityI)
  let ?mop = "of_nat (n - num) # xs"
  have blk: "tl ((block n xs)[1 := of_nat (n - num)]) = ?mop" by (simp add: block_def)
  show "length (of_nat (length xs) # stragglers (tl ((block n xs)[1 := of_nat (n - num)])) (i - num) i (n - num)) =
      length (block (n - num) (take (i - num) xs @ take (n - i) (drop i xs) @ drop (n - num) xs))"
    using assms by (simp add: blk block_def)
  fix k
  assume "k < length (of_nat (length xs) # stragglers (tl ((block n xs)[1 := of_nat (n - num)])) (i - num) i (n - num))"
  then have k: "k < Suc (length ?mop)" by (simp add: blk)
  have "stragglers ?mop (i - num) i (n - num) ! (k - 1) =
      (if i - num < k - 1 \<and> k - 1 \<le> n - num then ?mop ! (k - 1 + num) else ?mop ! (k - 1))" if "0 < k"
    using stragglers_nth[of "i - num" i "n - num" ?mop "k - 1"] assms k that by auto
  moreover have "length (take (i - num) xs) = i - num" "length (take (n - i) (drop i xs)) = n - i" using assms by simp_all
  ultimately show "(of_nat (length xs) # stragglers (tl ((block n xs)[1 := of_nat (n - num)])) (i - num) i (n - num)) ! k =
      block (n - num) (take (i - num) xs @ take (n - i) (drop i xs) @ drop (n - num) xs) ! k"
    using assms k unfolding blk block_def
    by (cases k) (auto simp: nth_Cons nth_append split: nat.split)
qed

subsection \<open>The list of free pages\<close>

definition head_list :: "wtxn \<Rightarrow> mdb_id list" where
  "head_list txn = (case me_pghead txn of None \<Rightarrow> [] | Some b \<Rightarrow> midl_list b)"

definition head_ok :: "wtxn \<Rightarrow> bool" where
  "head_ok txn \<longleftrightarrow> (case me_pghead txn of None \<Rightarrow> True | Some b \<Rightarrow> midl_inv b) \<and> falling (head_list txn)"

lemma falling_sort: "distinct xs \<Longrightarrow> falling (rev (sort xs))"
  by (simp add: sorted_wrt_rev sorted_sort strict_sorted_iff)

lemma falling_descending: "falling xs \<Longrightarrow> descending xs"
  by (auto elim!: sorted_wrt_mono_rel[rotated])

lemma falling_distinct: "falling xs \<Longrightarrow> distinct xs"
  by (induction xs) auto

lemma xmerge_block:
  assumes "n + length ids \<le> length xs" "length xs + 2 < 2 ^ 60" "falling (take n xs)" "falling ids"
    "idl = of_nat (length ids) # ids @ rest"
  shows "\<exists>xs'. mdb_midl_xmerge (tl (block n xs)) idl = Some (tl (block (n + length ids) xs')) \<and> length xs' = length xs \<and>
    take (n + length ids) xs' = rev (sort (take n xs @ ids))"
proof -
  define ys where "ys = take n xs"
  have xs: "tl (block n xs) = of_nat (length ys) # ys @ take (length ids) (drop n xs) @ drop (n + length ids) xs"
    using assms(1) by (simp add: block_def ys_def min_absorb2 flip: drop_drop append_take_drop_id)
       (metis append_take_drop_id drop_drop add.commute)
  have m: "unat (idl ! 0) = length ids" "take (length ids) (tl idl) = ids" using assms(1,2,5) by simp_all
  have "mdb_midl_xmerge (of_nat (length ys) # ys @ take (length ids) (drop n xs) @ drop (n + length ids) xs) idl =
      Some (of_nat (length ys + unat (idl ! 0)) # rev (sort (ys @ take (unat (idl ! 0)) (tl idl))) @ drop (n + length ids) xs)"
    using assms m by (intro xmerge_sorts) (auto simp: ys_def intro: falling_descending)
  then have "mdb_midl_xmerge (tl (block n xs)) idl =
      Some (tl (block (n + length ids) (rev (sort (ys @ ids)) @ drop (n + length ids) xs)))"
    unfolding xs m using assms(1) by (simp add: block_def ys_def min_absorb2)
  then show ?thesis using assms(1) by (auto simp: ys_def min_absorb2)
qed

lemma merge_record_spec:
  assumes malloc: "malloc_ok malloc" and h: "head_ok txn"
    and ids: "idl = of_nat (length ids) # ids @ rest" "falling ids" "length (head_list txn) + length ids < 2 ^ 31"
  shows "merge_record malloc t idl txn = Some (Inl ENOMEM) \<and> (\<exists>n. malloc n = None) \<or>
    (\<exists>b. merge_record malloc t idl txn = Some (Inr (txn\<lparr>me_pghead := Some b, me_pglast := t\<rparr>)) \<and>
      midl_inv b \<and> midl_list b = rev (sort (head_list txn @ ids)))"
proof -
  have u: "unat (ucast (idl ! 0) :: u32) = length ids"
    using ids by (simp add: unsigned_ucast_eq take_bit_nat_eq_self)
  have merged: "\<exists>b'. mdb_midl_xmerge (tl b) idl = Some (tl b') \<and> b' ! 0 = b ! 0 \<and> b' \<noteq> [] \<and> midl_inv b' \<and>
      midl_list b' = rev (sort (midl_list b @ ids))"
    if b: "midl_inv b" "falling (midl_list b)" "unat (b ! 1) + length ids \<le> unat (b ! 0)" for b
  proof -
    obtain n xs where blk: "b = block n xs" "n \<le> length xs" "length xs + 2 < 2 ^ 60"
      using b(1) by (rule midl_block_cases)
    have l: "midl_list b = take n xs" "n + length ids \<le> length xs" using b blk by (simp_all add: midl_block)
    from xmerge_block[OF l(2) blk(3) _ ids(2,1)] obtain xs' where
      x: "mdb_midl_xmerge (tl b) idl = Some (tl (block (n + length ids) xs'))" "length xs' = length xs"
         "take (n + length ids) xs' = rev (sort (take n xs @ ids))"
      using b(2) l(1) blk(1) by auto
    moreover have "block (n + length ids) xs' \<noteq> []" by (simp add: block_def)
    ultimately show ?thesis using blk l midl_block[of "n + length ids" xs']
      by (intro exI[of _ "block (n + length ids) xs'"]) simp
  qed
  have finish: ?thesis
    if m: "merge_record malloc t idl txn = (case mdb_midl_xmerge (tl b) idl of None \<Rightarrow> None
        | Some mop \<Rightarrow> Some (Inr (txn\<lparr>me_pghead := Some (b ! 0 # mop), me_pglast := t\<rparr>)))"
      "midl_inv b" "midl_list b = head_list txn" "unat (b ! 1) + length ids \<le> unat (b ! 0)" for b
  proof -
    obtain b' where b': "mdb_midl_xmerge (tl b) idl = Some (tl b')" "b' ! 0 = b ! 0" "b' \<noteq> []" "midl_inv b'"
        "midl_list b' = rev (sort (midl_list b @ ids))"
      using merged[OF m(2) _ m(4)] h m(3) by (auto simp: head_ok_def)
    have "b ! 0 # tl b' = b'" using b'(2,3) by (cases b') simp_all
    then show ?thesis using b' m by auto
  qed
  show ?thesis
  proof (cases "me_pghead txn")
    case None
    show ?thesis
    proof (cases "mdb_midl_alloc malloc (length ids)")
      case N: None
      then show ?thesis using None u by (auto simp: merge_record_def mdb_midl_alloc_def)
    next
      case (Some b)
      note e = alloc_empty[OF malloc Some]
      then have "unat (b ! 1) = 0" "unat (b ! 0) = length ids"
        using midl_invD[of b] by auto
      then show ?thesis using None Some u e by (intro finish[of b]) (simp_all add: merge_record_def head_list_def split: option.split)
    qed
  next
    case (Some b)
    have hb: "midl_inv b" "head_list txn = midl_list b" using h Some by (auto simp: head_ok_def head_list_def)
    have "unat (b ! 1) + unat (ucast (idl ! 0) :: u32) < 2 ^ 31"
      unfolding u using ids(3) hb midl_invD(5)[of b] by simp
    note n = need_room[OF malloc hb(1) this]
    obtain rc b' where nb: "mdb_midl_need malloc b (ucast (idl ! 0)) = (rc, b')" by fastforce
    show ?thesis
    proof (cases "rc = 0")
      case True
      then have "midl_inv b'" "midl_list b' = midl_list b" "unat (b ! 1) + length ids \<le> unat (b' ! 0)"
        using n nb u by auto
      moreover have "unat (b' ! 1) = unat (b ! 1)"
        using midl_invD(5)[of b'] midl_invD(5)[of b] hb calculation by simp
      ultimately show ?thesis using Some nb True hb by (intro finish[of b']) (simp_all add: merge_record_def split: option.split)
    next
      case False
      then show ?thesis using n nb Some by (auto simp: merge_record_def refused_def)
    qed
  qed
qed

text \<open>The search for a run, on the list.\<close>

definition run_at :: "nat \<Rightarrow> nat \<Rightarrow> mdb_id list \<Rightarrow> bool" where
  "run_at num i L \<longleftrightarrow> num \<le> i \<and> i \<le> length L \<and> unat (L ! (i - 1)) + num \<le> 2 ^ 64 \<and>
     (\<forall>k < num. L ! (i - 1 - k) = L ! (i - 1) + of_nat k)"

lemma seek_run_at:
  assumes h: "head_ok txn" and "0 < num" "num - 1 < pghead_len txn"
    and s: "seek_run (pghead_ids txn) (num - 1) (pghead_len txn) = Some i"
  shows "0 < i" "run_at num i (head_list txn)"
proof -
  obtain b where b: "me_pghead txn = Some b" "midl_inv b" "falling (midl_list b)" "head_list txn = midl_list b"
    using h assms(3) by (auto simp: head_ok_def pghead_len_def head_list_def split: option.splits)
  obtain n xs where blk: "b = block n xs" "n \<le> length xs" "length xs + 2 < 2 ^ 60"
    using b(2) by (rule midl_block_cases)
  have l: "pghead_len txn = n" "head_list txn = take n xs" "pghead_ids txn = of_nat n # xs"
    using b blk by (simp_all add: pghead_len_def pghead_ids_def midl_block) (simp add: block_def)
  note r = seek_run_Some[OF s assms(3)]
  then show "0 < i" by simp
  have f: "falling (take n xs)" using b blk by (simp add: midl_block)
  define a where "a = i - num"
  have i: "num \<le> i" "i \<le> n" "i - 1 = a + (num - 1)" "a + (num - 1) < length (take n xs)" 
    using r l assms(2) blk(2) by (auto simp: a_def)
  have "take n xs ! a = take n xs ! (a + (num - 1)) + of_nat (num - 1)"
    using r i l assms(2) by (simp add: nth_Cons' a_def)
  note run = falling_run[OF f i(4) this]
  show "run_at num i (head_list txn)"
    unfolding run_at_def l(2) i(3)
  proof (intro conjI allI impI)
    show "i \<le> length (take n xs)" using i(2) blk(2) by simp
    show "unat (take n xs ! (a + (num - 1))) + num \<le> 2 ^ 64" using run(2)[of 0] assms(2) by linarith
    show "take n xs ! (a + (num - 1) - k) = take n xs ! (a + (num - 1)) + of_nat k" if "k < num" for k
      using that by (intro run(1)) linarith
  qed (rule i(1))
qed

text \<open>What the run is as a set, and the list without it.\<close>

abbreviation page_range :: "mdb_id \<Rightarrow> nat \<Rightarrow> mdb_id set" where
  "page_range pgno num \<equiv> (\<lambda>k. pgno + of_nat k) ` {..<num}"

lemma run_removed:
  assumes "run_at num i L" "falling L"
  shows "falling (take (i - num) L @ drop i L)"
    "set (take (i - num) L @ drop i L) = set L - page_range (L ! (i - 1)) num"
    "page_range (L ! (i - 1)) num \<subseteq> set L"
proof -
  have b: "num \<le> i" "i \<le> length L" using assms(1) by (simp_all add: run_at_def)
  have eq: "L ! (i - 1 - k) = L ! (i - 1) + of_nat k" if "k < num" for k
    using assms(1) that unfolding run_at_def by blast
  define R where "R = drop (i - num) (take i L)"
  have L: "L = take (i - num) L @ R @ drop i L"
    using b by (simp add: R_def) (metis append_take_drop_id diff_le_self min_def take_take append.assoc)
  have "rev R = map (\<lambda>k. L ! (i - 1 - k)) [0..<num]"
  proof (rule nth_equalityI)
    show len: "length (rev R) = length (map (\<lambda>k. L ! (i - 1 - k)) [0..<num])"
      using b by (simp add: R_def)
    fix k
    assume "k < length (rev R)"
    then have k: "k < num" using len by simp
    then have "rev R ! k = R ! (num - Suc k)" using len by (simp add: rev_nth)
    also have "\<dots> = L ! (i - num + (num - Suc k))" using b k by (simp add: R_def)
    also have "i - num + (num - Suc k) = i - 1 - k" using b k by simp
    finally show "rev R ! k = map (\<lambda>k. L ! (i - 1 - k)) [0..<num] ! k" using k by simp
  qed
  from arg_cong[OF this, of set] have "set R = (\<lambda>k. L ! (i - 1 - k)) ` {..<num}"
    by (simp add: atLeast0LessThan)
  also have "\<dots> = page_range (L ! (i - 1)) num"
    by (rule image_cong[OF refl]) (rule eq, simp)
  finally have R: "set R = page_range (L ! (i - 1)) num" .
  have d: "distinct L" by (rule falling_distinct[OF assms(2)])
  have f: "falling (take (i - num) L @ R @ drop i L)" using assms(2) L by simp
  then show "falling (take (i - num) L @ drop i L)" by (auto simp: sorted_wrt_append)
  have "distinct (take (i - num) L @ R @ drop i L)" using d L by simp
  then have "set (take (i - num) L @ drop i L) = set (take (i - num) L @ R @ drop i L) - set R" by auto
  then show "set (take (i - num) L @ drop i L) = set L - page_range (L ! (i - 1)) num" using L R by simp
  show "page_range (L ! (i - 1)) num \<subseteq> set L" using R L by (metis Un_iff set_append subsetI)
qed

subsection \<open>The dirty list and the end of the search\<close>

definition dirty_ok :: "wtxn \<Rightarrow> bool" where
  "dirty_ok txn \<longleftrightarrow> length (w_dirty txn) = MDB_IDL_UM_MAX + 1 \<and>
     unat (mid (w_dirty txn ! 0)) + w_dirty_room txn = MDB_IDL_UM_MAX"

definition dirty_pages :: "wtxn \<Rightarrow> mdb_id list" where
  "dirty_pages txn = map mid (mid2l_list (w_dirty txn))"

lemma mid2l_append_room:
  assumes "length ids = MDB_IDL_UM_MAX + 1" "unat (mid (ids ! 0)) < MDB_IDL_UM_MAX"
  shows "\<exists>ids'. mdb_mid2l_append ids i = (0, ids') \<and> length ids' = length ids \<and>
    unat (mid (ids' ! 0)) = unat (mid (ids ! 0)) + 1 \<and> mid2l_list ids' = mid2l_list ids @ [i]"
proof -
  obtain c xs where ids: "ids = c # xs" "length xs = MDB_IDL_UM_MAX" using assms(1) by (cases ids) auto
  define n where "n = unat (mid c)"
  have um: "MDB_IDL_UM_MAX < 2 ^ 64" by (simp add: MDB_IDL_UM_MAX_def)
  have n: "n < MDB_IDL_UM_MAX" "mid c = of_nat n" using assms(2) by (simp_all add: ids n_def)
  have "\<not> of_nat MDB_IDL_UM_MAX \<le> mid c" using n um by (simp add: word_le_nat_alt)
  moreover have s: "unat (mid c + 1) = n + 1"
    using n um unat_of_nat_small[of "n + 1"] by (simp add: add.commute)
  ultimately have "mdb_mid2l_append ids i = (0, c\<lparr>mid := mid c + 1\<rparr> # xs[n := i])"
    by (simp add: mdb_mid2l_append_def ids Let_def)
  moreover have "unat (mid c) = n" by (simp add: n_def)
  ultimately show ?thesis using s n(1) ids by (simp add: mid2l_list_def take_Suc_update)
qed

lemma page_dirty_spec:
  assumes "dirty_ok txn" "w_dirty_room txn \<noteq> 0" "pg_pgno (w_map txn mp) = mp"
  shows "\<exists>dl. mdb_page_dirty mp txn = Some (txn\<lparr>w_dirty := dl, w_dirty_room := w_dirty_room txn - 1\<rparr>) \<and>
    dirty_ok (txn\<lparr>w_dirty := dl, w_dirty_room := w_dirty_room txn - 1\<rparr>) \<and>
    map mid (mid2l_list dl) = dirty_pages txn @ [mp]"
proof -
  have "length (w_dirty txn) = MDB_IDL_UM_MAX + 1" "unat (mid (w_dirty txn ! 0)) < MDB_IDL_UM_MAX"
    using assms(1,2) by (simp_all add: dirty_ok_def)
  from mid2l_append_room[OF this, of "\<lparr>mid = mp, mptr = mp\<rparr>"] assms show ?thesis
    by (auto simp: mdb_page_dirty_def dirty_ok_def dirty_pages_def)
qed

lemma length_set_pgno [simp]: "8 \<le> length bs \<Longrightarrow> length (set_pgno pgno bs) = length bs"
  by (simp add: set_pgno_def)

lemma pg_pgno_set [simp]: "8 \<le> length bs \<Longrightarrow> pg_pgno (set_pgno pgno bs) = pgno"
proof -
  assume "8 \<le> length bs"
  then have "chunk 0 8 (set_pgno pgno bs) = le_bytes 8 (uint pgno)"
    using chunk_memcpy_same[of 0 "le_bytes 8 (uint pgno)" bs] by (simp add: set_pgno_def)
  moreover have "unat pgno < 256 ^ 8" using unsigned_less[of pgno] by simp
  then have "le_int (le_bytes 8 (uint pgno)) = uint pgno" using le_bytes_small[of "unat pgno" 8] by simp
  ultimately show ?thesis by (simp add: pg_pgno_def)
qed

text \<open>The page numbers a search ends with: a run of the list, or the ones behind the last page.\<close>

definition chosen :: "nat \<Rightarrow> wtxn \<Rightarrow> mdb_id" where
  "chosen i txn = (if i \<noteq> 0 then head_list txn ! (i - 1) else w_next_pgno txn)"

lemma search_done_spec:
  assumes h: "head_ok txn" and d: "dirty_ok txn" "w_dirty_room txn \<noteq> 0"
    and i: "i \<noteq> 0 \<longrightarrow> run_at num i (head_list txn)" and m: "8 \<le> length (w_map txn (chosen i txn))"
  obtains hd nx dl where "search_done num i txn = Some (chosen i txn,
      txn\<lparr>me_pghead := hd, w_next_pgno := nx,
        w_map := (w_map txn)(chosen i txn := set_pgno (chosen i txn) (w_map txn (chosen i txn))),
        w_dirty := dl, w_dirty_room := w_dirty_room txn - 1\<rparr>)"
    "nx = (if i \<noteq> 0 then w_next_pgno txn else w_next_pgno txn + of_nat num)"
    "(case hd of None \<Rightarrow> True | Some b \<Rightarrow> midl_inv b)"
    "(case hd of None \<Rightarrow> [] | Some b \<Rightarrow> midl_list b) =
       (if i \<noteq> 0 then take (i - num) (head_list txn) @ drop i (head_list txn) else head_list txn)"
    "length dl = MDB_IDL_UM_MAX + 1" "unat (mid (dl ! 0)) + (w_dirty_room txn - 1) = MDB_IDL_UM_MAX"
    "map mid (mid2l_list dl) = dirty_pages txn @ [chosen i txn]"
proof -
  define hd nx where "hd = (if i \<noteq> 0 then Some (the (me_pghead txn) ! 0 # stragglers
        ((pghead_ids txn)[0 := of_nat (pghead_len txn - num)]) (i - num) i (pghead_len txn - num)) else me_pghead txn)"
    and "nx = (if i \<noteq> 0 then w_next_pgno txn else w_next_pgno txn + of_nat num)"
  define txn' where "txn' = txn\<lparr>me_pghead := hd, w_next_pgno := nx,
        w_map := (w_map txn)(chosen i txn := set_pgno (chosen i txn) (w_map txn (chosen i txn)))\<rparr>"
  have hd: "(case hd of None \<Rightarrow> True | Some b \<Rightarrow> midl_inv b) \<and>
      (case hd of None \<Rightarrow> [] | Some b \<Rightarrow> midl_list b) =
       (if i \<noteq> 0 then take (i - num) (head_list txn) @ drop i (head_list txn) else head_list txn) \<and>
      (i \<noteq> 0 \<longrightarrow> pghead_ids txn ! i = head_list txn ! (i - 1))"
  proof (cases "i = 0")
    case True
    then show ?thesis using h by (auto simp: hd_def head_ok_def head_list_def split: option.split)
  next
    case False
    then have r: "num \<le> i" "i \<le> length (head_list txn)" using i by (auto simp: run_at_def)
    then obtain b where b: "me_pghead txn = Some b" "midl_inv b" "head_list txn = midl_list b"
      using False h by (auto simp: head_ok_def head_list_def split: option.splits)
    obtain n xs where blk: "b = block n xs" "n \<le> length xs" "length xs + 2 < 2 ^ 60"
      using b(2) by (rule midl_block_cases)
    have l: "head_list txn = take n xs" "pghead_len txn = n" "pghead_ids txn = of_nat n # xs"
      using b blk by (simp_all add: pghead_len_def pghead_ids_def midl_block) (simp add: block_def)
    have i': "i \<le> n" using r(2) l by simp
    define ys where "ys = take (i - num) xs @ take (n - i) (drop i xs) @ drop (n - num) xs"
    have "hd = Some (block (n - num) ys)"
      using stragglers_block[OF r(1) i' blk(2)] False b(1) blk(1) l unfolding hd_def
      by (simp add: block_def ys_def)
    moreover have ys: "length ys = length xs" "take (n - num) ys = take (i - num) xs @ take (n - i) (drop i xs)"
      using r i' blk(2) by (simp_all add: ys_def)
    moreover have "take (i - num) (take n xs) = take (i - num) xs" "drop i (take n xs) = take (n - i) (drop i xs)"
      using i' by (simp_all add: min_absorb1 drop_take)
    ultimately show ?thesis using False i' blk(2,3) r l midl_block[of "n - num" ys]
      by (simp add: nth_Cons')
  qed
  have "pg_pgno (w_map txn' (chosen i txn)) = chosen i txn" using m by (simp add: txn'_def)
  moreover have "dirty_ok txn'" "w_dirty_room txn' \<noteq> 0" "dirty_pages txn' = dirty_pages txn"
    using d by (simp_all add: dirty_ok_def dirty_pages_def txn'_def)
  ultimately obtain dl where dl: "mdb_page_dirty (chosen i txn) txn' =
        Some (txn'\<lparr>w_dirty := dl, w_dirty_room := w_dirty_room txn - 1\<rparr>)"
      "dirty_ok (txn'\<lparr>w_dirty := dl, w_dirty_room := w_dirty_room txn - 1\<rparr>)"
      "map mid (mid2l_list dl) = dirty_pages txn @ [chosen i txn]"
    using page_dirty_spec[of txn' "chosen i txn"] by (auto simp: txn'_def)
  have "search_done num i txn = Some (chosen i txn, txn'\<lparr>w_dirty := dl, w_dirty_room := w_dirty_room txn - 1\<rparr>)"
    using hd dl(1) unfolding search_done_def Let_def
    by (cases "i = 0") (simp_all add: chosen_def hd_def nx_def txn'_def)
  then show thesis
    by (rule that[where hd = hd and nx = nx and dl = dl, folded txn'_def]) (use hd dl(2,3) in \<open>simp_all add: nx_def dirty_ok_def txn'_def\<close>)
qed

end
