(* ===== verification/Mdb_Freelist.thy ===== *)
theory Mdb_Freelist
  imports Mdb_Alloc
begin

text \<open>
  The allocation of pages is safe: the cursor over the free-page database yields its
  records one after the other, the loop merges those that are older than every reader,
  and the pages handed out are neither in use nor visible to a reader.
\<close>

subsection \<open>Reading the free-page database\<close>

text \<open>
  The records of the free-page database: under the number of a transaction, the
  pages it freed, in descending order, behind their count.
\<close>

abbreviation id_rank :: "bytes \<Rightarrow> int" where
  "id_rank k \<equiv> le_int (take 8 k)"

definition free_rec :: "wtxn \<Rightarrow> bytes \<times> bytes \<Rightarrow> u64 \<times> mdb_id list \<Rightarrow> bool" where
  "free_rec txn e r \<longleftrightarrow> id_rank (fst e) = uint (fst r) \<and> fst r \<noteq> 0 \<and> falling (snd r) \<and>
     (\<exists>bs rest. leaf_data txn (snd e) = Inr bs \<and> idl_words bs = of_nat (length (snd r)) # snd r @ rest)"

abbreviation free_tree :: "wtxn \<Rightarrow> (bytes, bytes) MDB_page \<Rightarrow> nat \<Rightarrow> bool" where
  "free_tree txn root H \<equiv> tree_ok id_rank (\<lambda>_. True) (map_view txn FREE_DBI) root H"

abbreviation free_entries :: "wtxn \<Rightarrow> (bytes, bytes) MDB_page \<Rightarrow> nat \<Rightarrow> (bytes \<times> bytes) list" where
  "free_entries txn root H \<equiv> entries (map_view txn FREE_DBI) H root"

definition freedb :: "wtxn \<Rightarrow> (u64 \<times> mdb_id list) list \<Rightarrow> bool" where
  "freedb txn E \<longleftrightarrow>
     (if w_roots txn FREE_DBI = P_INVALID then E = []
      else \<exists>root H. free_tree txn root H \<and> list_all2 (free_rec txn) (free_entries txn root H) E)"

text \<open>What the cursor of the loop is about to fetch: the record at position \<open>k\<close>.\<close>

definition fetch_ready ::
  "wtxn \<Rightarrow> (bytes, bytes) MDB_page \<Rightarrow> nat \<Rightarrow> fetch \<Rightarrow> u64 \<Rightarrow> free_cursor \<Rightarrow> nat \<Rightarrow> bool" where
  "fetch_ready txn root H op t m2 k \<longleftrightarrow>
     (case op of
        Fetch_First \<Rightarrow> m2 = new_cursor \<and> k = 0
      | Fetch_Range \<Rightarrow> m2 = new_cursor \<and> k = lower_bound id_rank (free_entries txn root H) (le_bytes 8 (uint t))
      | Fetch_Next \<Rightarrow> (\<exists>i. cursor_at (map_view txn FREE_DBI) root H m2 i \<and> k = Suc i))"

lemma free_get_spec:
  assumes t: "free_tree txn root H" and r: "fetch_ready txn root H op t' m2 k"
  shows "if k < length (free_entries txn root H)
    then \<exists>m. free_get txn op t' m2 = Some (Inr (fst (free_entries txn root H ! k), []), m) \<and>
      cursor_at (map_view txn FREE_DBI) root H m k
    else \<exists>m. free_get txn op t' m2 = Some (Inl MDB_NOTFOUND, m)"
proof -
  let ?v = "map_view txn FREE_DBI" and ?E = "free_entries txn root H"
  note ax = clong.comparator_axioms
  have new: "cursor_idle root new_cursor" "\<not> C_INITIALIZED (new_cursor :: free_cursor)" "\<not> mc_error (new_cursor :: free_cursor)"
    using new_cursor_for[of ?v root H] by (simp_all add: cursor_for_def new_cursor_def)
  have wf: "wf_page ?v H root" using t by (simp add: tree_ok_def)
  have res: "if k < length ?E then \<exists>m. R = Some (Inr (fst (?E ! k), []), m) \<and> cursor_at ?v root H m k
      else \<exists>m. R = Some (Inl MDB_NOTFOUND, m)"
    if "if k < length ?E then found_at (\<lambda>_. Inr []) ?v root H k R else not_found R" for R
    using that by (auto simp: found_at_def not_found_def Let_def split: if_splits)
  show ?thesis
  proof (cases op)
    case Fetch_First
    then have "found_at (\<lambda>_. Inr []) ?v root H 0 (free_get txn op t' m2)" "k = 0"
      using comparator.first_idle[OF ax t new(1,2)] r new(3) by (simp_all add: free_get_def fetch_ready_def)
    then show ?thesis using wf_entries[OF wf] by (intro res) simp
  next
    case Fetch_Range
    then show ?thesis
      using comparator.set_idle[OF ax t new(1,2), of "le_bytes 8 (uint t')" False "\<lambda>_. Inr []"] r new(3)
      by (intro res) (simp add: free_get_def fetch_ready_def)
  next
    case Fetch_Next
    then obtain i where i: "cursor_at ?v root H m2 i" "k = Suc i" using r by (auto simp: fetch_ready_def)
    then have "\<not> mc_error m2" by (simp add: cursor_at_def)
    then show ?thesis using next_at[OF i(1) wf, of "\<lambda>_. Inr []" mdb_cmp_long] Fetch_Next i(2)
      by (intro res) (simp add: free_get_def)
  qed
qed

lemma free_get_empty:
  assumes "w_roots txn FREE_DBI = P_INVALID" "op \<noteq> Fetch_Next"
  shows "\<exists>m. free_get txn op t new_cursor = Some (Inl MDB_NOTFOUND, m)"
  using assms
  by (cases op) (simp_all add: free_get_def mdb_cursor_first_def mdb_cursor_set_def mdb_page_search_def
      map_view_def new_cursor_def)

lemma free_record_spec:
  assumes t: "free_tree txn root H" and c: "cursor_at (map_view txn FREE_DBI) root H m k"
    and k: "k < length (free_entries txn root H)" and e: "free_rec txn (free_entries txn root H ! k) (t', ids)"
  shows "\<exists>rest. free_record txn m = Some (Inr (of_nat (length ids) # ids @ rest))"
proof -
  let ?v = "map_view txn FREE_DBI"
  have wf: "wf_page ?v H root" using t by (simp add: tree_ok_def)
  obtain p b where p: "path_to ?v root H m H 0 p b" "k = b + top_ki m"
      "top_ki m < length (entries ?v 0 p) \<or> k = length (free_entries txn root H)"
    using c by (auto simp: cursor_at_def)
  obtain es A B where es: "mp_nodes (top_page m) = Leaf es" "entries ?v 0 p = es"
      "free_entries txn root H = A @ es @ B" "length A = b"
    by (rule path_to_leaf[OF p(1) wf])
  have "top_ki m < length es" "free_entries txn root H ! k = es ! top_ki m"
    using p(2,3) k es by (auto simp: nth_append)
  then show ?thesis using e es(1) by (auto simp: free_record_def free_rec_def)
qed

text \<open>The records a cursor yields one after the other.\<close>

fun fetches :: "wtxn \<Rightarrow> fetch \<Rightarrow> u64 \<Rightarrow> free_cursor \<Rightarrow> (u64 \<times> mdb_id list) list \<Rightarrow> bool" where
  "fetches txn op t m2 [] \<longleftrightarrow> (\<exists>m. free_get txn op t m2 = Some (Inl MDB_NOTFOUND, m))"
| "fetches txn op t m2 (r # R) \<longleftrightarrow>
     (\<exists>key m rest. free_get txn op t m2 = Some (Inr (key, []), m) \<and> id_rank key = uint (fst r) \<and> falling (snd r) \<and>
        free_record txn m = Some (Inr (of_nat (length (snd r)) # snd r @ rest)) \<and> (\<forall>t. fetches txn Fetch_Next t m R))"

lemma fetches_tree:
  assumes t: "free_tree txn root H" and E: "list_all2 (free_rec txn) (free_entries txn root H) E"
  shows "fetch_ready txn root H op t' m2 k \<Longrightarrow> k \<le> length E \<Longrightarrow> fetches txn op t' m2 (drop k E)"
proof (induction "length E - k" arbitrary: op t' m2 k)
  case 0
  then have "drop k E = []" "\<not> k < length (free_entries txn root H)" using list_all2_lengthD[OF E] by simp_all
  then show ?case using free_get_spec[OF t 0(2)] by simp
next
  case (Suc n)
  then have k: "k < length E" "k < length (free_entries txn root H)" using list_all2_lengthD[OF E] by simp_all
  have rec: "free_rec txn (free_entries txn root H ! k) (E ! k)" using E k by (simp add: list_all2_conv_all_nth)
  obtain m where m: "free_get txn op t' m2 = Some (Inr (fst (free_entries txn root H ! k), []), m)"
      "cursor_at (map_view txn FREE_DBI) root H m k"
    using free_get_spec[OF t Suc.prems(1)] k(2) by auto
  obtain rest where r: "free_record txn m = Some (Inr (of_nat (length (snd (E ! k))) # snd (E ! k) @ rest))"
    using free_record_spec[OF t m(2) k(2), of "fst (E ! k)" "snd (E ! k)"] rec by auto
  have "fetches txn Fetch_Next t'' m (drop (Suc k) E)" for t''
    using Suc m(2) k(1) by (intro Suc.hyps(1)) (auto simp: fetch_ready_def)
  moreover have "id_rank (fst (free_entries txn root H ! k)) = uint (fst (E ! k))" "falling (snd (E ! k))"
    using rec by (simp_all add: free_rec_def)
  ultimately show ?case using m(1) r by (subst Cons_nth_drop_Suc[OF k(1), symmetric]) auto
qed

lemma id_rank_le_bytes: "id_rank (le_bytes 8 (uint t)) = uint (t :: u64)"
proof -
  have "unat t < 256 ^ 8" using unsigned_less[of t] by simp
  then show ?thesis using le_bytes_small[of "unat t" 8] by simp
qed

text \<open>The first fetch: the records behind \<open>me_pglast\<close>.\<close>

definition pending :: "wtxn \<Rightarrow> (u64 \<times> mdb_id list) list \<Rightarrow> (u64 \<times> mdb_id list) list" where
  "pending txn E = dropWhile (\<lambda>r. fst r \<le> me_pglast txn) E"

lemma takeWhile_all2:
  "list_all2 R xs ys \<Longrightarrow> (\<And>x y. R x y \<Longrightarrow> P x = Q y) \<Longrightarrow> length (takeWhile P xs) = length (takeWhile Q ys)"
  by (induction rule: list_all2_induct) auto

lemma fetches_first:
  assumes "freedb txn E" "me_pglast txn < - 1"
  shows "fetches txn (if me_pglast txn \<noteq> 0 then Fetch_Range else Fetch_First) (me_pglast txn + 1) new_cursor (pending txn E)"
proof (cases "w_roots txn FREE_DBI = P_INVALID")
  case True
  then show ?thesis using assms(1) free_get_empty[OF True] by (auto simp: freedb_def pending_def)
next
  case False
  then obtain root H where t: "free_tree txn root H" and E: "list_all2 (free_rec txn) (free_entries txn root H) E"
    using assms(1) by (auto simp: freedb_def)
  define k where "k = length (takeWhile (\<lambda>r. fst r \<le> me_pglast txn) E)"
  have "uint (me_pglast txn + 1) = uint (me_pglast txn) + 1"
    using assms(2) by (simp add: uint_word_ariths word_less_def)
  then have "length (takeWhile (\<lambda>e. id_rank (fst e) < uint (me_pglast txn + 1)) (free_entries txn root H)) = k"
    unfolding k_def by (intro takeWhile_all2[OF E]) (auto simp: free_rec_def word_le_def)
  then have range: "lower_bound id_rank (free_entries txn root H) (le_bytes 8 (uint (me_pglast txn + 1))) = k"
    by (simp only: lower_bound_def id_rank_le_bytes)
  have "k = 0" if "me_pglast txn = 0"
  proof -
    have "fst r \<noteq> 0" if "r \<in> set E" for r
      using E that by (auto simp: list_all2_conv_all_nth in_set_conv_nth free_rec_def)
    then show ?thesis using that by (cases E) (auto simp: k_def)
  qed
  then have "fetch_ready txn root H (if me_pglast txn \<noteq> 0 then Fetch_Range else Fetch_First) (me_pglast txn + 1) new_cursor k"
    using range by (simp add: fetch_ready_def)
  moreover have "k \<le> length E" "drop k E = pending txn E"
    by (simp_all add: k_def length_takeWhile_le pending_def dropWhile_eq_drop)
  ultimately show ?thesis using fetches_tree[OF t E] by metis
qed

subsection \<open>The loop of the allocation\<close>

lemma overflow_frame [simp]:
  "overflow_data (txn\<lparr>me_pghead := h\<rparr>) = overflow_data txn" "overflow_data (txn\<lparr>me_pglast := l\<rparr>) = overflow_data txn"
  "overflow_data (txn\<lparr>me_pgoldest := o'\<rparr>) = overflow_data txn"
  by (simp_all add: overflow_data_def fun_eq_iff)

lemma txn_frame [simp]:
  "map_view (txn\<lparr>me_pghead := h\<rparr>) dbi = map_view txn dbi" "map_view (txn\<lparr>me_pglast := l\<rparr>) dbi = map_view txn dbi"
  "map_view (txn\<lparr>me_pgoldest := o'\<rparr>) dbi = map_view txn dbi"
  "leaf_data (txn\<lparr>me_pghead := h\<rparr>) = leaf_data txn" "leaf_data (txn\<lparr>me_pglast := l\<rparr>) = leaf_data txn"
  "leaf_data (txn\<lparr>me_pgoldest := o'\<rparr>) = leaf_data txn"
  "mdb_find_oldest (txn\<lparr>me_pghead := h\<rparr>) = mdb_find_oldest txn"
  "mdb_find_oldest (txn\<lparr>me_pglast := l\<rparr>) = mdb_find_oldest txn"
  "mdb_find_oldest (txn\<lparr>me_pgoldest := o'\<rparr>) = mdb_find_oldest txn"
  by (simp_all add: map_view_def leaf_data_def mdb_find_oldest_def fun_eq_iff)

lemma free_frame [simp]:
  "free_get (txn\<lparr>me_pghead := h\<rparr>) = free_get txn" "free_get (txn\<lparr>me_pglast := l\<rparr>) = free_get txn"
  "free_get (txn\<lparr>me_pgoldest := o'\<rparr>) = free_get txn"
  "free_record (txn\<lparr>me_pghead := h\<rparr>) = free_record txn" "free_record (txn\<lparr>me_pglast := l\<rparr>) = free_record txn"
  "free_record (txn\<lparr>me_pgoldest := o'\<rparr>) = free_record txn"
  by (simp_all add: free_get_def free_record_def fun_eq_iff split: nodes.split)

lemma fetches_frame [simp]:
  "fetches (txn\<lparr>me_pghead := h\<rparr>) op t m R \<longleftrightarrow> fetches txn op t m R"
  "fetches (txn\<lparr>me_pglast := l\<rparr>) op t m R \<longleftrightarrow> fetches txn op t m R"
  "fetches (txn\<lparr>me_pgoldest := o'\<rparr>) op t m R \<longleftrightarrow> fetches txn op t m R"
  by (induction R arbitrary: op t m) simp_all

lemma head_frame [simp]:
  "head_list (txn\<lparr>me_pglast := l\<rparr>) = head_list txn" "head_list (txn\<lparr>me_pgoldest := o'\<rparr>) = head_list txn"
  "head_ok (txn\<lparr>me_pglast := l\<rparr>) = head_ok txn" "head_ok (txn\<lparr>me_pgoldest := o'\<rparr>) = head_ok txn"
  by (simp_all add: head_list_def head_ok_def)

definition alloc_answer :: "allocator \<Rightarrow> nat \<Rightarrow> mdb_id list \<Rightarrow> int + nat \<Rightarrow> bool" where
  "alloc_answer malloc num L r \<longleftrightarrow>
     (case r of Inl rc \<Rightarrow> rc = ENOMEM \<and> (\<exists>n. malloc n = None) | Inr i \<Rightarrow> i \<noteq> 0 \<longrightarrow> run_at num i L)"

text \<open>
  What the loop has done when it ends: some of the records that are older than every
  reader are merged into the list, and the answer is a run of it, that new pages
  have to be used, or that there is no memory.
\<close>

definition alloc_post ::
  "allocator \<Rightarrow> nat \<Rightarrow> (u64 \<times> mdb_id list) list \<Rightarrow> wtxn \<Rightarrow> (int + nat) \<times> wtxn \<Rightarrow> bool" where
  "alloc_post malloc num R txn res \<longleftrightarrow> (\<exists>R1 R2 h old. R = R1 @ R2 \<and>
     snd res = txn\<lparr>me_pghead := h, me_pglast := (if R1 = [] then me_pglast txn else fst (last R1)), me_pgoldest := old\<rparr> \<and>
     head_ok (snd res) \<and> head_list (snd res) = rev (sort (head_list txn @ concat (map snd R1))) \<and>
     (\<forall>r \<in> set R1. fst r < mdb_find_oldest txn) \<and> (old = me_pgoldest txn \<or> old = mdb_find_oldest txn) \<and>
     alloc_answer malloc num (head_list (snd res)) (fst res))"

lemma falling_rev_sort: "falling L \<Longrightarrow> rev (sort L) = L"
  by (rule descending_unique) (simp_all add: falling_descending descending_rev_sort)

lemma alloc_post_now:
  assumes "head_ok txn" "old = me_pgoldest txn \<or> old = mdb_find_oldest txn"
    "alloc_answer malloc num (head_list txn) r"
  shows "alloc_post malloc num R txn (r, txn\<lparr>me_pgoldest := old\<rparr>)"
  unfolding alloc_post_def
  by (rule exI[of _ "[]"], rule exI[of _ R], rule exI[of _ "me_pghead txn"], rule exI[of _ old])
    (use assms in \<open>auto simp: falling_rev_sort head_ok_def\<close>)

lemma alloc_post_later:
  assumes old: "old = me_pgoldest txn \<or> old = mdb_find_oldest txn" and r: "fst r < mdb_find_oldest txn"
    and h: "(case h of None \<Rightarrow> [] | Some b \<Rightarrow> midl_list b) = rev (sort (head_list txn @ snd r))"
    and post: "alloc_post malloc num R (txn\<lparr>me_pgoldest := old, me_pghead := h, me_pglast := fst r\<rparr>) res"
  shows "alloc_post malloc num (r # R) txn res"
proof -
  let ?t = "txn\<lparr>me_pgoldest := old, me_pghead := h, me_pglast := fst r\<rparr>"
  obtain R1 R2 h' old' where p: "R = R1 @ R2"
      "snd res = ?t\<lparr>me_pghead := h', me_pglast := (if R1 = [] then me_pglast ?t else fst (last R1)), me_pgoldest := old'\<rparr>"
      "head_ok (snd res)" "head_list (snd res) = rev (sort (head_list ?t @ concat (map snd R1)))"
      "\<forall>r \<in> set R1. fst r < mdb_find_oldest ?t" "old' = me_pgoldest ?t \<or> old' = mdb_find_oldest ?t"
      "alloc_answer malloc num (head_list (snd res)) (fst res)"
    using post unfolding alloc_post_def by blast
  have "rev (sort (rev (sort (head_list txn @ snd r)) @ concat (map snd R1))) =
      rev (sort (head_list txn @ concat (map snd (r # R1))))"
    by (rule descending_unique) (simp_all add: descending_rev_sort)
  moreover have "head_list ?t = rev (sort (head_list txn @ snd r))" using h by (simp add: head_list_def)
  ultimately have "head_list (snd res) = rev (sort (head_list txn @ concat (map snd (r # R1))))" using p(4) by simp
  then have "r # R = (r # R1) @ R2 \<and>
      snd res = txn\<lparr>me_pghead := h', me_pglast := (if r # R1 = [] then me_pglast txn else fst (last (r # R1))), me_pgoldest := old'\<rparr> \<and>
      head_ok (snd res) \<and> head_list (snd res) = rev (sort (head_list txn @ concat (map snd (r # R1)))) \<and>
      (\<forall>x \<in> set (r # R1). fst x < mdb_find_oldest txn) \<and> (old' = me_pgoldest txn \<or> old' = mdb_find_oldest txn) \<and>
      alloc_answer malloc num (head_list (snd res)) (fst res)"
    using p old r by auto
  then show ?thesis unfolding alloc_post_def by blast
qed

lemma look_oldest_cases:
  assumes "oldest \<le> mdb_find_oldest txn"
  obtains o1 f1 old where "look_oldest t oldest found_old txn = (o1, f1, txn\<lparr>me_pgoldest := old\<rparr>)"
    "o1 \<le> mdb_find_oldest txn" "old = me_pgoldest txn \<or> old = mdb_find_oldest txn"
proof (cases "oldest \<le> t \<and> \<not> found_old")
  case True
  then show thesis
    by (intro that[of "mdb_find_oldest txn" True "mdb_find_oldest txn"]) (simp_all add: look_oldest_def Let_def)
next
  case False
  then have "look_oldest t oldest found_old txn = (oldest, found_old, txn\<lparr>me_pgoldest := me_pgoldest txn\<rparr>)"
    by (simp only: look_oldest_def if_False) simp
  then show thesis using assms by (rule that) simp
qed

lemma fetch_record_spec:
  assumes malloc: "malloc_ok malloc" and h: "head_ok txn" and f: "fetches txn op (l + 1) m2 R"
    and o: "oldest \<le> mdb_find_oldest txn"
    and len: "length (head_list txn) + length (concat (map snd R)) < 2 ^ 31"
  obtains (stop) res where "fetch_record malloc op l oldest found_old m2 txn = Some (Inl res)"
      "alloc_post malloc num R txn res"
  | (more) r R' o1 f1 old m b where "R = r # R'"
      "fetch_record malloc op l oldest found_old m2 txn =
         Some (Inr (fst r, o1, f1, m, txn\<lparr>me_pgoldest := old, me_pghead := Some b, me_pglast := fst r\<rparr>))"
      "o1 \<le> mdb_find_oldest txn" "fst r < mdb_find_oldest txn" "old = me_pgoldest txn \<or> old = mdb_find_oldest txn"
      "midl_inv b" "midl_list b = rev (sort (head_list txn @ snd r))" "\<forall>t. fetches txn Fetch_Next t m R'"
proof -
  have post: "alloc_post malloc num R txn (r, txn\<lparr>me_pgoldest := old\<rparr>)"
    if "old = me_pgoldest txn \<or> old = mdb_find_oldest txn" "r = Inr 0 \<or> r = Inl ENOMEM \<and> (\<exists>n. malloc n = None)" for r old
    using that h by (intro alloc_post_now) (auto simp: alloc_answer_def)
  obtain o1 f1 old where l1: "look_oldest (l + 1) oldest found_old txn = (o1, f1, txn\<lparr>me_pgoldest := old\<rparr>)"
      "o1 \<le> mdb_find_oldest txn" "old = me_pgoldest txn \<or> old = mdb_find_oldest txn"
    using o by (rule look_oldest_cases)
  show thesis
  proof (cases "o1 \<le> l + 1")
    case True
    then show thesis using l1 post by (intro stop[of "(Inr 0, txn\<lparr>me_pgoldest := old\<rparr>)"]) (simp_all add: fetch_record_def)
  next
    case now: False
    show thesis
    proof (cases R)
      case Nil
      then show thesis using f l1 now post
        by (intro stop[of "(Inr 0, txn\<lparr>me_pgoldest := old\<rparr>)"]) (auto simp: fetch_record_def)
    next
      case (Cons r R')
      then obtain key m rest where g: "free_get txn op (l + 1) m2 = Some (Inr (key, []), m)" "id_rank key = uint (fst r)"
          "falling (snd r)" "free_record txn m = Some (Inr (of_nat (length (snd r)) # snd r @ rest))"
          "\<forall>t. fetches txn Fetch_Next t m R'"
        using f by auto
      have "o1 \<le> mdb_find_oldest (txn\<lparr>me_pgoldest := old\<rparr>)" using l1(2) by simp
      then obtain o2 f2 old2 where l2: "look_oldest (fst r) o1 f1 (txn\<lparr>me_pgoldest := old\<rparr>) = (o2, f2, txn\<lparr>me_pgoldest := old2\<rparr>)"
          "o2 \<le> mdb_find_oldest txn" "old2 = me_pgoldest txn \<or> old2 = mdb_find_oldest txn"
        by (rule look_oldest_cases[where t = "fst r" and found_old = f1]) (use l1(3) in auto)
      have key: "word_of_int (id_rank key) = fst r" using g(2) by simp
      show thesis
      proof (cases "o2 \<le> fst r")
        case True
        then show thesis using l1 l2 g now key post
          by (intro stop[of "(Inr 0, txn\<lparr>me_pgoldest := old2\<rparr>)"]) (simp_all add: fetch_record_def)
      next
        case False
        then have lt: "fst r < mdb_find_oldest txn" using l2(2) by (meson le_less_trans not_le order.strict_trans2)
        let ?t = "txn\<lparr>me_pgoldest := old2\<rparr>"
        have "head_ok ?t" "length (head_list ?t) + length (snd r) < 2 ^ 31" using h len Cons by simp_all
        then consider "merge_record malloc (fst r) (of_nat (length (snd r)) # snd r @ rest) ?t = Some (Inl ENOMEM)" "\<exists>n. malloc n = None"
          | b where "merge_record malloc (fst r) (of_nat (length (snd r)) # snd r @ rest) ?t =
              Some (Inr (?t\<lparr>me_pghead := Some b, me_pglast := fst r\<rparr>))" "midl_inv b" "midl_list b = rev (sort (head_list txn @ snd r))"
          using merge_record_spec[where txn = ?t and rest = rest and t = "fst r", OF malloc _ refl g(3)] by auto
        then show thesis
        proof cases
          case 1
          then show thesis using l1 l2 g now key False post
            by (intro stop[of "(Inl ENOMEM, ?t)"]) (simp_all add: fetch_record_def Let_def)
        next
          case (2 b)
          then show thesis using l1 l2 g now key False Cons lt
            by (intro more[where r = r and R' = R' and ?o1.0 = o2 and ?f1.0 = f2 and m = m and old = old2 and b = b]) (simp_all add: fetch_record_def Let_def)
        qed
      qed
    qed
  qed
qed

text \<open>How the loop is entered: with the first fetch, or after a record.\<close>

definition loop_ready :: "wtxn \<Rightarrow> fetch \<Rightarrow> u64 \<Rightarrow> free_cursor \<Rightarrow> (u64 \<times> mdb_id list) list \<Rightarrow> bool" where
  "loop_ready txn op oldest m2 R \<longleftrightarrow>
     (if op = Fetch_First
      then me_pgoldest txn \<le> mdb_find_oldest txn \<and>
        fetches txn (if me_pglast txn \<noteq> 0 then Fetch_Range else Fetch_First) (me_pglast txn + 1) m2 R
      else oldest \<le> mdb_find_oldest txn \<and> (\<forall>t. fetches txn op t m2 R))"

lemma loop_entry:
  assumes "loop_ready txn op oldest m2 R"
  obtains op' l' o' where "(if op = Fetch_First
      then (if me_pglast txn \<noteq> 0 then Fetch_Range else Fetch_First, me_pglast txn, me_pgoldest txn)
      else (op, last_id, oldest)) = (op', l', o')" "fetches txn op' (l' + 1) m2 R" "o' \<le> mdb_find_oldest txn"
  using assms that unfolding loop_ready_def by (cases "op = Fetch_First") (auto split: if_splits)

lemma alloc_loop_spec:
  assumes malloc: "malloc_ok malloc" and num: "0 < num"
  shows "length R < fuel \<Longrightarrow> loop_ready txn op oldest m2 R \<Longrightarrow> head_ok txn \<Longrightarrow>
    distinct (head_list txn @ concat (map snd R)) \<Longrightarrow>
    length (head_list txn) + length (concat (map snd R)) < 2 ^ 31 \<Longrightarrow>
    \<exists>res. alloc_loop malloc fuel num op retry last_id oldest found_old m2 txn = Some res \<and>
      alloc_post malloc num R txn res"
proof (induction fuel arbitrary: R op retry last_id oldest found_old m2 txn)
  case (Suc n)
  let ?run = "if num - 1 < pghead_len txn then seek_run (pghead_ids txn) (num - 1) (pghead_len txn) else None"
  define retry' where "retry' = (if num - 1 < pghead_len txn then retry - 1 else retry)"
  have post: "alloc_post malloc num R txn (Inr i, txn)" if "i \<noteq> 0 \<longrightarrow> run_at num i (head_list txn)" for i
    using alloc_post_now[OF Suc.prems(3), of "me_pgoldest txn" malloc num "Inr i" R] that by (simp add: alloc_answer_def)
  show ?case
  proof (cases ?run)
    case (Some i)
    then have "num - 1 < pghead_len txn" "seek_run (pghead_ids txn) (num - 1) (pghead_len txn) = Some i"
      by (auto split: if_splits)
    then show ?thesis using seek_run_at(2)[OF Suc.prems(3) num] post[of i] by (simp add: alloc_loop.simps(2))
  next
    case None
    show ?thesis
    proof (cases "num - 1 < pghead_len txn \<and> retry' < 0")
      case True
      then have "alloc_loop malloc (Suc n) num op retry last_id oldest found_old m2 txn = Some (Inr 0, txn)"
        unfolding alloc_loop.simps(2) Let_def None option.case retry'_def[symmetric] by (rule if_P)
      then show ?thesis using post[of 0] by simp
    next
      case go: False
      obtain op' l' o' where e: "(if op = Fetch_First
          then (if me_pglast txn \<noteq> 0 then Fetch_Range else Fetch_First, me_pglast txn, me_pgoldest txn)
          else (op, last_id, oldest)) = (op', l', o')" "fetches txn op' (l' + 1) m2 R" "o' \<le> mdb_find_oldest txn"
        using Suc.prems(2) by (rule loop_entry)
      have step: "alloc_loop malloc (Suc n) num op retry last_id oldest found_old m2 txn =
          (case fetch_record malloc op' l' o' found_old m2 txn of
             None \<Rightarrow> None | Some (Inl res) \<Rightarrow> Some res
           | Some (Inr (last_id, oldest, found_old, m2, txn)) \<Rightarrow>
               alloc_loop malloc n num Fetch_Next retry' last_id oldest found_old m2 txn)"
        unfolding alloc_loop.simps(2) Let_def None option.case e(1) retry'_def[symmetric] if_not_P[OF go] by simp
      show ?thesis
      proof (rule fetch_record_spec[OF malloc Suc.prems(3) e(2,3) Suc.prems(5), of found_old num])
        fix res
        assume "fetch_record malloc op' l' o' found_old m2 txn = Some (Inl res)" "alloc_post malloc num R txn res"
        then show ?thesis by (simp add: step)
      next
        fix r R' o1 f1 old m b
        assume R: "R = r # R'"
          and fr: "fetch_record malloc op' l' o' found_old m2 txn =
            Some (Inr (fst r, o1, f1, m, txn\<lparr>me_pgoldest := old, me_pghead := Some b, me_pglast := fst r\<rparr>))"
          and o: "o1 \<le> mdb_find_oldest txn" "fst r < mdb_find_oldest txn" "old = me_pgoldest txn \<or> old = mdb_find_oldest txn"
          and b: "midl_inv b" "midl_list b = rev (sort (head_list txn @ snd r))" and f: "\<forall>t. fetches txn Fetch_Next t m R'"
        let ?t = "txn\<lparr>me_pgoldest := old, me_pghead := Some b, me_pglast := fst r\<rparr>"
        have hl: "head_list ?t = rev (sort (head_list txn @ snd r))" using b by (simp add: head_list_def)
        have d: "distinct (head_list txn @ snd r)" "distinct (head_list txn @ snd r @ concat (map snd R'))"
          using Suc.prems(4) R by auto
        have "head_ok ?t" using b falling_sort[OF d(1)] hl by (simp add: head_ok_def)
        moreover have "loop_ready ?t Fetch_Next o1 m R'" using f o by (simp add: loop_ready_def)
        moreover have "distinct (head_list ?t @ concat (map snd R'))" using d(2) unfolding hl by auto
        moreover have "length (head_list ?t) + length (concat (map snd R')) < 2 ^ 31" using Suc.prems(5) R unfolding hl by simp
        ultimately have "\<exists>res. alloc_loop malloc n num Fetch_Next retry' (fst r) o1 f1 m ?t = Some res \<and>
            alloc_post malloc num R' ?t res"
          using Suc.prems(1) R by (intro Suc.IH) simp_all
        then show ?thesis using alloc_post_later[OF o(3,2), of "Some b" malloc num R'] b(2) R
          by (auto simp: step fr)
      qed
    qed
  qed
qed simp

subsection \<open>The invariant of the allocation\<close>

text \<open>
  \<open>used\<close> are the pages that must not be handed out: those of the trees, of the records
  of the free-page database (\<open>fp\<close>), and the dirty ones. The free pages are those of the
  list in memory and those of the records not merged yet.
\<close>

definition available :: "(u64 \<times> mdb_id list) list \<Rightarrow> wtxn \<Rightarrow> mdb_id set" where
  "available E txn = set (head_list txn @ concat (map snd (pending txn E)))"

definition free_order :: "(u64 \<times> mdb_id list) list \<Rightarrow> wtxn \<Rightarrow> bool" where
  "free_order E txn \<longleftrightarrow> sorted_wrt (<) (map fst E) \<and>
     distinct (head_list txn @ concat (map snd (pending txn E))) \<and>
     length (head_list txn @ concat (map snd (pending txn E))) < 2 ^ 31"

definition freedb_on :: "mdb_id set \<Rightarrow> (u64 \<times> mdb_id list) list \<Rightarrow> wtxn \<Rightarrow> bool" where
  "freedb_on used E txn \<longleftrightarrow> (\<forall>m n. (\<forall>pg \<in> used. m pg = w_map txn pg) \<longrightarrow> w_next_pgno txn \<le> n \<longrightarrow>
     freedb (txn\<lparr>w_map := m, w_next_pgno := n\<rparr>) E)"

definition alloc_inv :: "mdb_id set \<Rightarrow> mdb_id set \<Rightarrow> (u64 \<times> mdb_id list) list \<Rightarrow> wtxn \<Rightarrow> bool" where
  "alloc_inv fp used E txn \<longleftrightarrow> freedb_on fp E txn \<and> fp \<subseteq> used \<and> free_order E txn \<and> head_ok txn \<and> dirty_ok txn \<and>
     me_pgoldest txn \<le> mdb_find_oldest txn \<and> me_pglast txn < - 1 \<and>
     used \<inter> available E txn = {} \<and> (\<forall>pg \<in> used \<union> available E txn. pg < w_next_pgno txn) \<and>
     (\<forall>pg. length (w_map txn pg) = me_psize txn) \<and> 16 \<le> me_psize txn \<and>
     w_next_pgno txn \<le> me_maxpg txn \<and> unat (me_maxpg txn) < 2 ^ 63"

lemma dropWhile_sorted:
  fixes R1 :: "('a::linorder \<times> 'b) list"
  assumes "sorted_wrt (<) (map fst (pre @ R1 @ R2))" "R1 \<noteq> []"
  shows "dropWhile (\<lambda>r. fst r \<le> fst (last R1)) (pre @ R1 @ R2) = R2"
proof -
  obtain xs x where R1: "R1 = xs @ [x]" using assms(2) by (cases R1 rule: rev_cases) auto
  have "\<forall>r \<in> set (pre @ xs). fst r \<le> fst x" "\<forall>r \<in> set R2. fst x < fst r"
    using assms(1) by (auto simp: R1 sorted_wrt_append intro: order.strict_implies_order)
  then show ?thesis by (cases R2) (auto simp: R1 dropWhile_append2 dropWhile_append)
qed

lemma pending_after:
  assumes "sorted_wrt (<) (map fst E)" "pending txn E = R1 @ R2"
  shows "pending (txn\<lparr>me_pghead := h, me_pglast := if R1 = [] then me_pglast txn else fst (last R1), me_pgoldest := old\<rparr>) E = R2"
proof (cases "R1 = []")
  case False
  obtain pre where "E = pre @ R1 @ R2"
    using assms(2) takeWhile_dropWhile_id[of "\<lambda>r. fst r \<le> me_pglast txn" E] unfolding pending_def by metis
  then show ?thesis using False assms(1) dropWhile_sorted[of pre R1 R2] by (simp add: pending_def)
qed (use assms(2) in \<open>simp add: pending_def\<close>)

lemma freedb_cong:
  assumes "w_map t = w_map t'" "w_next_pgno t = w_next_pgno t'" "w_roots t FREE_DBI = w_roots t' FREE_DBI"
  shows "freedb t E \<longleftrightarrow> freedb t' E"
proof -
  have o: "overflow_data t = overflow_data t'" using assms by (simp add: overflow_data_def fun_eq_iff)
  have "free_rec t = free_rec t'" by (rule ext)+ (simp only: free_rec_def leaf_data_def o)
  then show ?thesis using assms by (simp add: freedb_def map_view_def)
qed

lemma freedb_on_frame:
  assumes "freedb_on used E t" "used \<subseteq> used'" "\<forall>pg \<in> used. w_map t' pg = w_map t pg"
    "w_next_pgno t \<le> w_next_pgno t'" "w_roots t' FREE_DBI = w_roots t FREE_DBI"
  shows "freedb_on used' E t'"
  unfolding freedb_on_def
proof (intro allI impI)
  fix m n
  assume m: "\<forall>pg \<in> used'. m pg = w_map t' pg" and n: "w_next_pgno t' \<le> n"
  have "\<forall>pg \<in> used. m pg = w_map t pg" "w_next_pgno t \<le> n" using assms(2-4) m n by auto
  then have "freedb (t\<lparr>w_map := m, w_next_pgno := n\<rparr>) E" using assms(1) unfolding freedb_on_def by blast
  then show "freedb (t'\<lparr>w_map := m, w_next_pgno := n\<rparr>) E"
    using assms(5) by (subst freedb_cong[of _ "t\<lparr>w_map := m, w_next_pgno := n\<rparr>"]) simp_all
qed

lemma freedb_on_now:
  assumes "freedb_on used E txn"
  shows "freedb txn E"
proof -
  have "freedb (txn\<lparr>w_map := w_map txn, w_next_pgno := w_next_pgno txn\<rparr>) E"
    using assms unfolding freedb_on_def by blast
  then show ?thesis by simp
qed

lemma alloc_invD:
  assumes "alloc_inv fp used E txn"
  shows "freedb_on fp E txn" "free_order E txn" "head_ok txn" "dirty_ok txn" "me_pgoldest txn \<le> mdb_find_oldest txn"
    "me_pglast txn < - 1" "used \<inter> available E txn = {}" "\<forall>pg \<in> used \<union> available E txn. pg < w_next_pgno txn"
    "\<forall>pg. length (w_map txn pg) = me_psize txn" "16 \<le> me_psize txn" "w_next_pgno txn \<le> me_maxpg txn"
    "unat (me_maxpg txn) < 2 ^ 63" "fp \<subseteq> used"
  using assms unfolding alloc_inv_def by blast+

text \<open>The pages a transaction may take: free ones that no reader can see.\<close>

definition reclaimable :: "(u64 \<times> mdb_id list) list \<Rightarrow> wtxn \<Rightarrow> mdb_id set" where
  "reclaimable E txn = set (head_list txn) \<union>
     \<Union> (set ` snd ` {r \<in> set (pending txn E). fst r < mdb_find_oldest txn})"

lemma reclaimable_snapshots:
  assumes "pg \<in> reclaimable E txn"
  shows "pg \<in> set (head_list txn) \<or> (\<exists>(t, freed) \<in> set E. pg \<in> set freed \<and> (\<forall>s \<in> snapshots txn. t < s))"
proof (cases "pg \<in> set (head_list txn)")
  case False
  then obtain t freed where r: "(t, freed) \<in> set (pending txn E)" "t < mdb_find_oldest txn" "pg \<in> set freed"
    using assms by (auto simp: reclaimable_def)
  have "(t, freed) \<in> set E" using r(1) set_dropWhileD[of "(t, freed)"] unfolding pending_def by blast
  moreover have "\<forall>s \<in> snapshots txn. t < s" using r(2) find_oldest_le order_less_le_trans by blast
  ultimately show ?thesis using r(3) by blast
qed simp

lemma loop_keeps_inv:
  assumes inv: "alloc_inv fp used E txn" and post: "alloc_post malloc num (pending txn E) txn (r, txn1)"
  shows "alloc_inv fp used E txn1" "available E txn1 = available E txn" "set (head_list txn1) \<subseteq> reclaimable E txn"
    "\<exists>h l old. txn1 = txn\<lparr>me_pghead := h, me_pglast := l, me_pgoldest := old\<rparr>"
    "alloc_answer malloc num (head_list txn1) r"
proof -
  obtain R1 R2 h old where R: "pending txn E = R1 @ R2"
      and t1: "txn1 = txn\<lparr>me_pghead := h, me_pglast := (if R1 = [] then me_pglast txn else fst (last R1)), me_pgoldest := old\<rparr>"
      and hd: "head_ok txn1" "head_list txn1 = rev (sort (head_list txn @ concat (map snd R1)))"
      and lt: "\<forall>r \<in> set R1. fst r < mdb_find_oldest txn" and old: "old = me_pgoldest txn \<or> old = mdb_find_oldest txn"
      and ans: "alloc_answer malloc num (head_list txn1) r"
    using post unfolding alloc_post_def fst_conv snd_conv by blast
  show "alloc_answer malloc num (head_list txn1) r" by (rule ans)
  show "\<exists>h l old. txn1 = txn\<lparr>me_pghead := h, me_pglast := l, me_pgoldest := old\<rparr>" using t1 by blast
  have srt: "sorted_wrt (<) (map fst E)" using inv by (simp add: alloc_inv_def free_order_def)
  have p: "pending txn1 E = R2" unfolding t1 by (rule pending_after[OF srt R])
  show av: "available E txn1 = available E txn" unfolding available_def p R hd(2) by auto
  show "set (head_list txn1) \<subseteq> reclaimable E txn" unfolding hd(2) reclaimable_def R using lt by auto
  have "length (head_list txn1 @ concat (map snd R2)) = length (head_list txn @ concat (map snd (pending txn E)))"
    unfolding hd(2) R by simp
  moreover have "distinct (rev (sort A) @ B) = distinct (A @ B)" for A B :: "mdb_id list" by simp
  then have "distinct (head_list txn1 @ concat (map snd R2)) = distinct (head_list txn @ concat (map snd (pending txn E)))"
    unfolding hd(2) R map_append concat_append append_assoc[symmetric] by blast
  ultimately have "free_order E txn1" using alloc_invD(2)[OF inv] unfolding free_order_def p by simp
  moreover have "freedb_on fp E txn1"
    by (rule freedb_on_frame[OF alloc_invD(1)[OF inv]]) (simp_all add: t1)
  moreover have "me_pglast txn1 < - 1"
  proof (cases "R1 = []")
    case False
    then have "fst (last R1) < mdb_find_oldest txn" using lt by simp
    also have "mdb_find_oldest txn \<le> - 1" by simp
    finally show ?thesis using False by (simp add: t1)
  qed (use alloc_invD(6)[OF inv] in \<open>simp add: t1\<close>)
  moreover have "dirty_ok txn1" "me_pgoldest txn1 \<le> mdb_find_oldest txn1" "w_map txn1 = w_map txn"
      "w_next_pgno txn1 = w_next_pgno txn" "me_psize txn1 = me_psize txn" "me_maxpg txn1 = me_maxpg txn"
    using alloc_invD(4,5)[OF inv] old by (auto simp: t1 dirty_ok_def)
  ultimately show "alloc_inv fp used E txn1"
    using alloc_invD(7-13)[OF inv] hd(1) unfolding alloc_inv_def av by simp
qed

subsection \<open>The allocation\<close>

text \<open>What a successful allocation from the list or the end of the file does to the transaction.\<close>

definition allocated ::
  "mdb_id set \<Rightarrow> mdb_id set \<Rightarrow> (u64 \<times> mdb_id list) list \<Rightarrow> nat \<Rightarrow> wtxn \<Rightarrow> mdb_id \<Rightarrow> wtxn \<Rightarrow> bool" where
  "allocated fp used E num txn pgno txn' \<longleftrightarrow>
     alloc_inv fp (used \<union> page_range pgno num) E txn' \<and> page_range pgno num \<inter> used = {} \<and>
     (pgno = w_next_pgno txn \<and> w_next_pgno txn' = pgno + of_nat num \<and> available E txn' = available E txn \<or>
      w_next_pgno txn' = w_next_pgno txn \<and> page_range pgno num \<subseteq> reclaimable E txn \<and>
        available E txn' = available E txn - page_range pgno num) \<and>
     dirty_pages txn' = dirty_pages txn @ [pgno] \<and>
     (\<exists>h l old n dl. txn' = txn\<lparr>me_pghead := h, me_pglast := l, me_pgoldest := old, w_next_pgno := n,
        w_map := (w_map txn)(pgno := set_pgno pgno (w_map txn pgno)), w_dirty := dl,
        w_dirty_room := w_dirty_room txn - 1\<rparr>)"

lemma page_range_next:
  assumes "unat next + num < 2 ^ 64" "pg \<in> page_range next num"
  shows "next \<le> pg" "pg < next + of_nat num"
proof -
  obtain k where k: "k < num" "pg = next + of_nat k" using assms(2) by auto
  have "unat pg = unat next + k" "unat (next + of_nat num) = unat next + num"
    using assms(1) k by (simp_all add: unat_add_small)
  then show "next \<le> pg" "pg < next + of_nat num" using k(1) by (simp_all add: word_le_nat_alt word_less_nat_alt)
qed

lemma page_range_fresh:
  assumes "unat next + num < 2 ^ 64" "\<forall>pg \<in> A. pg < next"
  shows "page_range next num \<inter> A = {}"
proof (intro equals0I)
  fix pg
  assume "pg \<in> page_range next num \<inter> A"
  then have "next \<le> pg" "pg < next" using page_range_next(1)[OF assms(1)] assms(2) by blast+
  then show False by simp
qed

lemma search_done_allocates:
  assumes inv: "alloc_inv fp used E txn" and room: "w_dirty_room txn \<noteq> 0"
    and i: "i \<noteq> 0 \<longrightarrow> run_at num i (head_list txn)"
    and new: "i = 0 \<longrightarrow> w_next_pgno txn + of_nat num < me_maxpg txn" and num: "0 < num" "num < 2 ^ 31"
  shows "\<exists>txn'. search_done num i txn = Some (chosen i txn, txn') \<and>
    alloc_inv fp (used \<union> page_range (chosen i txn) num) E txn' \<and> page_range (chosen i txn) num \<inter> used = {} \<and>
    (i = 0 \<and> w_next_pgno txn' = w_next_pgno txn + of_nat num \<and> available E txn' = available E txn \<or>
     w_next_pgno txn' = w_next_pgno txn \<and> page_range (chosen i txn) num \<subseteq> set (head_list txn) \<and>
       available E txn' = available E txn - page_range (chosen i txn) num) \<and>
    dirty_pages txn' = dirty_pages txn @ [chosen i txn] \<and>
    (\<exists>h n dl. txn' = txn\<lparr>me_pghead := h, w_next_pgno := n,
       w_map := (w_map txn)(chosen i txn := set_pgno (chosen i txn) (w_map txn (chosen i txn))), w_dirty := dl,
       w_dirty_room := w_dirty_room txn - 1\<rparr>)"
proof -
  note I = alloc_invD[OF inv]
  have sz: "8 \<le> length (w_map txn (chosen i txn))" using I(9,10) by simp
  obtain h nx dl where s: "search_done num i txn = Some (chosen i txn,
      txn\<lparr>me_pghead := h, w_next_pgno := nx,
        w_map := (w_map txn)(chosen i txn := set_pgno (chosen i txn) (w_map txn (chosen i txn))),
        w_dirty := dl, w_dirty_room := w_dirty_room txn - 1\<rparr>)"
    "nx = (if i \<noteq> 0 then w_next_pgno txn else w_next_pgno txn + of_nat num)"
    "(case h of None \<Rightarrow> True | Some b \<Rightarrow> midl_inv b)"
    "(case h of None \<Rightarrow> [] | Some b \<Rightarrow> midl_list b) =
       (if i \<noteq> 0 then take (i - num) (head_list txn) @ drop i (head_list txn) else head_list txn)"
    "length dl = MDB_IDL_UM_MAX + 1" "unat (mid (dl ! 0)) + (w_dirty_room txn - 1) = MDB_IDL_UM_MAX"
    "map mid (mid2l_list dl) = dirty_pages txn @ [chosen i txn]"
    by (rule search_done_spec[OF I(3,4) room i sz])
  define txn' where "txn' = txn\<lparr>me_pghead := h, w_next_pgno := nx,
        w_map := (w_map txn)(chosen i txn := set_pgno (chosen i txn) (w_map txn (chosen i txn))),
        w_dirty := dl, w_dirty_room := w_dirty_room txn - 1\<rparr>"
  let ?P = "page_range (chosen i txn) num" and ?L = "head_list txn"
  have L: "falling ?L" using I(3) by (simp add: head_ok_def)
  have hl: "head_list txn' = (if i \<noteq> 0 then take (i - num) ?L @ drop i ?L else ?L)"
    using s(4) by (simp add: txn'_def head_list_def)
  have pend: "pending txn' E = pending txn E" by (simp add: pending_def txn'_def)
  have chosen: "chosen i txn \<in> ?P" using num(1) by (intro image_eqI[of _ _ 0]) simp_all
  have small: "unat (w_next_pgno txn) + num < 2 ^ 64" using I(11,12) num(2) by (simp add: word_le_nat_alt)
  have avail: "available E txn' = (if i = 0 then available E txn else available E txn - ?P) \<and> (i \<noteq> 0 \<longrightarrow> ?P \<subseteq> set ?L)"
  proof (cases "i = 0")
    case False
    then have run: "run_at num i ?L" using i by blast
    have P: "?P = page_range (?L ! (i - 1)) num" using False by (simp only: chosen_def if_True not_False_eq_True)
    have "set (head_list txn') = set ?L - ?P" unfolding hl P if_P[OF False] by (rule run_removed(2)[OF run L])
    moreover have "?P \<subseteq> set ?L" unfolding P by (rule run_removed(3)[OF run L])
    moreover have "set ?L \<inter> set (concat (map snd (pending txn E))) = {}" using I(2) by (auto simp: free_order_def)
    moreover have "A - X \<union> C = A \<union> C - X" if "X \<subseteq> A" "A \<inter> C = {}" for A C X :: "mdb_id set"
      using that by blast
    ultimately have "available E txn' = available E txn - ?P" "?P \<subseteq> set ?L"
      unfolding available_def pend set_append by simp_all
    then show ?thesis using False by presburger
  qed (simp add: available_def hl pend)
  have fresh: "?P \<inter> (used \<union> available E txn) = {}" if "i = 0"
    using page_range_fresh[OF small I(8)] that by (simp add: chosen_def)
  have disj: "?P \<inter> used = {}"
  proof (cases "i = 0")
    case False
    then have "?P \<subseteq> available E txn" using avail unfolding available_def set_append by blast
    then show ?thesis using I(7) by blast
  qed (use fresh in blast)
  have nx: "w_next_pgno txn \<le> nx" "\<forall>pg \<in> ?P. pg < nx" "nx \<le> me_maxpg txn"
  proof -
    have "w_next_pgno txn \<le> nx \<and> (\<forall>pg \<in> ?P. pg < nx) \<and> nx \<le> me_maxpg txn"
    proof (cases "i = 0")
      case True
      then have nx: "nx = w_next_pgno txn + of_nat num" and P: "?P = page_range (w_next_pgno txn) num"
        using s(2) by (simp_all add: chosen_def)
      have "unat nx = unat (w_next_pgno txn) + num" unfolding nx using small num(2) by (simp add: unat_add_small)
      then have "w_next_pgno txn \<le> nx" by (simp add: word_le_nat_alt)
      moreover have "\<forall>pg \<in> ?P. pg < nx" unfolding P nx using page_range_next(2)[OF small] by blast
      ultimately show ?thesis using new True nx by simp
    next
      case False
      then have "?P \<subseteq> available E txn" using avail unfolding available_def set_append by blast
      moreover have "nx = w_next_pgno txn" using False s(2) by simp
      ultimately show ?thesis using I(8,11) by blast
    qed
    then show "w_next_pgno txn \<le> nx" "\<forall>pg \<in> ?P. pg < nx" "nx \<le> me_maxpg txn" by simp_all
  qed
  have "freedb_on fp E txn'"
    using disj chosen nx(1) I(13) by (intro freedb_on_frame[OF I(1)]) (auto simp: txn'_def)
  moreover have "free_order E txn'"
  proof -
    have "distinct (head_list txn') \<and> length (head_list txn') \<le> length ?L \<and> set (head_list txn') \<subseteq> set ?L"
    proof (cases "i = 0")
      case True
      then show ?thesis using falling_distinct[OF L] by (simp add: hl)
    next
      case False
      then have run: "run_at num i ?L" using i by blast
      then have "num \<le> i" "i \<le> length ?L" unfolding run_at_def by blast+
      then have "length (take (i - num) ?L @ drop i ?L) \<le> length ?L" by simp
      then show ?thesis
        using falling_distinct[OF run_removed(1)[OF run L]] run_removed(2)[OF run L] unfolding hl if_P[OF False] by blast
    qed
    then have "distinct (head_list txn')" "length (head_list txn') \<le> length ?L" "set (head_list txn') \<subseteq> set ?L" by blast+
    moreover have "distinct (A @ C)" if "distinct A" "set A \<subseteq> set B" "distinct (B @ C)" for A B C :: "mdb_id list"
      using that by auto
    ultimately have "distinct (head_list txn' @ concat (map snd (pending txn E)))"
        "length (head_list txn' @ concat (map snd (pending txn E))) < 2 ^ 31"
      using I(2) unfolding free_order_def by (blast, simp)
    then show ?thesis using I(2) unfolding free_order_def pend by blast
  qed
  moreover have "head_ok txn'"
  proof -
    have "falling (head_list txn')" unfolding hl using L run_removed(1)[OF _ L] i by (simp only: split: if_split) blast
    then show ?thesis using s(3) by (simp add: head_ok_def txn'_def)
  qed
  moreover have "dirty_ok txn'" using s(5,6) by (simp add: dirty_ok_def txn'_def)
  moreover have "mdb_find_oldest txn' = mdb_find_oldest txn" by (simp add: mdb_find_oldest_def txn'_def)
  moreover have "(used \<union> ?P) \<inter> available E txn' = {}"
  proof (cases "i = 0")
    case True
    then have "available E txn' = available E txn" using avail by simp
    then show ?thesis using fresh[OF True] I(7) by blast
  next
    case False
    then have "available E txn' = available E txn - ?P" using avail by simp
    then show ?thesis using I(7) by blast
  qed
  moreover have "\<forall>pg \<in> (used \<union> ?P) \<union> available E txn'. pg < nx"
    using I(8) nx(1,2) avail by (auto split: if_splits intro: order.strict_trans2)
  ultimately have "alloc_inv fp (used \<union> ?P) E txn'"
    using I(5,6,9,10,12,13) sz nx(3) unfolding alloc_inv_def by (simp add: txn'_def le_supI1)
  moreover have "dirty_pages txn' = dirty_pages txn @ [chosen i txn]" using s(7) by (simp add: dirty_pages_def txn'_def)
  moreover have "w_next_pgno txn' = nx" by (simp add: txn'_def)
  moreover have "\<exists>h n dl. txn' = txn\<lparr>me_pghead := h, w_next_pgno := n,
       w_map := (w_map txn)(chosen i txn := set_pgno (chosen i txn) (w_map txn (chosen i txn))), w_dirty := dl,
       w_dirty_room := w_dirty_room txn - 1\<rparr>"
    unfolding txn'_def by blast
  moreover have "search_done num i txn = Some (chosen i txn, txn')" using s(1) by (simp only: txn'_def)
  ultimately show ?thesis using s(2) disj avail by (intro exI[of _ txn'] conjI) (simp_all split: if_splits)
qed

lemma page_alloc_spec:
  assumes malloc: "malloc_ok malloc" and inv: "alloc_inv fp used E txn" and num: "0 < num" "num < 2 ^ 31"
    and loose: "num = 1 \<longrightarrow> w_loose_pgs txn = []" and room: "w_dirty_room txn \<noteq> 0" and fuel: "length E < fuel"
  shows "(\<exists>pgno txn'. mdb_page_alloc malloc fuel num txn = Some (Inr pgno, txn') \<and> allocated fp used E num txn pgno txn') \<or>
    (\<exists>rc h l old. mdb_page_alloc malloc fuel num txn =
        Some (Inl rc, txn\<lparr>me_pghead := h, me_pglast := l, me_pgoldest := old, w_error := True\<rparr>) \<and>
       (rc = MDB_MAP_FULL \<and> me_maxpg txn \<le> w_next_pgno txn + of_nat num \<or> rc = ENOMEM \<and> (\<exists>n. malloc n = None)))"
proof -
  note I = alloc_invD[OF inv]
  have "length (pending txn E) < fuel"
    using fuel length_dropWhile_le[of "\<lambda>r. fst r \<le> me_pglast txn" E] by (simp add: pending_def)
  moreover have "loop_ready txn Fetch_First 0 new_cursor (pending txn E)"
    using fetches_first[OF freedb_on_now[OF I(1)] I(6)] I(5) by (simp add: loop_ready_def)
  moreover have "distinct (head_list txn @ concat (map snd (pending txn E)))"
      "length (head_list txn) + length (concat (map snd (pending txn E))) < 2 ^ 31"
    using I(2) unfolding free_order_def by (blast, simp)
  ultimately obtain r txn1 where
    run: "alloc_loop malloc fuel num Fetch_First (int num * 60) 0 0 False new_cursor txn = Some (r, txn1)"
      "alloc_post malloc num (pending txn E) txn (r, txn1)"
    using alloc_loop_spec[OF malloc num(1) _ _ I(3)] by (metis surj_pair)
  note L = loop_keeps_inv[OF inv run(2)]
  obtain h l old where t1: "txn1 = txn\<lparr>me_pghead := h, me_pglast := l, me_pgoldest := old\<rparr>" using L(4) by blast
  have alloc: "mdb_page_alloc malloc fuel num txn =
      (case r of Inl rc \<Rightarrow> Some (Inl rc, txn1\<lparr>w_error := True\<rparr>)
       | Inr i \<Rightarrow> if i = 0 \<and> w_next_pgno txn1 + of_nat num \<ge> me_maxpg txn1 then Some (Inl MDB_MAP_FULL, txn1\<lparr>w_error := True\<rparr>)
           else map_option (\<lambda>(pgno, txn). (Inr pgno, txn)) (search_done num i txn1))"
    using loose room run(1) by (auto simp: mdb_page_alloc_def page_alloc_free_def split: sum.split)
  show ?thesis
  proof (cases r)
    case (Inl rc)
    then have "rc = ENOMEM \<and> (\<exists>n. malloc n = None)" using L(5) by (simp add: alloc_answer_def)
    then show ?thesis unfolding alloc Inl sum.case t1 by blast
  next
    case (Inr i)
    show ?thesis
    proof (cases "i = 0 \<and> w_next_pgno txn1 + of_nat num \<ge> me_maxpg txn1")
      case True
      then have "me_maxpg txn \<le> w_next_pgno txn + of_nat num" by (simp add: t1)
      moreover have "mdb_page_alloc malloc fuel num txn = Some (Inl MDB_MAP_FULL, txn1\<lparr>w_error := True\<rparr>)"
        unfolding alloc Inr sum.case by (rule if_P[OF True])
      ultimately show ?thesis unfolding t1 by blast
    next
      case False
      have r1: "i \<noteq> 0 \<longrightarrow> run_at num i (head_list txn1)" using L(5) Inr by (simp add: alloc_answer_def)
      have r2: "i = 0 \<longrightarrow> w_next_pgno txn1 + of_nat num < me_maxpg txn1" using False by auto
      have r3: "w_dirty_room txn1 \<noteq> 0" using room by (simp add: t1)
      obtain txn' h' n dl where s: "search_done num i txn1 = Some (chosen i txn1, txn')"
        "alloc_inv fp (used \<union> page_range (chosen i txn1) num) E txn'" "page_range (chosen i txn1) num \<inter> used = {}"
        "i = 0 \<and> w_next_pgno txn' = w_next_pgno txn1 + of_nat num \<and> available E txn' = available E txn1 \<or>
         w_next_pgno txn' = w_next_pgno txn1 \<and> page_range (chosen i txn1) num \<subseteq> set (head_list txn1) \<and>
           available E txn' = available E txn1 - page_range (chosen i txn1) num"
        "dirty_pages txn' = dirty_pages txn1 @ [chosen i txn1]"
        "txn' = txn1\<lparr>me_pghead := h', w_next_pgno := n,
           w_map := (w_map txn1)(chosen i txn1 := set_pgno (chosen i txn1) (w_map txn1 (chosen i txn1))), w_dirty := dl,
           w_dirty_room := w_dirty_room txn1 - 1\<rparr>"
        using search_done_allocates[OF L(1) r3 r1 r2 num] by (elim exE conjE) (rule that)
      define pgno where "pgno = chosen i txn1"
      have a: "mdb_page_alloc malloc fuel num txn = Some (Inr pgno, txn')"
        unfolding alloc Inr sum.case if_not_P[OF False] s(1) pgno_def by simp
      have eq: "txn' = txn\<lparr>me_pghead := h', me_pglast := l, me_pgoldest := old, w_next_pgno := n,
          w_map := (w_map txn)(pgno := set_pgno pgno (w_map txn pgno)), w_dirty := dl, w_dirty_room := w_dirty_room txn - 1\<rparr>"
        using s(6) by (simp add: t1 pgno_def)
      have same: "w_next_pgno txn1 = w_next_pgno txn" "dirty_pages txn1 = dirty_pages txn" "i = 0 \<longrightarrow> pgno = w_next_pgno txn"
        by (simp_all add: t1 dirty_pages_def pgno_def chosen_def)
      have "pgno = w_next_pgno txn \<and> w_next_pgno txn' = pgno + of_nat num \<and> available E txn' = available E txn \<or>
          w_next_pgno txn' = w_next_pgno txn \<and> page_range pgno num \<subseteq> reclaimable E txn \<and>
            available E txn' = available E txn - page_range pgno num"
        using s(4)[folded pgno_def, unfolded same(1) L(2)]
      proof
        assume "i = 0 \<and> w_next_pgno txn' = w_next_pgno txn + of_nat num \<and> available E txn' = available E txn"
        then show ?thesis using same(3) by simp
      next
        assume "w_next_pgno txn' = w_next_pgno txn \<and> page_range pgno num \<subseteq> set (head_list txn1) \<and>
          available E txn' = available E txn - page_range pgno num"
        then show ?thesis using L(3) by blast
      qed
      then have "allocated fp used E num txn pgno txn'"
        using s(2,3,5)[folded pgno_def, unfolded same(2)] eq unfolding allocated_def by blast
      then show ?thesis using a by blast
    qed
  qed
qed

end
