(* ===== verification/Mdb_Touch.thy ===== *)
theory Mdb_Touch
  imports Mdb_Freelist
begin

text \<open>
  Copy on write (lib/liblmdb/mdb.c): a page that is not dirty is copied to a new page,
  the pointer in its parent, or the root of the database, follows, and the old page goes to
  the list of freed pages. The lemmas show that the tree keeps its contents, and that no
  page a reader can see is written to.

  The cursors besides the one that is touched are those the transaction tracks for the
  same database; a main or free-page database has no record of its own to mark dirty, so
  the first branch of \<open>mdb_cursor_touch\<close>, for named databases, is left out.
\<close>

subsection \<open>Copying a page\<close>

definition mdb_page_copy :: "bytes \<Rightarrow> bytes \<Rightarrow> nat \<Rightarrow> bytes" where
  "mdb_page_copy dst src psize =
     (let upper = pg_upper src; lower = pg_lower src;
          unused = (upper + 2 ^ 16 - lower) mod 2 ^ 16 div 8 * 8 in
      if unused \<noteq> 0 \<and> pg_flags src AND P_LEAF2 \<noteq> P_LEAF2 then
        (let upper = upper div 8 * 8;
             dst = memcpy_at dst 0 (chunk 0 ((lower + 7) div 8 * 8) src)
         in memcpy_at dst upper (chunk upper (psize - upper) src))
      else memcpy_at dst 0 (chunk 0 (psize - unused) src))"

subsection \<open>Pages that were spilled\<close>

text \<open>\<open>Inr True\<close> when the page was spilled in this transaction and is dirty again.\<close>

definition mdb_page_unspill :: "mdb_id \<Rightarrow> wtxn \<Rightarrow> ((int + bool) \<times> wtxn) option" where
  "mdb_page_unspill mp txn =
     (case w_spill_pgs txn of
        None \<Rightarrow> Some (Inr False, txn)
      | Some b \<Rightarrow>
          (let ids = tl b; pn = push_bit 1 (pg_pgno (w_map txn mp)); x = mdb_midl_search ids pn in
           if x \<le> unat (ids ! 0) \<and> ids ! x = pn then
             (if w_dirty_room txn = 0 then Some (Inl MDB_TXN_FULL, txn)
              else
                (let ids = (if x = unat (ids ! 0) then ids[0 := ids ! 0 - 1] else ids[x := ids ! x OR 1]) in
                 map_option
                   (\<lambda>txn. (Inr True, txn\<lparr>w_map := (w_map txn)(mp :=
                      set_flags (pg_flags (w_map txn mp) OR P_DIRTY) (w_map txn mp))\<rparr>))
                   (mdb_page_dirty mp (txn\<lparr>w_spill_pgs := Some (b ! 0 # ids)\<rparr>))))
           else Some (Inr False, txn)))"

subsection \<open>Touching a page\<close>

text \<open>A cursor that is used for writing: its pages by their numbers.\<close>

record wcursor =
  wc_dbi :: nat
  wc_pg :: "mdb_id list"
  wc_ki :: "nat list"
  wc_snum :: nat
  wc_top :: nat

text \<open>The new version of a page: a copy of the old one with its own number, dirty.\<close>

definition fresh_copy :: "nat \<Rightarrow> bytes \<Rightarrow> bytes \<Rightarrow> mdb_id \<Rightarrow> bytes" where
  "fresh_copy psize dst src pgno =
     (let np = set_pgno pgno (mdb_page_copy dst src psize) in set_flags (pg_flags np OR P_DIRTY) np)"

text \<open>The pointer to the page: in the node of the parent, or the root of the database.\<close>

definition repoint :: "wcursor \<Rightarrow> mdb_id \<Rightarrow> wtxn \<Rightarrow> wtxn" where
  "repoint mc pgno txn =
     (if wc_top mc \<noteq> 0 then
        (let parent = wc_pg mc ! (wc_top mc - 1); bs = w_map txn parent;
             node = NODEPTR bs (wc_ki mc ! (wc_top mc - 1))
         in txn\<lparr>w_map := (w_map txn)(parent := SETPGNO bs node (unat pgno))\<rparr>)
      else txn\<lparr>w_roots := (w_roots txn)(wc_dbi mc := pgno)\<rparr>)"

text \<open>The cursors on the same page follow it; they are those of the same database.\<close>

definition adjust_cursor :: "wcursor \<Rightarrow> mdb_id \<Rightarrow> mdb_id \<Rightarrow> wcursor \<Rightarrow> wcursor" where
  "adjust_cursor mc mp np m2 =
     (if wc_snum m2 < wc_snum mc then m2
      else if wc_pg m2 ! wc_top mc = mp then m2\<lparr>wc_pg := (wc_pg m2)[wc_top mc := np]\<rparr> else m2)"

type_synonym touch_result = "(int \<times> wcursor \<times> wcursor list \<times> wtxn) option"

definition touch_done :: "wcursor \<Rightarrow> wcursor list \<Rightarrow> mdb_id \<Rightarrow> mdb_id \<Rightarrow> wtxn \<Rightarrow> touch_result" where
  "touch_done mc others mp np txn =
     Some (0, mc\<lparr>wc_pg := (wc_pg mc)[wc_top mc := np]\<rparr>, map (adjust_cursor mc mp np) others, txn)"

text \<open>The copy of a page that is not dirty.\<close>

definition touch_copy :: "allocator \<Rightarrow> nat \<Rightarrow> wcursor \<Rightarrow> wcursor list \<Rightarrow> wtxn \<Rightarrow> touch_result" where
  "touch_copy malloc fuel mc others txn =
     (let mp = wc_pg mc ! wc_top mc;
          (rc, ids) = mdb_midl_need malloc (w_free_pgs txn) 1;
          txn = txn\<lparr>w_free_pgs := ids\<rparr>
      in if rc \<noteq> 0 then Some (rc, mc, others, txn\<lparr>w_error := True\<rparr>)
      else
        (case mdb_page_alloc malloc fuel 1 txn of
           None \<Rightarrow> None
         | Some (Inl rc, txn) \<Rightarrow> Some (rc, mc, others, txn\<lparr>w_error := True\<rparr>)
         | Some (Inr np, txn) \<Rightarrow>
             (let pgno = pg_pgno (w_map txn np) in
              if pg_pgno (w_map txn mp) = pgno then None
              else
                (let txn = txn\<lparr>w_free_pgs := mdb_midl_xappend (w_free_pgs txn) (pg_pgno (w_map txn mp))\<rparr>;
                     txn = repoint mc pgno txn;
                     txn = txn\<lparr>w_map := (w_map txn)(np :=
                       fresh_copy (me_psize txn) (w_map txn np) (w_map txn mp) pgno)\<rparr>
                 in touch_done mc others mp np txn))))"

definition mdb_page_touch :: "allocator \<Rightarrow> nat \<Rightarrow> wcursor \<Rightarrow> wcursor list \<Rightarrow> wtxn \<Rightarrow> touch_result" where
  "mdb_page_touch malloc fuel mc others txn =
     (let mp = wc_pg mc ! wc_top mc in
      if pg_flags (w_map txn mp) AND P_DIRTY = P_DIRTY then Some (0, mc, others, txn)
      else
        (case (if w_spills txn then mdb_page_unspill mp txn else Some (Inr False, txn)) of
           None \<Rightarrow> None
         | Some (Inl rc, txn) \<Rightarrow> Some (rc, mc, others, txn\<lparr>w_error := True\<rparr>)
         | Some (Inr found, txn) \<Rightarrow>
             if found then touch_done mc others mp mp txn else touch_copy malloc fuel mc others txn))"

text \<open>From the root to the leaf.\<close>

lemma page_touch_top:
  assumes "mdb_page_touch malloc fuel mc others txn = Some (rc, mc', others', txn')"
  shows "wc_top mc' = wc_top mc" "wc_snum mc' = wc_snum mc"
  using assms
  by (auto simp: mdb_page_touch_def touch_copy_def touch_done_def Let_def
      split: if_splits option.splits prod.splits sum.splits)

function cursor_touch_loop :: "allocator \<Rightarrow> nat \<Rightarrow> wcursor \<Rightarrow> wcursor list \<Rightarrow> wtxn \<Rightarrow> touch_result" where
  "cursor_touch_loop malloc fuel mc others txn =
     (case mdb_page_touch malloc fuel mc others txn of
        None \<Rightarrow> None
      | Some (rc, mc, others, txn) \<Rightarrow>
          if rc = 0 \<and> wc_top mc + 1 < wc_snum mc
          then cursor_touch_loop malloc fuel (mc\<lparr>wc_top := wc_top mc + 1\<rparr>) others txn
          else Some (rc, mc\<lparr>wc_top := if rc = 0 then wc_top mc + 1 else wc_top mc\<rparr>, others, txn))"
  by pat_completeness auto
termination
  by (relation "measure (\<lambda>(malloc, fuel, mc, others, txn). wc_snum mc - wc_top mc)")
    (auto, frule page_touch_top(1), drule page_touch_top(2), simp)

declare cursor_touch_loop.simps [simp del]

definition mdb_cursor_touch :: "allocator \<Rightarrow> nat \<Rightarrow> wcursor \<Rightarrow> wcursor list \<Rightarrow> wtxn \<Rightarrow> touch_result" where
  "mdb_cursor_touch malloc fuel mc others txn =
     (if wc_snum mc = 0 then Some (0, mc\<lparr>wc_top := 0\<rparr>, others, txn)
      else
        (case cursor_touch_loop malloc fuel (mc\<lparr>wc_top := 0\<rparr>) others txn of
           None \<Rightarrow> None
         | Some (rc, mc, others, txn) \<Rightarrow> Some (rc, mc\<lparr>wc_top := wc_snum mc - 1\<rparr>, others, txn)))"

subsection \<open>Bytes that agree\<close>

text \<open>The nodes of a page lie in its used part, apart from each other.\<close>

definition IS_BRANCH_bytes :: "bytes \<Rightarrow> bool" where
  "IS_BRANCH_bytes bs \<longleftrightarrow> pg_flags bs AND P_BRANCH = P_BRANCH"

definition IS_LEAF_bytes :: "bytes \<Rightarrow> bool" where
  "IS_LEAF_bytes bs \<longleftrightarrow> pg_flags bs AND P_LEAF = P_LEAF"

definition node_len :: "bytes \<Rightarrow> nat \<Rightarrow> nat" where
  "node_len bs ofs = NODESIZE + NODEKSZ bs ofs +
     (if IS_BRANCH_bytes bs then 0 else if odd (mn_flags bs ofs) then 8 else NODEDSZ bs ofs)"

definition page_ok :: "bytes \<Rightarrow> bool" where
  "page_ok bs \<longleftrightarrow> PAGEHDRSZ \<le> pg_lower bs \<and> pg_lower bs \<le> pg_upper bs \<and> pg_upper bs \<le> length bs \<and>
     pg_flags bs AND P_LEAF2 \<noteq> P_LEAF2 \<and>
     (\<forall>ofs \<in> set (page_offsets bs). pg_upper bs \<le> ofs \<and> ofs + node_len bs ofs \<le> length bs) \<and>
     (\<forall>i < length (page_offsets bs). \<forall>j < length (page_offsets bs). i \<noteq> j \<longrightarrow>
        page_offsets bs ! i + node_len bs (page_offsets bs ! i) \<le> page_offsets bs ! j \<or>
        page_offsets bs ! j + node_len bs (page_offsets bs ! j) \<le> page_offsets bs ! i)"

definition branch_nodes :: "bytes \<Rightarrow> (bytes \<times> mdb_id) list" where
  "branch_nodes bs = map (\<lambda>ofs. (NODEKEY bs ofs, of_nat (NODEPGNO bs ofs))) (page_offsets bs)"

definition leaf_nodes :: "bytes \<Rightarrow> (bytes \<times> bytes) list" where
  "leaf_nodes bs = map (\<lambda>ofs. (NODEKEY bs ofs, node_bytes bs ofs)) (page_offsets bs)"

text \<open>Two pages that agree on the used part, the page number and the flags apart.\<close>

definition agree :: "bytes \<Rightarrow> bytes \<Rightarrow> bool" where
  "agree bs bs' \<longleftrightarrow> length bs' = length bs \<and>
     (\<forall>k < length bs. 12 \<le> k \<longrightarrow> k < pg_lower bs \<or> pg_upper bs \<le> k \<longrightarrow> bs' ! k = bs ! k)"

lemma chunk_cong:
  assumes "length bs' = length bs" "ofs + n \<le> length bs" "\<And>k. ofs \<le> k \<Longrightarrow> k < ofs + n \<Longrightarrow> bs' ! k = bs ! k"
  shows "chunk ofs n bs' = chunk ofs n bs"
  using assms by (intro nth_equalityI) (simp_all add: chunk_nth)

lemma agree_chunk:
  assumes "agree bs bs'" "ofs + n \<le> length bs" "12 \<le> ofs" "ofs + n \<le> pg_lower bs \<or> pg_upper bs \<le> ofs"
  shows "chunk ofs n bs' = chunk ofs n bs"
  using assms by (intro chunk_cong) (auto simp: agree_def)

lemma page_offsets_range:
  assumes "page_ok bs" "i < (pg_lower bs - PAGEHDRSZ) div 2"
  shows "PAGEHDRSZ + 2 * i + 2 \<le> pg_lower bs" "pg_lower bs \<le> length bs"
proof -
  have "2 * i + 2 \<le> pg_lower bs - PAGEHDRSZ" using assms(2) by linarith
  then show "PAGEHDRSZ + 2 * i + 2 \<le> pg_lower bs" "pg_lower bs \<le> length bs"
    using assms(1) unfolding page_ok_def by linarith+
qed

lemma agree_offsets:
  assumes ok: "page_ok bs" and a: "agree bs bs'"
  shows "pg_lower bs' = pg_lower bs" "pg_upper bs' = pg_upper bs" "page_offsets bs' = page_offsets bs"
proof -
  have l: "16 \<le> pg_lower bs" "pg_lower bs \<le> length bs" using ok unfolding page_ok_def by simp_all
  have "chunk 12 2 bs' = chunk 12 2 bs" "chunk 14 2 bs' = chunk 14 2 bs"
    using l by (intro agree_chunk[OF a]; simp)+
  then show lo: "pg_lower bs' = pg_lower bs" "pg_upper bs' = pg_upper bs"
    by (simp_all add: pg_lower_def pg_upper_def u16_at_def)
  have "NODEPTR bs' i = NODEPTR bs i" if "i < (pg_lower bs - PAGEHDRSZ) div 2" for i
    unfolding NODEPTR_def u16_at_def using page_offsets_range[OF ok that]
    by (subst agree_chunk[OF a]) simp_all
  then show "page_offsets bs' = page_offsets bs" unfolding page_offsets_def lo by (intro map_cong) simp_all
qed

lemma node_header:
  assumes ok: "page_ok bs" and a: "agree bs bs'" and o: "ofs \<in> set (page_offsets bs)"
  shows "NODEKSZ bs' ofs = NODEKSZ bs ofs" "mn_flags bs' ofs = mn_flags bs ofs" "NODEDSZ bs' ofs = NODEDSZ bs ofs"
    "NODEPGNO bs' ofs = NODEPGNO bs ofs" "NODEKEY bs' ofs = NODEKEY bs ofs"
    "\<not> IS_BRANCH_bytes bs \<Longrightarrow> node_bytes bs' ofs = node_bytes bs ofs"
proof -
  have u: "pg_upper bs \<le> ofs" "ofs + node_len bs ofs \<le> length bs" "16 \<le> pg_upper bs"
    using ok o unfolding page_ok_def by auto
  have c: "chunk (ofs + k) n bs' = chunk (ofs + k) n bs" if "k + n \<le> node_len bs ofs" for k n
    using that u by (intro agree_chunk[OF a]) simp_all
  have len: "8 + NODEKSZ bs ofs \<le> node_len bs ofs" by (simp add: node_len_def)
  have u16: "u16_at bs' (ofs + k) = u16_at bs (ofs + k)" if "k \<le> 6" for k
    unfolding u16_at_def using c[of k 2] that len by simp
  show ks: "NODEKSZ bs' ofs = NODEKSZ bs ofs" "mn_flags bs' ofs = mn_flags bs ofs" "NODEDSZ bs' ofs = NODEDSZ bs ofs"
      "NODEPGNO bs' ofs = NODEPGNO bs ofs"
    using u16[of 0] u16[of 2] u16[of 4] u16[of 6] by (simp_all add: NODEKSZ_def mn_flags_def NODEDSZ_def NODEPGNO_def)
  show "NODEKEY bs' ofs = NODEKEY bs ofs"
    using c[of 8 "NODEKSZ bs ofs"] len by (simp add: NODEKEY_def ks)
  show "node_bytes bs' ofs = node_bytes bs ofs" if "\<not> IS_BRANCH_bytes bs"
    using c[of 0 "node_len bs ofs"] that by (simp add: node_bytes_def node_len_def ks split: if_splits)
qed

lemma agree_nodes:
  assumes ok: "page_ok bs" and a: "agree bs bs'"
  shows "branch_nodes bs' = branch_nodes bs" "\<not> IS_BRANCH_bytes bs \<Longrightarrow> leaf_nodes bs' = leaf_nodes bs"
  unfolding branch_nodes_def leaf_nodes_def agree_offsets(3)[OF ok a]
  by (auto simp: node_header[OF ok a])

lemma u16_at_less: "ofs + 2 \<le> length bs \<Longrightarrow> u16_at bs ofs < 2 ^ 16"
  using le_int_bounds[of "chunk ofs 2 bs"] by (simp add: u16_at_def nat_less_iff)

lemma page_copy_nth:
  assumes ok: "page_ok src" and len: "length dst = psize" "length src = psize"
  shows "length (mdb_page_copy dst src psize) = psize"
    "k < psize \<Longrightarrow> k < pg_lower src \<or> pg_upper src \<le> k \<Longrightarrow> mdb_page_copy dst src psize ! k = src ! k"
proof -
  let ?l = "pg_lower src" and ?u = "pg_upper src"
  have lu: "16 \<le> ?l" "?l \<le> ?u" "?u \<le> psize" "pg_flags src AND P_LEAF2 \<noteq> P_LEAF2"
    using ok len unfolding page_ok_def by simp_all
  have "?u < 2 ^ 16" using lu len unfolding pg_upper_def by (intro u16_at_less) simp
  then have "?u + 2 ^ 16 - ?l = (?u - ?l) + 2 ^ 16" "?u - ?l < 2 ^ 16" using lu by simp_all
  then have mod: "(?u + 2 ^ 16 - ?l) mod 2 ^ 16 = ?u - ?l" by (simp only: mod_add_self2 mod_less)
  define n where "n = (?u - ?l) div 8 * 8"
  have copy: "mdb_page_copy dst src psize =
      (if n \<noteq> 0 then memcpy_at (memcpy_at dst 0 (chunk 0 ((?l + 7) div 8 * 8) src)) (?u div 8 * 8)
         (chunk (?u div 8 * 8) (psize - ?u div 8 * 8) src)
       else memcpy_at dst 0 (chunk 0 (psize - n) src))"
    using lu(4) unfolding mdb_page_copy_def Let_def mod n_def by simp
  have "length (mdb_page_copy dst src psize) = psize \<and>
    (k < psize \<longrightarrow> k < ?l \<or> ?u \<le> k \<longrightarrow> mdb_page_copy dst src psize ! k = src ! k)"
  proof (cases "n = 0")
    case True
    then show ?thesis using len by (simp add: copy memcpy_nth chunk_nth)
  next
    case False
    then have "8 \<le> ?u - ?l" unfolding n_def by (cases "?u - ?l < 8") simp_all
    then have "?l + 8 \<le> psize" using lu by linarith
    moreover have "(?l + 7) div 8 * 8 \<le> ?l + 7" "?u div 8 * 8 \<le> ?u" by simp_all
    moreover have "?l \<le> (?l + 7) div 8 * 8" by presburger
    ultimately have b: "(?l + 7) div 8 * 8 \<le> psize" "?u div 8 * 8 \<le> ?u" "?l \<le> (?l + 7) div 8 * 8" by linarith+
    then have "?u div 8 * 8 + (psize - ?u div 8 * 8) = psize" using lu(3) by linarith
    then show ?thesis using False b len lu by (auto simp: copy memcpy_nth chunk_nth)
  qed
  then show "length (mdb_page_copy dst src psize) = psize"
    "k < psize \<Longrightarrow> k < ?l \<or> ?u \<le> k \<Longrightarrow> mdb_page_copy dst src psize ! k = src ! k" by simp_all
qed

lemma set_flags_simps [simp]:
  assumes "12 \<le> length bs"
  shows "length (set_flags f bs) = length bs" "pg_flags (set_flags f bs) = f" "pg_pgno (set_flags f bs) = pg_pgno bs"
proof -
  show "length (set_flags f bs) = length bs" using assms by (simp add: set_flags_def)
  have "unat f < 2 ^ 16" using unsigned_less[of f] by simp
  then show "pg_flags (set_flags f bs) = f" using assms by (simp add: pg_flags_def set_flags_def u16_set_same)
  show "pg_pgno (set_flags f bs) = pg_pgno bs"
    using chunk_set_u16[of 10 bs 0 8 "unat f"] assms by (simp add: pg_pgno_def set_flags_def)
qed

lemma pg_flags_set_pgno [simp]: "12 \<le> length bs \<Longrightarrow> pg_flags (set_pgno q bs) = pg_flags bs"
  using u16_memcpy_other[of 0 "le_bytes 8 (uint q)" bs 10] by (simp add: pg_flags_def set_pgno_def)

lemma fresh_copy_agrees:
  assumes ok: "page_ok src" and len: "length dst = psize" "length src = psize"
  shows "agree src (fresh_copy psize dst src q)" "pg_pgno (fresh_copy psize dst src q) = q"
    "pg_flags (fresh_copy psize dst src q) = pg_flags src OR P_DIRTY"
proof -
  let ?c = "mdb_page_copy dst src psize"
  have lu: "16 \<le> pg_lower src" "pg_lower src \<le> psize" using ok len unfolding page_ok_def by simp_all
  have c: "length ?c = psize" by (rule page_copy_nth(1)[OF assms])
  have "u16_at ?c 10 = u16_at src 10"
    unfolding u16_at_def using lu len c page_copy_nth(2)[OF assms] by (subst chunk_cong[of ?c src]) auto
  then have "pg_flags ?c = pg_flags src" by (simp add: pg_flags_def)
  then show "pg_pgno (fresh_copy psize dst src q) = q" "pg_flags (fresh_copy psize dst src q) = pg_flags src OR P_DIRTY"
    using c lu by (simp_all add: fresh_copy_def Let_def)
  have "fresh_copy psize dst src q ! k = src ! k" if "k < psize" "12 \<le> k" "k < pg_lower src \<or> pg_upper src \<le> k" for k
    using that c lu page_copy_nth(2)[OF assms, of k]
    by (simp add: fresh_copy_def Let_def set_flags_def set_u16_def set_pgno_def memcpy_nth)
  moreover have "length (fresh_copy psize dst src q) = psize" using c lu by (simp add: fresh_copy_def Let_def)
  ultimately show "agree src (fresh_copy psize dst src q)" using len by (simp add: agree_def)
qed

lemma dirty_flag:
  "(f OR P_DIRTY) AND P_BRANCH = f AND P_BRANCH" "(f OR P_DIRTY) AND P_LEAF = f AND P_LEAF"
  "(f OR P_DIRTY) AND P_LEAF2 = f AND P_LEAF2" "(f OR P_DIRTY) AND P_DIRTY = P_DIRTY"
  unfolding bit.conj_disj_distrib2 by simp_all

lemma agree_page_ok:
  assumes ok: "page_ok bs" and a: "agree bs bs'" and f: "pg_flags bs' = pg_flags bs \<or> pg_flags bs' = pg_flags bs OR P_DIRTY"
  shows "page_ok bs'" "IS_BRANCH_bytes bs' = IS_BRANCH_bytes bs" "IS_LEAF_bytes bs' = IS_LEAF_bytes bs"
proof -
  have fl: "pg_flags bs' AND P_LEAF2 = pg_flags bs AND P_LEAF2" "pg_flags bs' AND P_BRANCH = pg_flags bs AND P_BRANCH"
      "pg_flags bs' AND P_LEAF = pg_flags bs AND P_LEAF"
    using f dirty_flag[of "pg_flags bs"] by auto
  then show b: "IS_BRANCH_bytes bs' = IS_BRANCH_bytes bs" "IS_LEAF_bytes bs' = IS_LEAF_bytes bs"
    unfolding IS_BRANCH_bytes_def IS_LEAF_bytes_def by simp_all
  have len: "node_len bs' ofs = node_len bs ofs" if "ofs \<in> set (page_offsets bs)" for ofs
    using node_header[OF ok a that] b unfolding node_len_def by simp
  have l: "length bs' = length bs" using a by (simp add: agree_def)
  show "page_ok bs'"
    using ok len unfolding page_ok_def agree_offsets[OF ok a] fl l by (simp del: P_LEAF2_def)
qed

lemma length_SETPGNO [simp]: "ofs + 6 \<le> length bs \<Longrightarrow> length (SETPGNO bs ofs pg) = length bs"
  by (simp add: SETPGNO_def)

lemma chunk_SETPGNO:
  assumes "ofs + 6 \<le> length bs" "o' + n \<le> length bs" "o' + n \<le> ofs \<or> ofs + 6 \<le> o'"
  shows "chunk o' n (SETPGNO bs ofs pg) = chunk o' n bs"
  using assms by (auto simp: SETPGNO_def chunk_set_u16)

lemma NODEPGNO_SETPGNO:
  assumes "ofs + 6 \<le> length bs" "pg < 2 ^ 48"
  shows "NODEPGNO (SETPGNO bs ofs pg) ofs = pg"
proof -
  have "pg div 2 ^ 32 < 2 ^ 16" using assms(2) by (simp add: less_mult_imp_div_less)
  moreover have "pg mod 2 ^ 16 + pg div 2 ^ 16 mod 2 ^ 16 * 2 ^ 16 + pg div 2 ^ 32 * 2 ^ 32 = pg"
  proof -
    have "pg div 2 ^ 32 = pg div 2 ^ 16 div 2 ^ 16" by (simp add: div_mult2_eq[symmetric])
    then have "pg div 2 ^ 16 mod 2 ^ 16 + pg div 2 ^ 32 * 2 ^ 16 = pg div 2 ^ 16"
      using mod_mult_div_eq[of "pg div 2 ^ 16" "2 ^ 16"] by (simp add: ac_simps)
    then have "pg mod 2 ^ 16 + (pg div 2 ^ 16 mod 2 ^ 16 + pg div 2 ^ 32 * 2 ^ 16) * 2 ^ 16 = pg" by simp
    then show ?thesis by (simp add: algebra_simps)
  qed
  ultimately show ?thesis using assms(1) by (simp add: NODEPGNO_def SETPGNO_def u16_set_same u16_set_other)
qed

lemma SETPGNO_page:
  assumes ok: "page_ok bs" and br: "IS_BRANCH_bytes bs" and i: "i < length (page_offsets bs)" and pg: "pg < 2 ^ 48"
  defines "bs' \<equiv> SETPGNO bs (page_offsets bs ! i) pg"
  shows "length bs' = length bs" "page_ok bs'" "pg_flags bs' = pg_flags bs" "pg_pgno bs' = pg_pgno bs"
    "branch_nodes bs' = (branch_nodes bs)[i := (fst (branch_nodes bs ! i), of_nat pg)]"
proof -
  let ?o = "page_offsets bs" and ?s = "page_offsets bs ! i"
  have s: "pg_upper bs \<le> ?s" "?s + node_len bs ?s \<le> length bs" using ok i unfolding page_ok_def by auto
  have u: "16 \<le> pg_upper bs" "pg_lower bs \<le> pg_upper bs" "pg_upper bs \<le> length bs" "16 \<le> pg_lower bs"
    using ok unfolding page_ok_def by auto
  have nl: "node_len bs ofs = 8 + NODEKSZ bs ofs" for ofs using br by (simp add: node_len_def)
  have s6: "?s + 6 \<le> length bs" using s(2) nl[of ?s] by linarith
  have c: "chunk o' n bs' = chunk o' n bs" if "o' + n \<le> length bs" "o' + n \<le> ?s \<or> ?s + 6 \<le> o'" for o' n
    unfolding bs'_def by (rule chunk_SETPGNO[OF s6 that])
  have hdr: "chunk o' n bs' = chunk o' n bs" if "o' + n \<le> pg_lower bs" for o' n
    using that u s(1) by (intro c) linarith+
  show len: "length bs' = length bs" unfolding bs'_def using s6 by simp
  show fl: "pg_flags bs' = pg_flags bs" "pg_pgno bs' = pg_pgno bs"
    using hdr[of 10 2] hdr[of 0 8] u(4) by (simp_all add: pg_flags_def u16_at_def pg_pgno_def)
  have lo: "pg_lower bs' = pg_lower bs" "pg_upper bs' = pg_upper bs"
    using hdr[of 12 2] hdr[of 14 2] u(4) by (simp_all add: pg_lower_def pg_upper_def u16_at_def)
  have "NODEPTR bs' j = NODEPTR bs j" if "j < (pg_lower bs - PAGEHDRSZ) div 2" for j
    unfolding NODEPTR_def u16_at_def using page_offsets_range[OF ok that] by (subst hdr) simp_all
  then have off: "page_offsets bs' = ?o" unfolding page_offsets_def lo by (intro map_cong) simp_all
  have apart: "?o ! j + node_len bs (?o ! j) \<le> ?s \<or> ?s + 6 \<le> ?o ! j" if "j < length ?o" "j \<noteq> i" for j
    using ok that i nl[of ?s] unfolding page_ok_def by fastforce
  have in_page: "?o ! j + node_len bs (?o ! j) \<le> length bs" if "j < length ?o" for j
    using ok that unfolding page_ok_def by auto
  have other: "chunk (?o ! j + k) n bs' = chunk (?o ! j + k) n bs"
    if "j < length ?o" "j \<noteq> i \<or> 6 \<le> k" "k + n \<le> node_len bs (?o ! j)" for j k n
  proof (cases "j = i")
    case True
    then show ?thesis using that in_page[OF that(1)] by (intro c) auto
  next
    case False
    then show ?thesis using that in_page[OF that(1)] apart[OF that(1)] by (intro c) auto
  qed
  have ks: "NODEKSZ bs' (?o ! j) = NODEKSZ bs (?o ! j)" "NODEKEY bs' (?o ! j) = NODEKEY bs (?o ! j)" if "j < length ?o" for j
  proof -
    show k: "NODEKSZ bs' (?o ! j) = NODEKSZ bs (?o ! j)"
      unfolding NODEKSZ_def u16_at_def using other[OF that, of 6 2] nl[of "?o ! j"] by simp
    show "NODEKEY bs' (?o ! j) = NODEKEY bs (?o ! j)"
      unfolding NODEKEY_def k using other[OF that, of 8 "NODEKSZ bs (?o ! j)"] nl[of "?o ! j"] by simp
  qed
  have pn: "NODEPGNO bs' (?o ! j) = (if j = i then pg else NODEPGNO bs (?o ! j))" if "j < length ?o" for j
  proof (cases "j = i")
    case True
    then show ?thesis unfolding bs'_def using NODEPGNO_SETPGNO[OF s6 pg] by simp
  next
    case False
    have "u16_at bs' (?o ! j + k) = u16_at bs (?o ! j + k)" if "k \<le> 6" for k
      unfolding u16_at_def using other[OF \<open>j < length ?o\<close>, of k 2] False that nl[of "?o ! j"] by simp
    from this[of 0] this[of 2] this[of 4] show ?thesis using False by (simp add: NODEPGNO_def)
  qed
  have br': "IS_BRANCH_bytes bs'" using br fl(1) by (simp add: IS_BRANCH_bytes_def)
  have "node_len bs' (?o ! j) = node_len bs (?o ! j)" if "j < length ?o" for j
    using br br' ks(1)[OF that] by (simp add: node_len_def)
  then show "page_ok bs'" using ok unfolding page_ok_def off lo fl len
    by (simp only: all_set_conv_all_nth) simp
  show "branch_nodes bs' = (branch_nodes bs)[i := (fst (branch_nodes bs ! i), of_nat pg)]"
    unfolding branch_nodes_def off using i
    by (intro nth_equalityI) (auto simp: ks pn nth_list_update)
qed

subsection \<open>The tree below a page\<close>

text \<open>The tree the pages stand for, without their numbers, and the pages it is made of.\<close>

datatype btree = BLeaf "(bytes \<times> bytes) list" | BNode "(bytes \<times> btree) list" | BCorrupted

fun decode :: "(mdb_id \<Rightarrow> bytes) \<Rightarrow> nat \<Rightarrow> mdb_id \<Rightarrow> btree" where
  "decode m 0 pg = (if IS_LEAF_bytes (m pg) \<and> \<not> IS_BRANCH_bytes (m pg) then BLeaf (leaf_nodes (m pg)) else BCorrupted)"
| "decode m (Suc h) pg =
     (if IS_BRANCH_bytes (m pg) then BNode (map (\<lambda>n. (fst n, decode m h (snd n))) (branch_nodes (m pg))) else BCorrupted)"

fun subtree :: "(mdb_id \<Rightarrow> bytes) \<Rightarrow> nat \<Rightarrow> mdb_id \<Rightarrow> mdb_id list" where
  "subtree m 0 pg = [pg]"
| "subtree m (Suc h) pg = pg # concat (map (\<lambda>n. subtree m h (snd n)) (branch_nodes (m pg)))"

text \<open>The pages of a cursor, from the root to a leaf.\<close>

fun walk :: "(mdb_id \<Rightarrow> bytes) \<Rightarrow> nat \<Rightarrow> mdb_id \<Rightarrow> mdb_id list \<Rightarrow> nat list \<Rightarrow> bool" where
  "walk m 0 pg pgs ks \<longleftrightarrow> pgs = [pg]"
| "walk m (Suc h) pg pgs ks \<longleftrightarrow>
     (\<exists>ps k ks'. pgs = pg # ps \<and> ks = k # ks' \<and> IS_BRANCH_bytes (m pg) \<and> k < length (branch_nodes (m pg)) \<and>
        walk m h (snd (branch_nodes (m pg) ! k)) ps ks')"

lemma subtree_cong:
  "\<forall>pg \<in> set (subtree m h c). m' pg = m pg \<Longrightarrow> decode m' h c = decode m h c \<and> subtree m' h c = subtree m h c"
proof (induction h arbitrary: c)
  case (Suc h)
  have "m' c = m c" using Suc.prems by simp
  moreover have "decode m' h (snd n) = decode m h (snd n) \<and> subtree m' h (snd n) = subtree m h (snd n)"
    if "n \<in> set (branch_nodes (m c))" for n
    using Suc.prems that by (intro Suc.IH) auto
  ultimately show ?case by (auto intro!: arg_cong[where f = concat] map_cong)
qed simp

lemma walk_cong:
  "walk m h c pgs ks \<Longrightarrow> \<forall>pg \<in> set (subtree m h c). m' pg = m pg \<Longrightarrow> walk m' h c pgs ks"
proof (induction h arbitrary: c pgs ks)
  case (Suc h)
  from Suc.prems(1) obtain ps k ks' where w: "pgs = c # ps" "ks = k # ks'" "IS_BRANCH_bytes (m c)"
      "k < length (branch_nodes (m c))" "walk m h (snd (branch_nodes (m c) ! k)) ps ks'" by auto
  have "\<forall>pg \<in> set (subtree m h (snd (branch_nodes (m c) ! k))). m' pg = m pg"
    using Suc.prems(2) nth_mem[OF w(4)] by auto
  from Suc.IH[OF w(5) this] show ?case using w Suc.prems(2) by simp
qed simp

lemma walk_in_subtree: "walk m h c pgs ks \<Longrightarrow> set pgs \<subseteq> set (subtree m h c) \<and> length pgs = Suc h \<and> hd pgs = c"
proof (induction h arbitrary: c pgs ks)
  case (Suc h)
  then obtain ps k ks' where w: "pgs = c # ps" "k < length (branch_nodes (m c))" "walk m h (snd (branch_nodes (m c) ! k)) ps ks'"
    by auto
  have "set ps \<subseteq> set (subtree m h (snd (branch_nodes (m c) ! k)))" "length ps = Suc h" using Suc.IH[OF w(3)] by auto
  then show ?case using w(1) nth_mem[OF w(2)] by auto
qed simp

text \<open>Two pages with the same nodes.\<close>

definition same_nodes :: "bytes \<Rightarrow> bytes \<Rightarrow> bool" where
  "same_nodes bs bs' \<longleftrightarrow> IS_BRANCH_bytes bs' = IS_BRANCH_bytes bs \<and> IS_LEAF_bytes bs' = IS_LEAF_bytes bs \<and>
     branch_nodes bs' = branch_nodes bs \<and> (\<not> IS_BRANCH_bytes bs \<longrightarrow> leaf_nodes bs' = leaf_nodes bs)"

text \<open>A page replaced by another one with the same nodes, at the root.\<close>

lemma replace_root:
  assumes "same_nodes (m p) (m' q)" "\<forall>pg \<in> set (tl (subtree m h p)). m' pg = m pg"
  shows "decode m' h q = decode m h p" "subtree m' h q = q # tl (subtree m h p)"
    "walk m h p pgs ks \<Longrightarrow> walk m' h q (q # tl pgs) ks"
proof -
  have "decode m' h q = decode m h p \<and> subtree m' h q = q # tl (subtree m h p) \<and>
    (walk m h p pgs ks \<longrightarrow> walk m' h q (q # tl pgs) ks)"
  proof (cases h)
    case 0
    then show ?thesis using assms(1) by (auto simp: same_nodes_def)
  next
    case (Suc h')
    have n: "branch_nodes (m' q) = branch_nodes (m p)" "IS_BRANCH_bytes (m' q) = IS_BRANCH_bytes (m p)"
      using assms(1) by (simp_all add: same_nodes_def)
    have c: "\<forall>pg \<in> set (subtree m h' (snd x)). m' pg = m pg" if "x \<in> set (branch_nodes (m p))" for x
      using assms(2) that Suc by auto
    have "decode m' h' (snd x) = decode m h' (snd x) \<and> subtree m' h' (snd x) = subtree m h' (snd x)"
      if "x \<in> set (branch_nodes (m p))" for x
      by (rule subtree_cong[OF c[OF that]])
    moreover have "walk m' h q (q # tl pgs) ks" if w: "walk m h p pgs ks"
    proof -
      obtain ps k ks' where x: "pgs = p # ps" "ks = k # ks'" "IS_BRANCH_bytes (m p)" "k < length (branch_nodes (m p))"
          "walk m h' (snd (branch_nodes (m p) ! k)) ps ks'"
        using w Suc by auto
      have "walk m' h' (snd (branch_nodes (m p) ! k)) ps ks'" by (rule walk_cong[OF x(5) c[OF nth_mem[OF x(4)]]])
      then show ?thesis using x n Suc by simp
    qed
    ultimately show ?thesis using Suc n by (auto intro!: arg_cong[where f = concat] map_cong)
  qed
  then show "decode m' h q = decode m h p" "subtree m' h q = q # tl (subtree m h p)"
    "walk m h p pgs ks \<Longrightarrow> walk m' h q (q # tl pgs) ks" by auto
qed

lemma distinct_concat_nth:
  "distinct (concat xss) \<Longrightarrow> i < length xss \<Longrightarrow> j < length xss \<Longrightarrow> i \<noteq> j \<Longrightarrow> set (xss ! i) \<inter> set (xss ! j) = {}"
proof (induction xss arbitrary: i j)
  case (Cons xs xss)
  have e: "set xs \<inter> set (xss ! k) = {}" if "k < length xss" for k
    using Cons.prems(1) nth_mem[OF that] by auto
  show ?case using Cons e by (cases i; cases j) auto
qed simp

lemma distinct_concat_part: "distinct (concat xss) \<Longrightarrow> i < length xss \<Longrightarrow> distinct (xss ! i)"
  by (induction xss arbitrary: i) (auto simp: nth_Cons split: nat.split)

text \<open>A page on the path replaced by another one with the same nodes, its parent pointing to the new one.\<close>

definition swap_id :: "mdb_id \<Rightarrow> mdb_id \<Rightarrow> mdb_id \<Rightarrow> mdb_id" where
  "swap_id p q x = (if x = p then q else x)"

lemma map_swap_id: "p \<notin> set xs \<Longrightarrow> map (swap_id p q) xs = xs"
  by (induction xs) (auto simp: swap_id_def)

lemma swap_page:
  assumes "walk m H root pgs ks" "s \<le> H" "distinct (subtree m H root)" "q \<notin> set (subtree m H root)"
    "same_nodes (m (pgs ! s)) (m' q)"
    "\<forall>pg \<in> set (subtree m H root). s = 0 \<or> pg \<noteq> pgs ! (s - 1) \<longrightarrow> m' pg = m pg"
    "0 < s \<longrightarrow> IS_BRANCH_bytes (m' (pgs ! (s - 1))) \<and> branch_nodes (m' (pgs ! (s - 1))) =
       (branch_nodes (m (pgs ! (s - 1))))[ks ! (s - 1) := (fst (branch_nodes (m (pgs ! (s - 1))) ! (ks ! (s - 1))), q)]"
  shows "decode m' H (if s = 0 then q else root) = decode m H root \<and>
    subtree m' H (if s = 0 then q else root) = map (swap_id (pgs ! s) q) (subtree m H root) \<and>
    walk m' H (if s = 0 then q else root) (pgs[s := q]) ks"
  using assms
proof (induction s arbitrary: H root pgs ks)
  case 0
  have w: "hd pgs = root" "length pgs = Suc H" using walk_in_subtree[OF 0(1)] by auto
  then have pgs: "pgs = root # tl pgs" by (cases pgs) auto
  have st: "subtree m H root = root # tl (subtree m H root)" by (cases H) auto
  have nin: "root \<notin> set (tl (subtree m H root))" using 0(3) by (subst (asm) st) auto
  have same: "same_nodes (m root) (m' q)" using 0(5) pgs by (metis nth_Cons_0)
  have "\<forall>pg \<in> set (tl (subtree m H root)). m' pg = m pg" using 0(6) by (metis list.set_sel(2) st list.distinct(1))
  note r = replace_root[OF same this]
  have "map (swap_id (pgs ! 0) q) (subtree m H root) = q # tl (subtree m H root)"
    using map_swap_id[OF nin] pgs by (subst st) (metis list.simps(9) nth_Cons_0 swap_id_def)
  moreover have "pgs[0 := q] = q # tl pgs" by (subst pgs) simp
  ultimately show ?case using r(1,2) r(3)[OF 0(1)] by simp
next
  case (Suc s)
  then obtain h where H: "H = Suc h" "s \<le> h" by (cases H) auto
  let ?bn = "branch_nodes (m root)" and ?bn' = "branch_nodes (m' root)"
  obtain ps k ks' where w: "pgs = root # ps" "ks = k # ks'" "IS_BRANCH_bytes (m root)" "k < length ?bn"
      "walk m h (snd (?bn ! k)) ps ks'"
    using Suc.prems(1) H by auto
  define c c' where "c = snd (?bn ! k)" and "c' = (if s = 0 then q else c)"
  have ps: "set ps \<subseteq> set (subtree m h c)" "length ps = Suc h" "hd ps = c"
    using walk_in_subtree[OF w(5)] by (auto simp: c_def)
  let ?sub = "map (\<lambda>n. subtree m h (snd n)) ?bn"
  have d: "distinct (concat ?sub)" "root \<notin> set (concat ?sub)" using Suc.prems(3) H by auto
  have sub: "set (subtree m h (snd (?bn ! j))) \<subseteq> set (subtree m H root)" "root \<notin> set (subtree m h (snd (?bn ! j)))"
      if "j < length ?bn" for j
    using d(2) nth_mem[OF that] H by auto
  have par: "pgs ! (Suc s - 1) = (if s = 0 then root else ps ! (s - 1))" "pgs ! Suc s = ps ! s"
      "ks ! (Suc s - 1) = (if s = 0 then k else ks' ! (s - 1))"
    using w(1,2) by (simp_all add: nth_Cons')
  have parent_c: "s \<noteq> 0 \<Longrightarrow> ps ! (s - 1) \<in> set (subtree m h c)" using ps(1,2) H(2) by (auto dest!: subsetD)
  have at_c: "ps ! s \<in> set (subtree m h c)" using ps(1,2) H(2) by auto
  have IH: "decode m' h c' = decode m h c \<and> subtree m' h c' = map (swap_id (ps ! s) q) (subtree m h c) \<and>
      walk m' h c' (ps[s := q]) ks'"
    unfolding c'_def
  proof (rule Suc.IH)
    show "walk m h c ps ks'" using w(5) by (simp add: c_def)
    show "s \<le> h" by (rule H(2))
    show "distinct (subtree m h c)" using distinct_concat_part[OF d(1), of k] w(4) by (simp add: c_def)
    show "q \<notin> set (subtree m h c)" using sub(1)[OF w(4)] Suc.prems(4) by (auto simp: c_def)
    show "same_nodes (m (ps ! s)) (m' q)" using Suc.prems(5) par(2) by simp
    show "\<forall>pg \<in> set (subtree m h c). s = 0 \<or> pg \<noteq> ps ! (s - 1) \<longrightarrow> m' pg = m pg"
      using Suc.prems(6) sub[OF w(4)] unfolding par c_def by (auto split: if_splits)
    show "0 < s \<longrightarrow> IS_BRANCH_bytes (m' (ps ! (s - 1))) \<and> branch_nodes (m' (ps ! (s - 1))) =
       (branch_nodes (m (ps ! (s - 1))))[ks' ! (s - 1) := (fst (branch_nodes (m (ps ! (s - 1))) ! (ks' ! (s - 1))), q)]"
      using Suc.prems(7) unfolding par by auto
  qed
  have bn': "?bn' = ?bn[k := (fst (?bn ! k), c')]" "IS_BRANCH_bytes (m' root)"
  proof -
    have "?bn' = ?bn[k := (fst (?bn ! k), c')] \<and> IS_BRANCH_bytes (m' root)"
    proof (cases "s = 0")
      case True
      then show ?thesis using Suc.prems(7) unfolding par by (simp add: c'_def)
    next
      case False
      then have "root \<noteq> ps ! (s - 1)" using parent_c sub(2)[OF w(4)] by (auto simp: c_def)
      then have "m' root = m root" using Suc.prems(6) False H unfolding par by auto
      then show ?thesis using False w(3) by (simp add: c'_def c_def)
    qed
    then show "?bn' = ?bn[k := (fst (?bn ! k), c')]" "IS_BRANCH_bytes (m' root)" by auto
  qed
  have other: "decode m' h (snd (?bn ! j)) = decode m h (snd (?bn ! j)) \<and>
      subtree m' h (snd (?bn ! j)) = map (swap_id (ps ! s) q) (subtree m h (snd (?bn ! j)))"
    if "j < length ?bn" "j \<noteq> k" for j
  proof -
    have "set (subtree m h (snd (?bn ! j))) \<inter> set (subtree m h c) = {}"
      using distinct_concat_nth[OF d(1), of j k] that w(4) by (simp add: c_def)
    then have "ps ! s \<notin> set (subtree m h (snd (?bn ! j)))" "s \<noteq> 0 \<Longrightarrow> ps ! (s - 1) \<notin> set (subtree m h (snd (?bn ! j)))"
      using at_c parent_c by auto
    moreover from this have "\<forall>pg \<in> set (subtree m h (snd (?bn ! j))). m' pg = m pg"
      using Suc.prems(6) sub[OF that(1)] unfolding par by (auto split: if_splits)
    ultimately show ?thesis using subtree_cong map_swap_id by metis
  qed
  have all: "decode m' h (snd (?bn' ! j)) = decode m h (snd (?bn ! j)) \<and> fst (?bn' ! j) = fst (?bn ! j) \<and>
      subtree m' h (snd (?bn' ! j)) = map (swap_id (ps ! s) q) (subtree m h (snd (?bn ! j)))"
    if "j < length ?bn" for j
    using other[OF that] IH w(4) by (cases "j = k") (simp_all add: bn' c_def)
  have len: "length ?bn' = length ?bn" by (simp add: bn')
  have "map (\<lambda>n. (fst n, decode m' h (snd n))) ?bn' = map (\<lambda>n. (fst n, decode m h (snd n))) ?bn"
    using all len by (intro nth_equalityI) simp_all
  moreover have "map (\<lambda>n. subtree m' h (snd n)) ?bn' = map (map (swap_id (ps ! s) q)) ?sub"
    using all len by (intro nth_equalityI) simp_all
  moreover have "swap_id (ps ! s) q root = root" using at_c sub(2)[OF w(4)] by (auto simp: swap_id_def c_def)
  moreover have "walk m' H root (pgs[Suc s := q]) ks"
    using IH bn' w(1,2,4) H by (auto simp: len)
  ultimately show ?case using H w(3) bn'(2) par(2) by (simp add: map_concat)
qed

subsection \<open>The invariant of copying\<close>

lemma alloc_inv_free_pgs [simp]: "alloc_inv fp used E (txn\<lparr>w_free_pgs := x\<rparr>) \<longleftrightarrow> alloc_inv fp used E txn"
proof -
  let ?t = "txn\<lparr>w_free_pgs := x\<rparr>"
  have "freedb_on fp E ?t \<longleftrightarrow> freedb_on fp E txn"
    using freedb_on_frame[of fp E txn fp ?t] freedb_on_frame[of fp E ?t fp txn] by auto
  then show ?thesis
    by (simp add: alloc_inv_def free_order_def head_ok_def head_list_def pending_def available_def dirty_ok_def mdb_find_oldest_def)
qed

lemma alloc_inv_map:
  assumes "alloc_inv fp used E txn" "\<forall>pg \<in> fp. m pg = w_map txn pg" "\<forall>pg. length (m pg) = me_psize txn"
  shows "alloc_inv fp used E (txn\<lparr>w_map := m\<rparr>)"
proof -
  let ?t = "txn\<lparr>w_map := m\<rparr>"
  have "freedb_on fp E ?t" using assms by (intro freedb_on_frame[OF alloc_invD(1)[OF assms(1)]]) auto
  moreover have "free_order E ?t = free_order E txn" "head_ok ?t = head_ok txn" "dirty_ok ?t = dirty_ok txn"
      "available E ?t = available E txn" "mdb_find_oldest ?t = mdb_find_oldest txn"
    by (simp_all add: free_order_def head_ok_def head_list_def pending_def available_def dirty_ok_def mdb_find_oldest_def)
  ultimately show ?thesis using alloc_invD[OF assms(1)] assms(3) unfolding alloc_inv_def by simp
qed

lemma alloc_inv_root:
  assumes "alloc_inv fp used E txn" "dbi \<noteq> FREE_DBI"
  shows "alloc_inv fp used E (txn\<lparr>w_roots := (w_roots txn)(dbi := q)\<rparr>)"
proof -
  let ?t = "txn\<lparr>w_roots := (w_roots txn)(dbi := q)\<rparr>"
  have "freedb_on fp E ?t" using assms by (intro freedb_on_frame[OF alloc_invD(1)[OF assms(1)]]) auto
  moreover have "free_order E ?t = free_order E txn" "head_ok ?t = head_ok txn" "dirty_ok ?t = dirty_ok txn"
      "available E ?t = available E txn" "mdb_find_oldest ?t = mdb_find_oldest txn"
    by (simp_all add: free_order_def head_ok_def head_list_def pending_def available_def dirty_ok_def mdb_find_oldest_def)
  ultimately show ?thesis using alloc_invD[OF assms(1)] unfolding alloc_inv_def by simp
qed

text \<open>The pages of a tree are in use, each once, and none of the free-page database.\<close>

definition tree_pages_ok :: "mdb_id set \<Rightarrow> mdb_id set \<Rightarrow> (mdb_id \<Rightarrow> bytes) \<Rightarrow> mdb_id list \<Rightarrow> bool" where
  "tree_pages_ok fp used m pgs \<longleftrightarrow> distinct pgs \<and> set pgs \<subseteq> used \<and> set pgs \<inter> fp = {} \<and>
     (\<forall>pg \<in> set pgs. page_ok (m pg) \<and> pg_pgno (m pg) = pg)"

definition touch_inv ::
  "mdb_id set \<Rightarrow> mdb_id set \<Rightarrow> (u64 \<times> mdb_id list) list \<Rightarrow> nat \<Rightarrow> wcursor \<Rightarrow> wtxn \<Rightarrow> bool" where
  "touch_inv fp used E H mc txn \<longleftrightarrow> alloc_inv fp used E txn \<and> unat (me_maxpg txn) < 2 ^ 48 \<and>
     midl_inv (w_free_pgs txn) \<and> \<not> w_spills txn \<and> w_loose_pgs txn = [] \<and> wc_dbi mc \<noteq> FREE_DBI \<and>
     Suc H \<le> length (wc_pg mc) \<and>
     walk (w_map txn) H (w_roots txn (wc_dbi mc)) (take (Suc H) (wc_pg mc)) (wc_ki mc) \<and>
     tree_pages_ok fp used (w_map txn) (subtree (w_map txn) H (w_roots txn (wc_dbi mc)))"

lemma midl_xappend_list:
  assumes "midl_inv b" "unat (b ! 1) < unat (b ! 0)"
  shows "midl_inv (mdb_midl_xappend b i)" "midl_list (mdb_midl_xappend b i) = midl_list b @ [i]"
proof -
  obtain n xs where b: "b = block n xs" "n \<le> length xs" "length xs + 2 < 2 ^ 60" using assms(1) by (rule midl_block_cases)
  then have "n < length xs" using assms(2) by simp
  then show "midl_inv (mdb_midl_xappend b i)" "midl_list (mdb_midl_xappend b i) = midl_list b @ [i]"
    using b xappend_block[of n xs i] midl_block[of n xs] midl_block[of "Suc n" "xs[n := i]"] by (simp_all add: take_Suc_update)
qed

lemma walk_step:
  assumes "walk m H root pgs ks" "s < H"
  shows "IS_BRANCH_bytes (m (pgs ! s)) \<and> ks ! s < length (branch_nodes (m (pgs ! s)))"
  using assms
proof (induction s arbitrary: H root pgs ks)
  case 0
  then show ?case by (cases H) auto
next
  case (Suc s)
  then obtain h where H: "H = Suc h" "s < h" by (cases H) auto
  then obtain ps k ks' where "pgs = root # ps" "ks = k # ks'" "walk m h (snd (branch_nodes (m root) ! k)) ps ks'"
    using Suc.prems(1) by auto
  then show ?case using Suc.IH[OF _ H(2)] by auto
qed

lemma walk_distinct: "walk m H root pgs ks \<Longrightarrow> distinct (subtree m H root) \<Longrightarrow> distinct pgs"
proof (induction H arbitrary: root pgs ks)
  case (Suc h)
  let ?bn = "branch_nodes (m root)"
  obtain ps k ks' where w: "pgs = root # ps" "k < length ?bn" "walk m h (snd (?bn ! k)) ps ks'"
    using Suc.prems(1) by auto
  have d: "distinct (concat (map (\<lambda>n. subtree m h (snd n)) ?bn))" "root \<notin> set (subtree m h (snd (?bn ! k)))"
    using Suc.prems(2) nth_mem[OF w(2)] by auto
  have "distinct (subtree m h (snd (?bn ! k)))" using distinct_concat_part[OF d(1), of k] w(2) by simp
  then have "distinct ps" by (rule Suc.IH[OF w(3)])
  then show ?case using w(1) d(2) walk_in_subtree[OF w(3)] by auto
qed simp

lemma offsets_nth: "i < length (page_offsets bs) \<Longrightarrow> page_offsets bs ! i = NODEPTR bs i"
  by (simp add: page_offsets_def)

lemma fresh_copy_nodes:
  assumes "page_ok src" "length dst = psize" "length src = psize"
  shows "same_nodes src (fresh_copy psize dst src q)" "page_ok (fresh_copy psize dst src q)"
    "length (fresh_copy psize dst src q) = psize"
proof -
  note f = fresh_copy_agrees[OF assms, of q]
  note a = agree_page_ok[OF assms(1) f(1)] agree_nodes[OF assms(1) f(1)]
  show "same_nodes src (fresh_copy psize dst src q)" unfolding same_nodes_def using a f(3) by simp
  show "page_ok (fresh_copy psize dst src q)" using a(1) f(3) by simp
  show "length (fresh_copy psize dst src q) = psize" using f(1) assms(3) by (simp add: agree_def)
qed

text \<open>One step of copy-on-write on the map: the page at depth \<open>s\<close> of the path moves to \<open>q\<close>.\<close>

definition cow_map :: "nat \<Rightarrow> mdb_id list \<Rightarrow> nat list \<Rightarrow> nat \<Rightarrow> mdb_id \<Rightarrow> bytes \<Rightarrow> (mdb_id \<Rightarrow> bytes) \<Rightarrow> mdb_id \<Rightarrow> bytes" where
  "cow_map s pgs ks psize q dst m =
     (if s = 0 then m
      else m(pgs ! (s - 1) := SETPGNO (m (pgs ! (s - 1))) (NODEPTR (m (pgs ! (s - 1))) (ks ! (s - 1))) (unat q)))
     (q := fresh_copy psize dst (m (pgs ! s)) q)"

lemma cow_step:
  assumes w: "walk m H root pgs ks" "s \<le> H" and t: "tree_pages_ok fp used m (subtree m H root)"
    and q: "q \<notin> used" "fp \<subseteq> used" "unat q < 2 ^ 48" and len: "\<forall>pg. length (m pg) = psize" "length dst = psize"
  defines "m' \<equiv> cow_map s pgs ks psize q dst m" and "root' \<equiv> if s = 0 then q else root"
  shows "decode m' H root' = decode m H root" "walk m' H root' (pgs[s := q]) ks"
    "subtree m' H root' = map (swap_id (pgs ! s) q) (subtree m H root)"
    "tree_pages_ok fp (insert q used) m' (subtree m' H root')" "\<forall>pg. length (m' pg) = psize"
    "pg_flags (m' q) = pg_flags (m (pgs ! s)) OR P_DIRTY"
    "s \<noteq> 0 \<longrightarrow> pg_flags (m' (pgs ! (s - 1))) = pg_flags (m (pgs ! (s - 1)))"
proof -
  let ?p = "pgs ! s" and ?r = "pgs ! (s - 1)" and ?st = "subtree m H root"
  have t': "distinct ?st" "set ?st \<subseteq> used" "set ?st \<inter> fp = {}" "\<And>pg. pg \<in> set ?st \<Longrightarrow> page_ok (m pg)"
      "\<And>pg. pg \<in> set ?st \<Longrightarrow> pg_pgno (m pg) = pg"
    using t unfolding tree_pages_ok_def by blast+
  have ws: "set pgs \<subseteq> set ?st" "length pgs = Suc H" using walk_in_subtree[OF w(1)] by auto
  have p: "?p \<in> set ?st" "?r \<in> set ?st" using ws w(2) by (auto dest!: subsetD)
  have ne: "?p \<noteq> q" "?r \<noteq> q" using p t'(2) q(1) by blast+
  have pr: "s \<noteq> 0 \<Longrightarrow> ?r \<noteq> ?p"
    using walk_distinct[OF w(1) t'(1)] ws(2) w(2) by (simp add: nth_eq_iff_index_eq)
  have m'q: "m' q = fresh_copy psize dst (m ?p) q" by (simp add: m'_def cow_map_def)
  note cp = fresh_copy_nodes[OF t'(4)[OF p(1)] len(2), of q] fresh_copy_agrees[OF t'(4)[OF p(1)] len(2), of q]
  have lp: "length (m ?p) = psize" using len(1) by blast
  note cp = cp[OF lp]
  have other: "m' pg = m pg" if "pg \<noteq> q" "s = 0 \<or> pg \<noteq> ?r" for pg using that by (auto simp: m'_def cow_map_def)
  have par: "length (m' ?r) = psize \<and> page_ok (m' ?r) \<and> pg_flags (m' ?r) = pg_flags (m ?r) \<and> pg_pgno (m' ?r) = ?r \<and>
      branch_nodes (m' ?r) = (branch_nodes (m ?r))[ks ! (s - 1) := (fst (branch_nodes (m ?r) ! (ks ! (s - 1))), q)] \<and>
      IS_BRANCH_bytes (m' ?r)"
    if "s \<noteq> 0"
  proof -
    have b: "IS_BRANCH_bytes (m ?r)" "ks ! (s - 1) < length (page_offsets (m ?r))"
      using walk_step[OF w(1), of "s - 1"] that w(2) by (simp_all add: branch_nodes_def)
    have "m' ?r = SETPGNO (m ?r) (page_offsets (m ?r) ! (ks ! (s - 1))) (unat q)"
      using that ne(2) offsets_nth[OF b(2)] by (simp add: m'_def cow_map_def)
    then show ?thesis
      using SETPGNO_page[OF t'(4)[OF p(2)] b q(3)] len(1) t'(5)[OF p(2)] b(1) by (simp add: IS_BRANCH_bytes_def)
  qed
  have "decode m' H root' = decode m H root \<and> subtree m' H root' = map (swap_id ?p q) ?st \<and> walk m' H root' (pgs[s := q]) ks"
    unfolding root'_def
  proof (rule swap_page[OF w t'(1)])
    show "q \<notin> set ?st" using t'(2) q(1) by blast
    show "same_nodes (m ?p) (m' q)" using cp(1) m'q by simp
    show "\<forall>pg \<in> set ?st. s = 0 \<or> pg \<noteq> ?r \<longrightarrow> m' pg = m pg"
      by (intro ballI impI, rule other) (use t'(2) q(1) in blast)+
    show "0 < s \<longrightarrow> IS_BRANCH_bytes (m' ?r) \<and> branch_nodes (m' ?r) =
       (branch_nodes (m ?r))[ks ! (s - 1) := (fst (branch_nodes (m ?r) ! (ks ! (s - 1))), q)]"
      using par by simp
  qed
  then show "decode m' H root' = decode m H root" "walk m' H root' (pgs[s := q]) ks"
    and st': "subtree m' H root' = map (swap_id ?p q) ?st" by auto
  show lens: "\<forall>pg. length (m' pg) = psize"
  proof
    fix pg
    show "length (m' pg) = psize"
      using other[of pg] par cp(3) m'q len(1) by (cases "pg = q"; cases "s = 0 \<or> pg \<noteq> ?r") auto
  qed
  show "pg_flags (m' q) = pg_flags (m ?p) OR P_DIRTY" using cp(6) m'q by simp
  show "s \<noteq> 0 \<longrightarrow> pg_flags (m' ?r) = pg_flags (m ?r)" using par by blast
  have new: "pg \<in> set (subtree m' H root') \<Longrightarrow> pg = q \<or> pg \<in> set ?st \<and> pg \<noteq> ?p" for pg
    unfolding st' by (auto simp: swap_id_def split: if_splits)
  have "page_ok (m' pg) \<and> pg_pgno (m' pg) = pg" if "pg \<in> set (subtree m' H root')" for pg
  proof (cases "pg = q")
    case True
    then show ?thesis using cp(2,5) m'q by simp
  next
    case False
    then have "pg \<in> set ?st" using new[OF that] by blast
    then show ?thesis using other[OF False] par t'(4,5) by (cases "s = 0 \<or> pg \<noteq> ?r") auto
  qed
  moreover have "distinct (subtree m' H root')"
    unfolding st' distinct_map using t'(1,2) q(1) by (auto simp: inj_on_def swap_id_def split: if_splits)
  ultimately show "tree_pages_ok fp (insert q used) m' (subtree m' H root')"
    using new t'(2,3) q(1,2) unfolding tree_pages_ok_def by blast
qed

subsection \<open>Touching\<close>

text \<open>What a step leaves alone: the tree, and every page but the new one and the parent.\<close>

definition page_dirtied :: "wtxn \<Rightarrow> mdb_id \<Rightarrow> bool" where
  "page_dirtied txn pg \<longleftrightarrow> pg_flags (w_map txn pg) AND P_DIRTY = P_DIRTY"

lemma page_alloc_full:
  assumes "w_dirty_room txn = 0" "w_loose_pgs txn = []"
  shows "mdb_page_alloc malloc fuel 1 txn = Some (Inl MDB_TXN_FULL, txn\<lparr>w_error := True\<rparr>)"
  using assms by (simp add: mdb_page_alloc_def page_alloc_free_def)

lemma allocated_one:
  assumes "allocated fp used E 1 txn q t2"
  shows "alloc_inv fp (insert q used) E t2" "q \<notin> used" "dirty_pages t2 = dirty_pages txn @ [q]"
    "\<exists>h l old n dl. t2 = txn\<lparr>me_pghead := h, me_pglast := l, me_pgoldest := old, w_next_pgno := n,
        w_map := (w_map txn)(q := set_pgno q (w_map txn q)), w_dirty := dl, w_dirty_room := w_dirty_room txn - 1\<rparr>"
proof -
  have "page_range q 1 = {q}" by (auto simp: image_def)
  then show "alloc_inv fp (insert q used) E t2" "q \<notin> used" "dirty_pages t2 = dirty_pages txn @ [q]"
    using assms unfolding allocated_def by auto
  show "\<exists>h l old n dl. t2 = txn\<lparr>me_pghead := h, me_pglast := l, me_pgoldest := old, w_next_pgno := n,
        w_map := (w_map txn)(q := set_pgno q (w_map txn q)), w_dirty := dl, w_dirty_room := w_dirty_room txn - 1\<rparr>"
    using assms unfolding allocated_def by (elim conjE)
qed

lemma touch_copy_spec:
  assumes malloc: "malloc_ok malloc" and inv: "touch_inv fp used E H mc txn" and fuel: "length E < fuel"
    and s: "wc_top mc \<le> H" and small: "unat (w_free_pgs txn ! 1) + 1 < 2 ^ 31"
  defines "p \<equiv> wc_pg mc ! wc_top mc" and "root \<equiv> w_roots txn (wc_dbi mc)"
  shows "(\<exists>rc txn'. touch_copy malloc fuel mc others txn = Some (rc, mc, others, txn') \<and> rc \<noteq> 0 \<and> w_error txn' \<and>
      w_map txn' = w_map txn \<and> w_roots txn' = w_roots txn) \<or>
    (\<exists>q txn' dst. touch_copy malloc fuel mc others txn =
        Some (0, mc\<lparr>wc_pg := (wc_pg mc)[wc_top mc := q]\<rparr>, map (adjust_cursor mc p q) others, txn') \<and>
      q \<notin> used \<and> unat q < 2 ^ 48 \<and> length dst = me_psize txn \<and>
      w_map txn' = cow_map (wc_top mc) (take (Suc H) (wc_pg mc)) (wc_ki mc) (me_psize txn) q dst (w_map txn) \<and>
      w_roots txn' = (if wc_top mc = 0 then (w_roots txn)(wc_dbi mc := q) else w_roots txn) \<and>
      alloc_inv fp (insert q used) E txn' \<and> midl_inv (w_free_pgs txn') \<and>
      midl_list (w_free_pgs txn') = midl_list (w_free_pgs txn) @ [p] \<and>
      dirty_pages txn' = dirty_pages txn @ [q] \<and> \<not> w_spills txn' \<and> w_loose_pgs txn' = [] \<and>
      me_maxpg txn' = me_maxpg txn \<and> me_psize txn' = me_psize txn)"
proof -
  let ?m = "w_map txn" and ?s = "wc_top mc"
  let ?r = "wc_pg mc ! (?s - 1)"
  have I: "alloc_inv fp used E txn" "unat (me_maxpg txn) < 2 ^ 48" "midl_inv (w_free_pgs txn)" "\<not> w_spills txn"
      "w_loose_pgs txn = []" "wc_dbi mc \<noteq> FREE_DBI" "Suc H \<le> length (wc_pg mc)"
      "walk ?m H root (take (Suc H) (wc_pg mc)) (wc_ki mc)" "tree_pages_ok fp used ?m (subtree ?m H root)"
    using inv unfolding touch_inv_def root_def by blast+
  have pg: "take (Suc H) (wc_pg mc) ! ?s = p" "take (Suc H) (wc_pg mc) ! (?s - 1) = ?r" using s by (simp_all add: p_def)
  have ws: "set (take (Suc H) (wc_pg mc)) \<subseteq> set (subtree ?m H root)" "length (take (Suc H) (wc_pg mc)) = Suc H"
    using walk_in_subtree[OF I(8)] by blast+
  have "take (Suc H) (wc_pg mc) ! i \<in> set (subtree ?m H root)" if "i \<le> H" for i
    using nth_mem[of i "take (Suc H) (wc_pg mc)"] ws that by (simp only: le_imp_less_Suc) blast
  from this[of ?s] this[of "?s - 1"] have in_tree: "p \<in> set (subtree ?m H root)" "?r \<in> set (subtree ?m H root)"
    using s pg by simp_all
  have pp: "p \<in> used" "pg_pgno (?m p) = p" "?r \<in> used" "?r \<notin> fp"
    using in_tree I(9) unfolding tree_pages_ok_def by blast+
  obtain rc ids where n: "mdb_midl_need malloc (w_free_pgs txn) 1 = (rc, ids)" by fastforce
  have "unat (w_free_pgs txn ! 1) + unat (1 :: u32) < 2 ^ 31" using small by simp
  note need = need_room[OF malloc I(3) this, unfolded n prod.case]
  show ?thesis
  proof (cases "rc = 0")
    case False
    then have "touch_copy malloc fuel mc others txn = Some (rc, mc, others, txn\<lparr>w_free_pgs := ids, w_error := True\<rparr>)"
      by (simp add: touch_copy_def n)
    then show ?thesis using False by (intro disjI1) auto
  next
    case True
    then have ids: "midl_inv ids" "midl_list ids = midl_list (w_free_pgs txn)" "unat (w_free_pgs txn ! 1) + 1 \<le> unat (ids ! 0)"
      using need by auto
    have cnt: "unat (ids ! 1) < unat (ids ! 0)"
      using ids midl_invD(5)[OF ids(1)] midl_invD(5)[OF I(3)] by simp
    let ?t = "txn\<lparr>w_free_pgs := ids\<rparr>"
    have go: "touch_copy malloc fuel mc others txn =
        (case mdb_page_alloc malloc fuel 1 ?t of
           None \<Rightarrow> None
         | Some (Inl rc, txn) \<Rightarrow> Some (rc, mc, others, txn\<lparr>w_error := True\<rparr>)
         | Some (Inr np, txn) \<Rightarrow>
             (let pgno = pg_pgno (w_map txn np) in
              if pg_pgno (w_map txn p) = pgno then None
              else
                (let txn = txn\<lparr>w_free_pgs := mdb_midl_xappend (w_free_pgs txn) (pg_pgno (w_map txn p))\<rparr>;
                     txn = repoint mc pgno txn;
                     txn = txn\<lparr>w_map := (w_map txn)(np := fresh_copy (me_psize txn) (w_map txn np) (w_map txn p) pgno)\<rparr>
                 in touch_done mc others p np txn)))"
      using True by (simp add: touch_copy_def n p_def[symmetric] Let_def)
    have err: ?thesis if "mdb_page_alloc malloc fuel 1 ?t = Some (Inl rc, t)" "rc \<noteq> 0" "w_map t = ?m" "w_roots t = w_roots txn" for rc t
      using that unfolding go by (intro disjI1) auto
    show ?thesis
    proof (cases "w_dirty_room txn = 0")
      case full: True
      then have "mdb_page_alloc malloc fuel 1 ?t = Some (Inl MDB_TXN_FULL, ?t\<lparr>w_error := True\<rparr>)"
        using I(5) by (intro page_alloc_full) simp_all
      then show ?thesis by (rule err) simp_all
    next
      case room: False
      have ai: "alloc_inv fp used E ?t" using I(1) by simp
      consider (err) rc h l old where "mdb_page_alloc malloc fuel 1 ?t =
          Some (Inl rc, ?t\<lparr>me_pghead := h, me_pglast := l, me_pgoldest := old, w_error := True\<rparr>)" "rc = MDB_MAP_FULL \<or> rc = ENOMEM"
        | (ok) q t2 where "mdb_page_alloc malloc fuel 1 ?t = Some (Inr q, t2)" "allocated fp used E 1 ?t q t2"
        using page_alloc_spec[OF malloc ai, of 1 fuel] I(5) room fuel by auto
      then show ?thesis
      proof cases
        case err1: err
        show ?thesis by (rule err[OF err1(1)]) (use err1(2) in auto)
      next
        case (ok q t2)
        note a = allocated_one[OF ok(2)]
        obtain h l old n dl where "t2 = ?t\<lparr>me_pghead := h, me_pglast := l, me_pgoldest := old, w_next_pgno := n,
            w_map := (w_map ?t)(q := set_pgno q (w_map ?t q)), w_dirty := dl, w_dirty_room := w_dirty_room ?t - 1\<rparr>"
          using a(4) by blast
        then have t2: "t2 = txn\<lparr>w_free_pgs := ids, me_pghead := h, me_pglast := l, me_pgoldest := old, w_next_pgno := n,
            w_map := ?m(q := set_pgno q (?m q)), w_dirty := dl, w_dirty_room := w_dirty_room txn - 1\<rparr>"
          by simp
        have ne: "p \<noteq> q" "?r \<noteq> q" using pp(1,3) a(2) by auto
        have len: "\<forall>pg. length (?m pg) = me_psize txn" "16 \<le> me_psize txn" using alloc_invD(9,10)[OF I(1)] by simp_all
        have qn: "pg_pgno (w_map t2 q) = q" "pg_pgno (w_map t2 p) = p" using len ne pp(2) by (simp_all add: t2)
        have q48: "unat q < 2 ^ 48"
          using alloc_invD(8)[OF a(1)] alloc_invD(11)[OF a(1)] I(2) by (simp add: t2 word_less_nat_alt word_le_nat_alt)
        define dst where "dst = set_pgno q (?m q)"
        define txn' where "txn' =
          (let t = repoint mc q (t2\<lparr>w_free_pgs := mdb_midl_xappend ids p\<rparr>) in
           t\<lparr>w_map := (w_map t)(q := fresh_copy (me_psize t) (w_map t q) (w_map t p) q)\<rparr>)"
        have run: "touch_copy malloc fuel mc others txn =
            Some (0, mc\<lparr>wc_pg := (wc_pg mc)[?s := q]\<rparr>, map (adjust_cursor mc p q) others, txn')"
          unfolding go ok(1) option.case prod.case sum.case using qn ne
          by (simp add: Let_def touch_done_def txn'_def) (simp add: t2)
        have dist: "distinct (take (Suc H) (wc_pg mc))"
          using walk_distinct[OF I(8)] I(9) unfolding tree_pages_ok_def by blast
        have pr: "?r \<noteq> p" if "?s \<noteq> 0"
        proof -
          have "?s < length (take (Suc H) (wc_pg mc))" "?s - 1 < length (take (Suc H) (wc_pg mc))" "?s \<noteq> ?s - 1"
            unfolding ws(2) using s that by simp_all
          then show ?thesis using nth_eq_iff_index_eq[OF dist] pg by metis
        qed
        define m' where "m' = cow_map ?s (take (Suc H) (wc_pg mc)) (wc_ki mc) (me_psize txn) q dst ?m"
        have txn': "txn' = t2\<lparr>w_free_pgs := mdb_midl_xappend ids p, w_map := m',
            w_roots := (if ?s = 0 then (w_roots txn)(wc_dbi mc := q) else w_roots txn)\<rparr>"
          using ne pr unfolding txn'_def repoint_def m'_def cow_map_def pg
          by (cases "?s = 0") (simp_all add: t2 Let_def dst_def fun_upd_twist)
        have dlen: "length dst = me_psize txn" using len by (simp add: dst_def)
        have m'len: "\<forall>pg. length (m' pg) = me_psize t2"
          using cow_step(5)[OF I(8) s I(9) a(2) alloc_invD(13)[OF I(1)] q48 len(1) dlen] by (simp add: m'_def t2)
        have "m' pg = w_map t2 pg" if "pg \<in> fp" for pg
          using that alloc_invD(13)[OF I(1)] a(2) pp(4) unfolding m'_def cow_map_def pg by (auto simp: t2)
        then have "alloc_inv fp (insert q used) E (t2\<lparr>w_free_pgs := mdb_midl_xappend ids p, w_map := m'\<rparr>)"
          using a(1) m'len by (intro alloc_inv_map) simp_all
        then have "alloc_inv fp (insert q used) E txn'"
          using alloc_inv_root[of fp "insert q used" E "t2\<lparr>w_free_pgs := mdb_midl_xappend ids p, w_map := m'\<rparr>" "wc_dbi mc" q] I(6)
          unfolding txn' by (cases "?s = 0") (simp_all add: t2)
        moreover have "midl_inv (w_free_pgs txn')" "midl_list (w_free_pgs txn') = midl_list (w_free_pgs txn) @ [p]"
          using midl_xappend_list[OF ids(1) cnt] ids(2) by (simp_all add: txn')
        moreover have "dirty_pages txn' = dirty_pages txn @ [q]" using a(3) by (simp add: dirty_pages_def txn')
        moreover have "\<not> w_spills txn'" "w_loose_pgs txn' = []" "me_maxpg txn' = me_maxpg txn" "me_psize txn' = me_psize txn"
            "w_map txn' = m'" "w_roots txn' = (if ?s = 0 then (w_roots txn)(wc_dbi mc := q) else w_roots txn)"
          using I(4,5) by (simp_all add: txn') (simp_all add: t2)
        ultimately show ?thesis using run a(2) q48 dlen unfolding m'_def by blast
      qed
    qed
  qed
qed

text \<open>
  What touching does, as a relation between the states: the tree stays as it is, and so
  does every page in use that was not dirty before.
\<close>

definition cow_rel :: "mdb_id set \<Rightarrow> nat \<Rightarrow> nat \<Rightarrow> wtxn \<Rightarrow> wtxn \<Rightarrow> bool" where
  "cow_rel used H dbi txn txn' \<longleftrightarrow>
     decode (w_map txn') H (w_roots txn' dbi) = decode (w_map txn) H (w_roots txn dbi) \<and>
     (\<forall>pg \<in> used. \<not> page_dirtied txn pg \<longrightarrow> w_map txn' pg = w_map txn pg)"

lemma cow_rel_refl [simp]: "cow_rel used H dbi txn txn"
  by (simp add: cow_rel_def)

lemma cow_rel_trans:
  assumes "cow_rel used H dbi t t'" "cow_rel used' H dbi t' t''" "used \<subseteq> used'"
  shows "cow_rel used H dbi t t''"
  using assms unfolding cow_rel_def page_dirtied_def by (metis subsetD)

lemma touch_inv_top [simp]:
  "touch_inv fp used E H (mc\<lparr>wc_top := k\<rparr>) txn \<longleftrightarrow> touch_inv fp used E H mc txn"
  by (simp add: touch_inv_def)

text \<open>The pages of the path from depth \<open>k\<close> on that are not dirty yet.\<close>

definition clean_pages :: "nat \<Rightarrow> nat \<Rightarrow> wcursor \<Rightarrow> wtxn \<Rightarrow> mdb_id list" where
  "clean_pages k H mc txn = filter (\<lambda>pg. \<not> page_dirtied txn pg) (drop k (take (Suc H) (wc_pg mc)))"

lemma page_touch_spec:
  assumes malloc: "malloc_ok malloc" and inv: "touch_inv fp used E H mc txn" and fuel: "length E < fuel"
    and s: "wc_top mc \<le> H" and small: "length (midl_list (w_free_pgs txn)) + 1 < 2 ^ 31"
    and above: "\<forall>i < wc_top mc. page_dirtied txn (wc_pg mc ! i)"
  shows "\<exists>rc mc' others' txn' used'. mdb_page_touch malloc fuel mc others txn = Some (rc, mc', others', txn') \<and>
    cow_rel used H (wc_dbi mc) txn txn' \<and>
    (rc \<noteq> 0 \<and> w_error txn' \<or>
     rc = 0 \<and> touch_inv fp used' E H mc' txn' \<and> used \<subseteq> used' \<and> wc_dbi mc' = wc_dbi mc \<and>
       (\<forall>i \<le> wc_top mc. page_dirtied txn' (wc_pg mc' ! i)) \<and>
       length (midl_list (w_free_pgs txn')) \<le> Suc (length (midl_list (w_free_pgs txn))) \<and>
       midl_list (w_free_pgs txn') @ clean_pages (Suc (wc_top mc)) H mc' txn' =
         midl_list (w_free_pgs txn) @ clean_pages (wc_top mc) H mc txn)"
proof -
  let ?s = "wc_top mc" and ?m = "w_map txn" and ?pgs = "take (Suc H) (wc_pg mc)"
  define p where "p = wc_pg mc ! ?s"
  have I: "\<not> w_spills txn" "Suc H \<le> length (wc_pg mc)" using inv unfolding touch_inv_def by blast+
  have split: "drop ?s ?pgs = p # drop (Suc ?s) ?pgs" using I(2) s by (subst Cons_nth_drop_Suc[symmetric]) (simp_all add: p_def)
  show ?thesis
  proof (cases "page_dirtied txn p")
    case True
    then have "mdb_page_touch malloc fuel mc others txn = Some (0, mc, others, txn)"
      by (simp add: mdb_page_touch_def page_dirtied_def p_def)
    moreover have "\<forall>i \<le> ?s. page_dirtied txn (wc_pg mc ! i)" using above True by (auto simp: p_def le_less)
    moreover have "clean_pages (Suc ?s) H mc txn = clean_pages ?s H mc txn"
      using True by (simp add: clean_pages_def split)
    ultimately show ?thesis using inv by (intro exI[of _ 0] exI[of _ mc] exI[of _ others] exI[of _ txn] exI[of _ used]) simp
  next
    case False
    then have step: "mdb_page_touch malloc fuel mc others txn = touch_copy malloc fuel mc others txn"
      using I(1) by (simp add: mdb_page_touch_def page_dirtied_def p_def Let_def)
    have cnt: "unat (w_free_pgs txn ! 1) + 1 < 2 ^ 31"
      using small inv midl_invD(5) unfolding touch_inv_def by metis
    consider (err) rc txn' where "touch_copy malloc fuel mc others txn = Some (rc, mc, others, txn')" "rc \<noteq> 0" "w_error txn'"
        "w_map txn' = ?m" "w_roots txn' = w_roots txn"
      | (ok) q txn' dst where "touch_copy malloc fuel mc others txn =
          Some (0, mc\<lparr>wc_pg := (wc_pg mc)[?s := q]\<rparr>, map (adjust_cursor mc p q) others, txn')"
          "q \<notin> used" "unat q < 2 ^ 48" "length dst = me_psize txn"
          "w_map txn' = cow_map ?s ?pgs (wc_ki mc) (me_psize txn) q dst ?m"
          "w_roots txn' = (if ?s = 0 then (w_roots txn)(wc_dbi mc := q) else w_roots txn)"
          "alloc_inv fp (insert q used) E txn'" "midl_inv (w_free_pgs txn')"
          "midl_list (w_free_pgs txn') = midl_list (w_free_pgs txn) @ [p]"
          "dirty_pages txn' = dirty_pages txn @ [q]" "\<not> w_spills txn'" "w_loose_pgs txn' = []"
          "me_maxpg txn' = me_maxpg txn" "me_psize txn' = me_psize txn"
      using touch_copy_spec[OF malloc inv fuel s cnt, of others, folded p_def] by blast
    then show ?thesis
    proof cases
      case err
      then show ?thesis unfolding step by (intro exI conjI disjI1) (auto simp: cow_rel_def)
    next
      case (ok q txn' dst)
      let ?mc = "mc\<lparr>wc_pg := (wc_pg mc)[?s := q]\<rparr>"
      define root where "root = w_roots txn (wc_dbi mc)"
      have J: "alloc_inv fp used E txn" "unat (me_maxpg txn) < 2 ^ 48" "wc_dbi mc \<noteq> FREE_DBI"
          "walk ?m H root ?pgs (wc_ki mc)" "tree_pages_ok fp used ?m (subtree ?m H root)"
        using inv unfolding touch_inv_def root_def by blast+
      have len: "\<forall>pg. length (?m pg) = me_psize txn" "fp \<subseteq> used" using alloc_invD(9,13)[OF J(1)] by blast+
      have pg: "?pgs ! ?s = p" "?pgs ! (?s - 1) = wc_pg mc ! (?s - 1)" using s by (simp_all add: p_def)
      note c = cow_step[OF J(4) s J(5) ok(2) len(2) ok(3) len(1) ok(4), folded ok(5), unfolded pg]
      have root': "w_roots txn' (wc_dbi mc) = (if ?s = 0 then q else root)" using ok(6) by (simp add: root_def)
      have pgs': "take (Suc H) (wc_pg ?mc) = ?pgs[?s := q]" by (simp add: take_update_swap)
      have path: "wc_pg mc ! i \<in> used" if "i \<le> H" for i
      proof -
        have "?pgs ! i \<in> set (subtree ?m H root)"
          using walk_in_subtree[OF J(4)] nth_mem[of i ?pgs] that by auto
        then have "?pgs ! i \<in> used" using J(5) unfolding tree_pages_ok_def by blast
        then show ?thesis using that by simp
      qed
      have same: "w_map txn' pg = ?m pg" if "pg \<in> used" "?s = 0 \<or> pg \<noteq> wc_pg mc ! (?s - 1)" for pg
        using that ok(2) unfolding ok(5) cow_map_def pg by auto
      have flags: "page_dirtied txn' pg = page_dirtied txn pg" if "pg \<in> used" for pg
        using same[OF that] c(7) unfolding page_dirtied_def by (cases "?s = 0 \<or> pg \<noteq> wc_pg mc ! (?s - 1)") auto
      have "touch_inv fp (insert q used) E H ?mc txn'"
        using ok(7,8,11,12,13) J(2,3) I(2) c(2,4) unfolding touch_inv_def pgs' by (simp add: root')
      moreover have "cow_rel used H (wc_dbi mc) txn txn'"
      proof -
        have "w_map txn' pg = ?m pg" if "pg \<in> used" "\<not> page_dirtied txn pg" for pg
          using that above by (intro same) (auto intro!: gr0I)
        then show ?thesis using c(1) unfolding cow_rel_def root' root_def[symmetric] by blast
      qed
      moreover have "page_dirtied txn' (wc_pg ?mc ! i)" if "i \<le> ?s" for i
      proof (cases "i = ?s")
        case True
        then show ?thesis using c(6) dirty_flag(4) I(2) s by (simp add: page_dirtied_def)
      next
        case False
        then show ?thesis using that above flags[OF path[of i]] s by simp
      qed
      moreover have "clean_pages (Suc ?s) H ?mc txn' = clean_pages (Suc ?s) H mc txn"
      proof -
        have "page_dirtied txn' pg = page_dirtied txn pg" if "pg \<in> set (drop (Suc ?s) ?pgs)" for pg
          using that walk_in_subtree[OF J(4)] J(5) unfolding tree_pages_ok_def
          by (intro flags) (meson in_set_dropD subsetD)
        then show ?thesis unfolding clean_pages_def pgs' by (simp cong: filter_cong)
      qed
      moreover have "clean_pages ?s H mc txn = p # clean_pages (Suc ?s) H mc txn"
        using False unfolding clean_pages_def split by simp
      ultimately show ?thesis
        unfolding step ok(1) using ok(9)
        by (intro exI[of _ 0] exI[of _ ?mc] exI[of _ "map (adjust_cursor mc p q) others"] exI[of _ txn'] exI[of _ "insert q used"])
          auto
    qed
  qed
qed

lemma touch_loop_spec:
  assumes malloc: "malloc_ok malloc" and fuel: "length E < fuel"
  shows "touch_inv fp used E H mc txn \<Longrightarrow> wc_snum mc = Suc H \<Longrightarrow> wc_top mc + n = H \<Longrightarrow>
    length (midl_list (w_free_pgs txn)) + Suc n < 2 ^ 31 \<Longrightarrow> \<forall>i < wc_top mc. page_dirtied txn (wc_pg mc ! i) \<Longrightarrow>
    \<exists>rc mc' others' txn' used'. cursor_touch_loop malloc fuel mc others txn = Some (rc, mc', others', txn') \<and>
      cow_rel used H (wc_dbi mc) txn txn' \<and>
      (rc \<noteq> 0 \<and> w_error txn' \<or>
       rc = 0 \<and> touch_inv fp used' E H mc' txn' \<and> used \<subseteq> used' \<and> wc_dbi mc' = wc_dbi mc \<and>
         (\<forall>i \<le> H. page_dirtied txn' (wc_pg mc' ! i)) \<and>
         midl_list (w_free_pgs txn') = midl_list (w_free_pgs txn) @ clean_pages (wc_top mc) H mc txn)"
proof (induction n arbitrary: used mc others txn)
  case 0
  obtain rc mc' others' txn' used' where t: "mdb_page_touch malloc fuel mc others txn = Some (rc, mc', others', txn')"
      "cow_rel used H (wc_dbi mc) txn txn'"
      "rc \<noteq> 0 \<and> w_error txn' \<or>
       rc = 0 \<and> touch_inv fp used' E H mc' txn' \<and> used \<subseteq> used' \<and> wc_dbi mc' = wc_dbi mc \<and>
         (\<forall>i \<le> wc_top mc. page_dirtied txn' (wc_pg mc' ! i)) \<and>
         length (midl_list (w_free_pgs txn')) \<le> Suc (length (midl_list (w_free_pgs txn))) \<and>
         midl_list (w_free_pgs txn') @ clean_pages (Suc (wc_top mc)) H mc' txn' =
           midl_list (w_free_pgs txn) @ clean_pages (wc_top mc) H mc txn"
    using page_touch_spec[OF malloc 0(1) fuel _ _ 0(5), of others] 0(3,4) by auto
  have top: "wc_top mc' = H" "wc_snum mc' = Suc H" using page_touch_top[OF t(1)] 0(2,3) by simp_all
  have "clean_pages (Suc H) H mc' txn' = []" by (simp add: clean_pages_def)
  then show ?case
    using t(2,3) 0(3) by (subst cursor_touch_loop.simps) (auto simp: t(1) top)
next
  case (Suc n)
  obtain rc mc' others' txn' used' where t: "mdb_page_touch malloc fuel mc others txn = Some (rc, mc', others', txn')"
      "cow_rel used H (wc_dbi mc) txn txn'"
      "rc \<noteq> 0 \<and> w_error txn' \<or>
       rc = 0 \<and> touch_inv fp used' E H mc' txn' \<and> used \<subseteq> used' \<and> wc_dbi mc' = wc_dbi mc \<and>
         (\<forall>i \<le> wc_top mc. page_dirtied txn' (wc_pg mc' ! i)) \<and>
         length (midl_list (w_free_pgs txn')) \<le> Suc (length (midl_list (w_free_pgs txn))) \<and>
         midl_list (w_free_pgs txn') @ clean_pages (Suc (wc_top mc)) H mc' txn' =
           midl_list (w_free_pgs txn) @ clean_pages (wc_top mc) H mc txn"
    using page_touch_spec[OF malloc Suc.prems(1) fuel _ _ Suc.prems(5), of others] Suc.prems(3,4) by auto
  have top: "wc_top mc' = wc_top mc" "wc_snum mc' = Suc H" using page_touch_top[OF t(1)] Suc.prems(2) by simp_all
  show ?case
  proof (cases "rc = 0")
    case False
    then show ?thesis using t(2,3) by (subst cursor_touch_loop.simps) (auto simp: t(1))
  next
    case True
    then have u: "touch_inv fp used' E H mc' txn'" "used \<subseteq> used'" "wc_dbi mc' = wc_dbi mc"
        "\<forall>i \<le> wc_top mc. page_dirtied txn' (wc_pg mc' ! i)"
        "midl_list (w_free_pgs txn') @ clean_pages (Suc (wc_top mc)) H mc' txn' =
           midl_list (w_free_pgs txn) @ clean_pages (wc_top mc) H mc txn"
        "length (midl_list (w_free_pgs txn')) \<le> Suc (length (midl_list (w_free_pgs txn)))"
      using t(3) by auto
    let ?mc = "mc'\<lparr>wc_top := Suc (wc_top mc)\<rparr>"
    have loop: "cursor_touch_loop malloc fuel mc others txn = cursor_touch_loop malloc fuel ?mc others' txn'"
      using True Suc.prems(3) by (subst cursor_touch_loop.simps) (simp add: t(1) top)
    have "touch_inv fp used' E H ?mc txn'" "wc_snum ?mc = Suc H" "wc_top ?mc + n = H"
        "length (midl_list (w_free_pgs txn')) + Suc n < 2 ^ 31" "\<forall>i < wc_top ?mc. page_dirtied txn' (wc_pg ?mc ! i)"
      using u Suc.prems(3,4) top by (simp_all add: less_Suc_eq_le)
    from Suc.IH[OF this, of others'] obtain rc2 mc2 others2 txn2 used2 where
      r: "cursor_touch_loop malloc fuel ?mc others' txn' = Some (rc2, mc2, others2, txn2)" "cow_rel used' H (wc_dbi ?mc) txn' txn2"
        "rc2 \<noteq> 0 \<and> w_error txn2 \<or>
         rc2 = 0 \<and> touch_inv fp used2 E H mc2 txn2 \<and> used' \<subseteq> used2 \<and> wc_dbi mc2 = wc_dbi ?mc \<and>
           (\<forall>i \<le> H. page_dirtied txn2 (wc_pg mc2 ! i)) \<and>
           midl_list (w_free_pgs txn2) = midl_list (w_free_pgs txn') @ clean_pages (wc_top ?mc) H ?mc txn'"
      by blast
    have "cow_rel used H (wc_dbi mc) txn txn2" using cow_rel_trans[OF t(2) _ u(2), of txn2] r(2) u(3) by simp
    moreover have "clean_pages (wc_top ?mc) H ?mc txn' = clean_pages (Suc (wc_top mc)) H mc' txn'" by (simp add: clean_pages_def)
    ultimately show ?thesis
      unfolding loop r(1) using r(3) u(2,3,5) subset_trans[OF u(2), of used2]
      by (intro exI[of _ rc2] exI[of _ mc2] exI[of _ others2] exI[of _ txn2] exI[of _ used2]) (simp, blast)
  qed
qed

lemma cursor_touch_spec:
  assumes malloc: "malloc_ok malloc" and fuel: "length E < fuel" and inv: "touch_inv fp used E H mc txn"
    and snum: "wc_snum mc = Suc H" and small: "length (midl_list (w_free_pgs txn)) + Suc H < 2 ^ 31"
  shows "\<exists>rc mc' others' txn' used'. mdb_cursor_touch malloc fuel mc others txn = Some (rc, mc', others', txn') \<and>
    cow_rel used H (wc_dbi mc) txn txn' \<and>
    (rc \<noteq> 0 \<and> w_error txn' \<or>
     rc = 0 \<and> touch_inv fp used' E H mc' txn' \<and> used \<subseteq> used' \<and> wc_dbi mc' = wc_dbi mc \<and>
         (\<forall>i \<le> H. page_dirtied txn' (wc_pg mc' ! i)) \<and>
       midl_list (w_free_pgs txn') = midl_list (w_free_pgs txn) @ clean_pages 0 H mc txn)"
proof -
  let ?mc = "mc\<lparr>wc_top := 0\<rparr>"
  obtain rc mc' others' txn' used' where t: "cursor_touch_loop malloc fuel ?mc others txn = Some (rc, mc', others', txn')"
      "cow_rel used H (wc_dbi ?mc) txn txn'"
      "rc \<noteq> 0 \<and> w_error txn' \<or>
       rc = 0 \<and> touch_inv fp used' E H mc' txn' \<and> used \<subseteq> used' \<and> wc_dbi mc' = wc_dbi mc \<and>
         (\<forall>i \<le> H. page_dirtied txn' (wc_pg mc' ! i)) \<and>
         midl_list (w_free_pgs txn') = midl_list (w_free_pgs txn) @ clean_pages (wc_top ?mc) H ?mc txn"
    using touch_loop_spec[OF malloc fuel, of fp used H ?mc txn H others] inv snum small by auto
  have "mdb_cursor_touch malloc fuel mc others txn = Some (rc, mc'\<lparr>wc_top := wc_snum mc' - 1\<rparr>, others', txn')"
    using t(1) snum by (simp add: mdb_cursor_touch_def)
  moreover have "clean_pages (wc_top ?mc) H ?mc txn = clean_pages 0 H mc txn" by (simp add: clean_pages_def)
  ultimately show ?thesis using t(2,3)
    by (intro exI[of _ rc] exI[of _ "mc'\<lparr>wc_top := wc_snum mc' - 1\<rparr>"] exI[of _ others'] exI[of _ txn'] exI[of _ used']) auto
qed

subsection \<open>The tree as the reading cursors see it\<close>

fun items :: "btree \<Rightarrow> (bytes \<times> bytes) list" where
  "items (BLeaf es) = es"
| "items (BNode ns) = concat (map (\<lambda>n. items (snd n)) ns)"
| "items BCorrupted = []"

lemma entries_decode:
  assumes "\<forall>p \<in> set (subtree (w_map txn) h pg). p < w_next_pgno txn"
  shows "entries (map_view txn dbi) h (read_page (w_map txn pg)) = items (decode (w_map txn) h pg)"
  using assms
proof (induction h arbitrary: pg)
  case 0
  show ?case by (simp add: entries.simps read_page_def IS_LEAF_bytes_def IS_BRANCH_bytes_def leaf_nodes_def)
next
  case (Suc h)
  let ?m = "w_map txn" and ?v = "map_view txn dbi"
  have "(case child_of ?v n of Some q \<Rightarrow> entries ?v h q | None \<Rightarrow> []) = items (decode ?m h (snd n))"
    if n: "n \<in> set (branch_nodes (?m pg))" for n
  proof -
    have below: "\<forall>p \<in> set (subtree ?m h (snd n)). p < w_next_pgno txn" using Suc.prems n by auto
    have "snd n \<in> set (subtree ?m h (snd n))" by (cases h) simp_all
    then have "child_of ?v n = Some (read_page (?m (snd n)))"
      using below by (auto simp: child_of_def mdb_page_get_def map_view_def)
    then show ?thesis using Suc.IH[OF below] by simp
  qed
  then have "concat (map (\<lambda>n. case child_of ?v n of Some q \<Rightarrow> entries ?v h q | None \<Rightarrow> []) (branch_nodes (?m pg))) =
      concat (map (\<lambda>n. items (decode ?m h (snd n))) (branch_nodes (?m pg)))"
    by (intro arg_cong[where f = concat] map_cong) simp_all
  then show ?case by (simp add: entries.simps read_page_def IS_BRANCH_bytes_def branch_nodes_def comp_def)
qed

abbreviation db_entries :: "wtxn \<Rightarrow> nat \<Rightarrow> nat \<Rightarrow> (bytes \<times> bytes) list" where
  "db_entries txn dbi H \<equiv> entries (map_view txn dbi) H (read_page (w_map txn (w_roots txn dbi)))"

lemma touch_inv_entries:
  assumes "touch_inv fp used E H mc txn"
  shows "db_entries txn (wc_dbi mc) H = items (decode (w_map txn) H (w_roots txn (wc_dbi mc)))"
  using assms by (intro entries_decode) (auto simp: touch_inv_def tree_pages_ok_def alloc_inv_def)

end
