(* ===== verification/Mdb_Samples.thy ===== *)
theory Mdb_Samples
  imports Mdb_Touch Samples
begin

text \<open>
  A small state of a write transaction, page by page, and that it satisfies the
  invariants of the allocation and of the copying of pages.
\<close>

subsection \<open>A write transaction\<close>

text \<open>
  A map with pages of 64 bytes. The root of the free-page database is the leaf 2: transaction 3
  freed the pages 7 and 6. The root of the main database is the branch 3 above the leaves 4
  and 5. A reader works on the snapshot of transaction 5.
\<close>

lemmas page_eval = pg_pgno_def pg_flags_def pg_lower_def pg_upper_def page_offsets_def NODEPTR_def NODEKEY_def
  NODEKSZ_def NODEDSZ_def NODEPGNO_def mn_flags_def node_bytes_def u16_at_def chunk_def upt_conv_Cons

definition free_page :: bytes where
  "free_page =
    [CHR 0x02, CHR 0x00, CHR 0x00, CHR 0x00, CHR 0x00, CHR 0x00, CHR 0x00, CHR 0x00,
     CHR 0x00, CHR 0x00, CHR 0x02, CHR 0x00, CHR 0x12, CHR 0x00, CHR 0x18, CHR 0x00,
     CHR 0x18, CHR 0x00, CHR 0x00, CHR 0x00, CHR 0x00, CHR 0x00, CHR 0x00, CHR 0x00,
     CHR 0x18, CHR 0x00, CHR 0x00, CHR 0x00, CHR 0x00, CHR 0x00, CHR 0x08, CHR 0x00,
     CHR 0x03, CHR 0x00, CHR 0x00, CHR 0x00, CHR 0x00, CHR 0x00, CHR 0x00, CHR 0x00,
     CHR 0x02, CHR 0x00, CHR 0x00, CHR 0x00, CHR 0x00, CHR 0x00, CHR 0x00, CHR 0x00,
     CHR 0x07, CHR 0x00, CHR 0x00, CHR 0x00, CHR 0x00, CHR 0x00, CHR 0x00, CHR 0x00,
     CHR 0x06, CHR 0x00, CHR 0x00, CHR 0x00, CHR 0x00, CHR 0x00, CHR 0x00, CHR 0x00]"

definition branch_page :: bytes where
  "branch_page =
    [CHR 0x03, CHR 0x00, CHR 0x00, CHR 0x00, CHR 0x00, CHR 0x00, CHR 0x00, CHR 0x00,
     CHR 0x00, CHR 0x00, CHR 0x01, CHR 0x00, CHR 0x14, CHR 0x00, CHR 0x2E, CHR 0x00,
     CHR 0x38, CHR 0x00, CHR 0x2E, CHR 0x00, CHR 0x00, CHR 0x00, CHR 0x00, CHR 0x00,
     CHR 0x00, CHR 0x00, CHR 0x00, CHR 0x00, CHR 0x00, CHR 0x00, CHR 0x00, CHR 0x00,
     CHR 0x00, CHR 0x00, CHR 0x00, CHR 0x00, CHR 0x00, CHR 0x00, CHR 0x00, CHR 0x00,
     CHR 0x00, CHR 0x00, CHR 0x00, CHR 0x00, CHR 0x00, CHR 0x00, CHR 0x05, CHR 0x00,
     CHR 0x00, CHR 0x00, CHR 0x00, CHR 0x00, CHR 0x02, CHR 0x00, CHR 0x62, CHR 0x00,
     CHR 0x04, CHR 0x00, CHR 0x00, CHR 0x00, CHR 0x00, CHR 0x00, CHR 0x00, CHR 0x00]"

definition left_page :: bytes where
  "left_page =
    [CHR 0x04, CHR 0x00, CHR 0x00, CHR 0x00, CHR 0x00, CHR 0x00, CHR 0x00, CHR 0x00,
     CHR 0x00, CHR 0x00, CHR 0x02, CHR 0x00, CHR 0x12, CHR 0x00, CHR 0x36, CHR 0x00,
     CHR 0x36, CHR 0x00, CHR 0x00, CHR 0x00, CHR 0x00, CHR 0x00, CHR 0x00, CHR 0x00,
     CHR 0x00, CHR 0x00, CHR 0x00, CHR 0x00, CHR 0x00, CHR 0x00, CHR 0x00, CHR 0x00,
     CHR 0x00, CHR 0x00, CHR 0x00, CHR 0x00, CHR 0x00, CHR 0x00, CHR 0x00, CHR 0x00,
     CHR 0x00, CHR 0x00, CHR 0x00, CHR 0x00, CHR 0x00, CHR 0x00, CHR 0x00, CHR 0x00,
     CHR 0x00, CHR 0x00, CHR 0x00, CHR 0x00, CHR 0x00, CHR 0x00, CHR 0x01, CHR 0x00,
     CHR 0x00, CHR 0x00, CHR 0x00, CHR 0x00, CHR 0x01, CHR 0x00, CHR 0x61, CHR 0x78]"

definition right_page :: bytes where
  "right_page =
    [CHR 0x05, CHR 0x00, CHR 0x00, CHR 0x00, CHR 0x00, CHR 0x00, CHR 0x00, CHR 0x00,
     CHR 0x00, CHR 0x00, CHR 0x02, CHR 0x00, CHR 0x12, CHR 0x00, CHR 0x36, CHR 0x00,
     CHR 0x36, CHR 0x00, CHR 0x00, CHR 0x00, CHR 0x00, CHR 0x00, CHR 0x00, CHR 0x00,
     CHR 0x00, CHR 0x00, CHR 0x00, CHR 0x00, CHR 0x00, CHR 0x00, CHR 0x00, CHR 0x00,
     CHR 0x00, CHR 0x00, CHR 0x00, CHR 0x00, CHR 0x00, CHR 0x00, CHR 0x00, CHR 0x00,
     CHR 0x00, CHR 0x00, CHR 0x00, CHR 0x00, CHR 0x00, CHR 0x00, CHR 0x00, CHR 0x00,
     CHR 0x00, CHR 0x00, CHR 0x00, CHR 0x00, CHR 0x00, CHR 0x00, CHR 0x01, CHR 0x00,
     CHR 0x00, CHR 0x00, CHR 0x00, CHR 0x00, CHR 0x01, CHR 0x00, CHR 0x63, CHR 0x79]"

definition sample_map :: "mdb_id \<Rightarrow> bytes" where
  "sample_map pg = (if pg = 2 then free_page else if pg = 3 then branch_page else if pg = 4 then left_page
     else if pg = 5 then right_page else replicate 64 (CHR 0x00))"

definition sample_wtxn :: wtxn where
  "sample_wtxn = \<lparr>me_txns = Some [\<lparr>mr_pid = 0, mr_txnid = 1\<rparr>, \<lparr>mr_pid = 17, mr_txnid = 5\<rparr>],
     me_pghead = None, me_pglast = 0, me_pgoldest = 0, me_maxpg = 16, me_psize = 64,
     w_map = sample_map, w_txnid = 7, w_next_pgno = 8, w_free_pgs = [4, 0, 0, 0, 0, 0], w_spill_pgs = None,
     w_dirty = replicate (MDB_IDL_UM_MAX + 1) \<lparr>mid = 0, mptr = 0\<rparr>, w_dirty_room = MDB_IDL_UM_MAX,
     w_loose_pgs = [], w_loose_count = 0,
     w_roots = (\<lambda>dbi. if dbi = FREE_DBI then 2 else 3), w_error = False, w_spills = False\<rparr>"

abbreviation sample_free :: "(u64 \<times> mdb_id list) list" where
  "sample_free \<equiv> [(3, [7, 6])]"

abbreviation sample_used :: "mdb_id set" where
  "sample_used \<equiv> {0, 1, 2, 3, 4, 5}"

definition sample_wcursor :: wcursor where
  "sample_wcursor = \<lparr>wc_dbi = 1, wc_pg = [3, 5], wc_ki = [1, 0], wc_snum = 2, wc_top = 1\<rparr>"

lemma free_page_read:
  "read_page free_page = \<lparr>mp_pgno = 2, mp_nodes = Leaf [(drop 32 (take 40 free_page), drop 24 free_page)]\<rparr>"
  by (simp add: read_page_def page_eval free_page_def)

lemma free_page_record: "free_rec txn (drop 32 (take 40 free_page), drop 24 free_page) (3, [7, 6])"
proof -
  have "leaf_data txn (drop 24 free_page) = Inr (drop 40 free_page)"
    by (simp add: leaf_data_def mdb_node_read_def NODEDATA_def page_eval free_page_def)
  moreover have "idl_words (drop 40 free_page) = of_nat (length [7 :: mdb_id, 6]) # [7, 6] @ []"
    by (simp add: free_page_def idl_words.simps)
  ultimately show ?thesis
    unfolding free_rec_def fst_conv snd_conv by (intro conjI) (auto simp: free_page_def)
qed

lemma sample_freedb: "freedb_on {2} sample_free sample_wtxn"
  unfolding freedb_on_def
proof (intro allI impI)
  fix m n
  assume m: "\<forall>pg \<in> {2}. m pg = w_map sample_wtxn pg" and n: "w_next_pgno sample_wtxn \<le> n"
  let ?t = "sample_wtxn\<lparr>w_map := m, w_next_pgno := n\<rparr>"
  have m2: "m 2 = free_page" using m by (simp add: sample_wtxn_def sample_map_def)
  have "\<not> n \<le> 2" using n order_trans[of 8 n 2] by (auto simp: sample_wtxn_def)
  then have get: "mdb_page_get (map_view ?t FREE_DBI) 2 = Inr (read_page free_page)"
    by (simp add: mdb_page_get_def map_view_def m2)
  have root: "w_roots ?t FREE_DBI = 2" by (simp add: sample_wtxn_def)
  have e: "free_entries ?t (read_page free_page) 0 = [(drop 32 (take 40 free_page), drop 24 free_page)]"
    by (simp add: entries.simps free_page_read)
  have "free_tree ?t (read_page free_page) 0"
    unfolding tree_ok_def e using get root
    by (simp add: wf_page.simps separated.simps free_page_read CURSOR_STACK_def map_view_def P_INVALID_def)
  moreover have "list_all2 (free_rec ?t) (free_entries ?t (read_page free_page) 0) sample_free"
    unfolding e by (simp add: free_page_record)
  ultimately show "freedb ?t sample_free" unfolding freedb_def root by (auto simp: P_INVALID_def)
qed

lemma sample_lengths: "length (sample_map pg) = 64"
  by (simp add: sample_map_def free_page_def branch_page_def left_page_def right_page_def)

lemma sample_alloc_inv: "alloc_inv {2} sample_used sample_free sample_wtxn"
proof -
  have "pending sample_wtxn sample_free = sample_free" "head_list sample_wtxn = []"
    by (simp_all add: pending_def head_list_def sample_wtxn_def)
  moreover have "mdb_find_oldest sample_wtxn = 5"
    by (simp add: mdb_find_oldest_def sample_wtxn_def)
  ultimately show ?thesis
    unfolding alloc_inv_def free_order_def available_def head_ok_def dirty_ok_def
    by (intro conjI sample_freedb) (simp_all add: sample_wtxn_def sample_lengths word_gt_0)
qed

lemma sample_branch: "branch_nodes branch_page = [([], 4), ([CHR ''b'', CHR 0x00], 5)]"
  by (simp add: branch_nodes_def page_eval branch_page_def)

lemma sample_page_ok: "page_ok branch_page" "page_ok left_page" "page_ok right_page"
  by (simp_all add: page_ok_def node_len_def IS_BRANCH_bytes_def page_eval branch_page_def left_page_def right_page_def less_Suc_eq)

lemma sample_touch_inv: "touch_inv {2} sample_used sample_free 1 sample_wcursor sample_wtxn"
proof -
  have "subtree sample_map 1 3 = [3, 4, 5]" by (simp add: sample_map_def sample_branch)
  moreover have "IS_BRANCH_bytes branch_page" by (simp add: IS_BRANCH_bytes_def page_eval branch_page_def)
  moreover have "pg_pgno branch_page = 3" "pg_pgno left_page = 4" "pg_pgno right_page = 5"
    by (simp_all add: page_eval branch_page_def left_page_def right_page_def)
  ultimately show ?thesis
    using sample_alloc_inv sample_page_ok unfolding touch_inv_def tree_pages_ok_def
    by (simp add: sample_wtxn_def sample_wcursor_def FREE_DBI_def midl_inv_def sample_map_def sample_branch)
qed

lemma sample_clean: "\<not> page_dirtied sample_wtxn pg"
proof -
  have "replicate 2 (CHR 0x00) = [CHR 0x00, CHR 0x00]" by (simp add: numeral_2_eq_2)
  then show ?thesis
    by (simp add: page_dirtied_def sample_wtxn_def sample_map_def page_eval
        free_page_def branch_page_def left_page_def right_page_def)
qed

lemma sample_full: "\<not> me_maxpg sample_wtxn \<le> w_next_pgno sample_wtxn + of_nat 2"
  by (simp add: sample_wtxn_def)

end
