(* ===== verification/Spec2Isabelle.thy ===== *)
theory Spec2Isabelle
  imports Samples Midl_Sort Indices Options Mdb_Cmp Mdb_Samples
begin

text \<open>
  A verification of nstore, a store of facts (entity, attribute, value,
  transaction) that keeps its whole history and is served over TCP.

  \<^bold>\<open>The program.\<close> A client sends lines \<open>command argument\<close> with a JSON
  argument. The io thread reads them (session.cpp) and queues a job: requests
  that write go to the one writer thread, the others to the reader threads
  (server.cpp). A job runs a handler (handler.cpp): \<open>namespace\<close>, \<open>select\<close>,
  \<open>transact\<close>, \<open>attribute\<close> queries and \<open>facts\<close>. The handlers parse the
  argument and write the answer with rapidjson and keep the data in one LMDB
  database through the functions of db.cpp. Its keys are structs
  (\<open>custom_key\<close>): metas (counters of a namespace), entries of the unique index,
  and the facts, each stored twice, in the order entity-attribute-transaction and
  attribute-entity-transaction. A retraction is one more fact; nothing is ever
  overwritten by a later transaction. Committed facts are sent to the sessions of
  the channel of their namespace (channel.cpp).

  \<^bold>\<open>The theories.\<close>
  \<^item> Nstore\_Prelude: the integer types of common.h, three-way comparison, byte
    layouts, and the lemmas they share.
  \<^item> Keys (db.h, db.cpp): the key struct and \<open>custom_key_compare\<close> at its widths;
    it is the lexicographic order of the fields as long as the numbers lie in a
    window of 2^31 values, and not outside.
  \<^item> Lmdb (mdb.c): the binary search of a leaf and the calls the program makes,
    over the sequence of leaf entries, for any comparison function that meets the
    contract of the locale \<open>comparator\<close>; such a store is a map (locale
    \<open>kv_store\<close>). Mdb\_Cmp: the comparison functions of LMDB itself, four more
    instances. Mdb\_Page: the pages the entries lie on, as bytes. Mdb\_Cursor:
    the cursors on the pages of the B+tree, from the lookup of a page in the dirty
    lists to \<open>mdb_cursor_get\<close>; Mdb\_Path and Mdb\_Btree: their stacks are paths in
    a tree, and they answer as the flat sequence of Lmdb does. Midl and
    Midl\_Sort (midl.c): the ID lists of LMDB, down to their blocks of words, and
    its sort. Mdb\_Alloc and Mdb\_Freelist: the allocation of pages in a write
    transaction (\<open>mdb_find_oldest\<close>, \<open>mdb_page_alloc\<close>), which reads the free-page database
    with these cursors and keeps the pages in these ID lists. Mdb\_Touch: copy on
    write (\<open>mdb_page_copy\<close>, \<open>mdb_page_touch\<close>, \<open>mdb_cursor_touch\<close>) on the bytes of the pages.
  \<^item> Db (db.cpp): metas, \<open>setup\<close>, \<open>open\<close>, padded puts, the queries.
    Batch and Db\_Query: what the queries over the history return.
  \<^item> Json\_Itoa, Json\_Value, Json\_Reader, Json\_Roundtrip (rapidjson): the
    conversion of integers, the values and the writer, the recursive parser, and
    that parsing what was printed gives the value back.
  \<^item> Handlers (handler.cpp): the five handlers, every branch. Facts: what
    \<open>handle_facts\<close> answers. Updates and Transact: what one write, one fact and a
    whole transaction change.
  \<^item> Channel (channel.cpp, locale \<open>pubsub\<close>), Session (session.cpp, locale
    \<open>outbox\<close>), Server (server.cpp and the completion handlers): the server as a
    step relation over sessions, queues and threads, with its invariant.
  \<^item> Options (the arguments of \<open>main\<close> in server.cpp), Indices (indices.cpp, the
    tool that lists a database).
  \<^item> Samples, Mdb\_Samples: small states on which the properties are exercised.

  \<^bold>\<open>What is proved.\<close> For the data: the order of the keys, the store as a map,
  what a transaction stores, that it is atomic, that it changes no answer about an
  earlier transaction or another namespace, that well-formed requests commit, and
  what the queries answer. For the protocol: the parser terminates on every
  input, requests and answers survive printing and parsing. For the server: one
  request of a session at a time, arguments that do not change under a waiting
  job, messages in order, queues that drain, and who receives an event. For LMDB:
  reading the B+tree against the sequence of its entries, the page operations, the
  ID lists and their sort against lists, that no page is handed out for writing
  that is in use or in the snapshot of a reader, and that copying the pages of a
  cursor keeps the tree and every page a reader can see. Some properties
  state defects exactly: the truncated comparison, the data size passed as flags of a
  put, the channel that nobody joins; that the port is kept in a short is a lemma of Options.

  \<^bold>\<open>Bounds and fuel.\<close> The parser runs on fuel, three times the length of the
  text plus three, which is shown to be enough. Facts are in order when entities,
  attributes and values given by the client lie within 2^30 of zero and the
  transaction counter is below 2^29: inside it the 32-bit difference of the
  comparison cannot wrap. Machine integers are words of their width where they
  can wrap, and numbers with the bound as a hypothesis or an invariant elsewhere.
  Descending the B+tree ends because the stack of a cursor has 32 places. The loop of
  \<open>mdb_page_alloc\<close> runs on fuel: one more than the number of records of the free-page
  database is shown to be enough.
  Loops that are not structural have a termination proof or are partial functions
  into an option, whose result is shown to be defined.

  \<^bold>\<open>Failures.\<close> Calls of the store that can fail for want of memory or pages
  take their outcome from a schedule of return codes, so the theorems hold for
  every failure; memory that LMDB hands out uninitialised holds arbitrary bytes.

  \<^bold>\<open>The write transaction.\<close> It is modelled as the program uses it: the environment is
  opened with \<open>MDB_WRITEMAP\<close> (db.cpp), so that a page is its place in the map, and there
  are no nested transactions. Its invariant has the pages in use apart from the free
  ones, the records of the free-page database on pages of their own, and every page
  number below the end of the file. The theorem on copying pages is about a transaction
  that has not spilled and has no loose pages, and a map of fewer than 2^48 pages, as
  a branch node has 48 bits for a page number.

  \<^bold>\<open>Not modelled.\<close> Splitting and merging the pages of the B+tree (the writes the
  handlers make are on the flat sequence), databases with duplicates, saving the list of freed
  pages, spilling and flushing pages, the lock table and recovery of LMDB; asio, spdlog and the threads
  themselves (the interleavings are those of the step relation); libsodium's hash,
  which is a parameter; doubles in JSON text beyond what the reader accepts, the
  iterative and the in-situ parser of rapidjson; statistics, tests and mocks;
  nlohmann json and catch, which only the tests use.
\<close>

subsection \<open>Transactions and their history\<close>










subsection \<open>Queries\<close>

text \<open>
  C6: the answer to a facts request. It holds a value exactly when, in the log of
  the namespace up to the asked transaction, the last event of its slot (entity,
  attribute, and for an attribute of cardinality many the value) asserts it.
\<close>

theorem facts_answer:
  assumes "tree_inv (me_tree env)" and "ns_ok ns" and "parse_argument arg = Some doc" and "IsInt64 doc"
    and "asked_tx env ns doc = Some tx" and "x \<in> set (me_tree env)" and "in_EATV ns x"
  shows "\<exists>facts. handle_facts env [] arg ns = [Write (make_response (facts_response tx facts)), ReadRequest] \<and>
    (\<forall>y. y \<in> set facts \<longleftrightarrow>
       (\<exists>k d. find_last (\<lambda>x. same_slot (many_at env ns tx) k (fst x)) (facts_log (me_tree env) ns tx) = Some (k, d) \<and>
          is_assert k \<and> y = cell_json (ck_e k) (ck_a k) (entry_cell k d)))"
  using handle_facts_live [OF assms] facts_at_mem [of _ "me_tree env" ns tx "many_at env ns tx"] by blast

theorem facts_answer_witness:
  "\<exists>facts. handle_facts sample_env [] (CHR ''f'' # print_json (JInt 5) @ [CHR 0x0D]) 0 =
     [Write (make_response (facts_response 5 facts)), ReadRequest]"
proof -
  have "asked_tx sample_env 0 (JInt 5) = Some 5" by (simp add: asked_tx_def GetInt64_def)
  then show ?thesis
    using facts_answer [OF sample_tree_inv _ parse_argument_line _ _ sample_entries, of "JInt 5" 5 "CHR ''f''"]
    by (auto simp: ns_ok_def IsInt64_def)
qed

text \<open>
  C7: the query on an attribute returns exactly the datoms whose last event in the
  log of the attribute, for that entity and those value bytes, is an assertion.
\<close>

theorem query_a_live_facts:
  assumes "clive txn" and "tree_inv (mt_tree txn)" and "ns_ok ns" and "in_window a"
  shows "x \<in> set (snd (query_a txn ns tx a)) \<longleftrightarrow>
    (\<exists>k d. find_last (\<lambda>y. ck_e (fst y) = ck_e k \<and> ck_v (fst y) = ck_v k)
        (attr_log (mt_tree txn) ns a tx) = Some (k, d) \<and> is_assert k \<and>
      x = cell_datom (junk_i64 txn) (ck_e k) a (entry_cell k d))"
  by (rule query_a_mem [OF assms])

theorem query_a_live_facts_witness:
  "datom_int 15 db_cardinality 8 1 False \<in> set (snd (query_a (begun sample_env) 0 1 db_cardinality))"
proof -
  let ?k = "sample_fact 15 db_cardinality db_cardinality_many 2 SORT_AETV"
  have log: "attr_log (mt_tree (begun sample_env)) 0 db_cardinality 1 = [(?k, [])]"
    by (simp add: attr_log_def sample_env_def in_AETV_def sample_fact_def fill_meta_key_def zero_key_def)
  have "find_last (\<lambda>y. ck_e (fst y) = ck_e ?k \<and> ck_v (fst y) = ck_v ?k)
      (attr_log (mt_tree (begun sample_env)) 0 db_cardinality 1) = Some (?k, [])"
    unfolding log by (simp add: find_last_def)
  moreover have "is_assert ?k" "datom_int 15 db_cardinality 8 1 False =
      cell_datom (junk_i64 (begun sample_env)) (ck_e ?k) db_cardinality (entry_cell ?k [])"
    by (simp_all add: is_assert_def sample_fact_def cell_datom_def entry_cell_def)
  ultimately show ?thesis
    using query_a_live_facts [OF begun_live [OF sample_tree_inv], of 0 db_cardinality] sample_tree_inv
    by (simp add: ns_ok_def) blast
qed

subsection \<open>Keys and the store\<close>

text \<open>
  C8: on keys whose numbers lie in a window of 2^31 values, the comparison function
  has the sign of the lexicographic order of the fields in the order of the index,
  so it is a total order on the ranks.
\<close>

theorem compare_is_lexicographic:
  assumes "key_ok a" and "key_ok b"
  shows "sgn (custom_key_compare a b) = ord_of (key_rank a) (key_rank b)"
  by (rule compare_rank [OF assms])

theorem compare_is_lexicographic_witness:
  "sgn (custom_key_compare (sample_fact 12 3 7 2 SORT_EATV) (sample_fact 15 12 7 2 SORT_EATV)) = -1"
  using compare_is_lexicographic [of "sample_fact 12 3 7 2 SORT_EATV" "sample_fact 15 12 7 2 SORT_EATV"]
  by (simp add: key_inv_ok sample_fact_inv in_window_sample sample_fact_rank ord_of_def)

text \<open>
  C9: outside the window the difference of two numbers is truncated to an int and
  the comparison takes different keys for equal: two facts of entities that are
  2^32 apart have one key.
\<close>

theorem compare_conflates_far_entities:
  "custom_key_compare (sample_fact e a v t SORT_EATV) (sample_fact (e + 4294967296) a v t SORT_EATV) = 0"
proof -
  have four: "4 = Suc 3" by simp
  have trunc: "sint (ucast (- 4294967296 :: i64) :: u32) = 0" by simp
  show ?thesis
    unfolding custom_key_compare_def compare_sorted_def four sort_loop.simps
    by (simp add: sample_fact_def field_cmp_def ret_int_def trunc u8_diff_def)
qed

text \<open>
  C10: the binary search in a leaf. On a sequence sorted by the key order it
  returns the index of the first entry that is not below the key, and whether that
  entry has the key.
\<close>

theorem node_search_is_lower_bound:
  assumes "sorted_tree key_rank key_ok t" and "key_ok key"
  shows "mdb_node_search custom_key_compare (map fst t) key =
    (length (takeWhile (\<lambda>x. key_rank (fst x) < key_rank key) t), \<exists>x \<in> set t. key_rank (fst x) = key_rank key)"
  using ck.node_search_spec [OF assms] by (simp add: lower_bound_def)

theorem node_search_is_lower_bound_witness:
  "mdb_node_search custom_key_compare (map fst (me_tree sample_env)) (sample_fact 12 3 7 2 SORT_EATV) = (3, True)"
proof -
  have "sorted_tree key_rank key_ok (me_tree sample_env)" using sample_tree_inv by (simp add: tree_inv_def)
  from node_search_is_lower_bound [OF this, of "sample_fact 12 3 7 2 SORT_EATV"] show ?thesis
    by (simp add: key_inv_ok sample_fact_inv in_window_sample sample_env_def sample_fact_rank meta_key_rank)
qed

text \<open>
  C11: a put, a delete and a get of the store are those of a finite map from the
  ranks of the keys, and the store stays sorted.
\<close>

theorem store_refines_map:
  assumes "clive txn" and "key_ok k" and "key_ok k'"
  shows "get_opt custom_key_compare (put_txn custom_key_compare txn k d) k' =
      (if key_rank k = key_rank k' then Some d else get_opt custom_key_compare txn k') \<and>
    get_opt custom_key_compare (del_txn custom_key_compare txn k) k' =
      (if key_rank k = key_rank k' then None else get_opt custom_key_compare txn k') \<and>
    clive (put_txn custom_key_compare txn k d) \<and> clive (del_txn custom_key_compare txn k)"
  by (intro conjI ck.kv.get_put [OF assms] ck.kv.get_del [OF assms] ck.kv.inv_put [OF assms(1,2)]
      ck.kv.inv_del [OF assms(1,2)])

theorem store_refines_map_witness:
  "get_opt custom_key_compare (put_txn custom_key_compare (begun sample_env) (sample_fact 12 3 7 2 SORT_EATV) ''x'')
     (sample_fact 12 3 7 2 SORT_EATV) = Some ''x''"
  using store_refines_map [OF begun_live [OF sample_tree_inv], of "sample_fact 12 3 7 2 SORT_EATV"]
  by (simp add: key_inv_ok sample_fact_inv in_window_sample)

text \<open>
  C15: setting up a namespace that does not exist succeeds, leaves its counters at
  their initial values and does not touch the other namespaces.
\<close>

theorem setup_creates_namespace:
  assumes "clive txn" and "ns_ok ns" and "\<not> exists_ns txn ns"
  shows "\<exists>txn'. db_setup txn ns = (False, txn') \<and> clive txn' \<and>
    get_meta txn' ns META_TX = Some 1 \<and> get_meta txn' ns META_ID = Some db_initial_id \<and>
    (\<forall>r. take 1 r \<noteq> [uint ns] \<longrightarrow> cmap txn' r = cmap txn r)"
  by (rule db_setup_live [OF assms])

theorem setup_creates_namespace_witness:
  "\<exists>txn'. db_setup (begun sample_env) 7 = (False, txn') \<and> get_meta txn' 7 META_TX = Some 1"
proof -
  have "cmap (begun sample_env) [7, 0, 0] = None"
    by (simp add: sample_env_def tree_map_def meta_key_rank sample_fact_rank)
  then have "\<not> exists_ns (begun sample_env) 7"
    using get_meta_live [OF begun_live [OF sample_tree_inv], of 7] by (simp add: exists_ns_def ns_ok_def)
  then show ?thesis
    using setup_creates_namespace [OF begun_live [OF sample_tree_inv], of 7] by (auto simp: ns_ok_def)
qed

subsection \<open>The protocol\<close>

text \<open>
  C16: the parser always returns: with the fuel \<open>document_Parse\<close> gives it, for
  every input, it ends with a value or with an error.
\<close>

theorem parser_terminates: "document_Parse str \<noteq> None"
  by (rule document_Parse_total)

text \<open>
  C17: requests survive the wire. When a client sends a command, a value and the
  end of line, with whatever behind it, the line the session reads off its buffer
  holds that value for the handler, and the rest stays in the buffer.
\<close>

theorem request_roundtrip:
  assumes "printable v" and "c \<noteq> CHR 0x0A"
  shows "has_EOL (c # print_json v @ EOL @ rest) \<and>
    (\<exists>line. getline (c # print_json v @ EOL @ rest) = (line, rest) \<and> hd line = c \<and>
       parse_argument line = Some v)"
proof -
  have "CHR 0x0A \<notin> set (c # print_json v)" using print_json_no_control(2) [of v] assms(2) by auto
  then have "getline (c # print_json v @ EOL @ rest) = (c # print_json v @ [CHR 0x0D], rest)"
    using getline_line [of "c # print_json v" rest] by simp
  moreover have "has_EOL (c # print_json v @ EOL @ rest)"
    using has_EOL_append [of "c # print_json v" rest] by simp
  ultimately show ?thesis using parse_argument_line [OF assms(1)] by simp
qed

theorem request_roundtrip_witness:
  "\<exists>line. getline (CHR ''t'' # print_json sample_facts @ EOL @ ''p'') = (line, ''p'') \<and>
     parse_argument line = Some sample_facts"
  using request_roundtrip [OF sample_printable, of "CHR ''t''" "''p''"] by auto

text \<open>
  C18: responses are frames. What the server writes for a value is one line, ended
  by the end of line and without control characters before it, and a client that
  parses the line gets the value back.
\<close>

theorem response_roundtrip:
  assumes "printable v"
  shows "\<exists>line. make_response v = line @ EOL \<and> (\<forall>c \<in> set line. 32 \<le> (of_char c :: nat)) \<and>
    document_Parse line = Some (Inr v)"
proof -
  have "\<forall>c \<in> set (print_json v). 32 \<le> (of_char c :: nat)"
    using plain_print(1) [of _ v] by (simp add: plain_char_def)
  then show ?thesis
    using make_response_print [OF assms] document_Parse_print [OF assms, of "[]"] by simp
qed

theorem response_roundtrip_witness:
  "\<exists>line. make_response sample_facts = line @ EOL \<and> document_Parse line = Some (Inr sample_facts)"
  using response_roundtrip [OF sample_printable] by blast

text \<open>
  C19: the writer of rapidjson, with its stack of levels and its prefixes, emits the
  text of the value's grammar.
\<close>

theorem writer_emits_print:
  assumes "printable v"
  shows "write_json v = Some (print_json v)"
  by (rule write_json_print [OF assms])

theorem writer_emits_print_witness:
  "write_json (JArray [JBool True, JArray [], JNull]) = Some ''[true,[],null]''"
  using writer_emits_print [of "JArray [JBool True, JArray [], JNull]"] by simp

text \<open>
  C20: the table-driven conversions of integers print the decimal representation,
  for every 64-bit value, the least negative one included.
\<close>

theorem i64toa_decimal: "i64toa w = dec_int (sint w)"
  by (rule i64toa_dec)

subsection \<open>Sessions and the server\<close>

text \<open>
  C21: one request at a time. In every reachable state of the server, a session
  has at most one of: a read under way, a job waiting for a thread, and a closure
  that will start its next read.
\<close>

theorem one_request_at_a_time:
  assumes "reachable sha256 env w"
  shows "reads w m + jobs_of m (w_writer w) + jobs_of m (w_reader w) + io_reads m (w_io w) \<le> 1"
  using server_invD(1) [OF reachable_server_inv [OF assms]] by (simp add: tokens_def)

theorem one_request_at_a_time_witness:
  "reads (accept (initial_world sample_env)) 0 = 1 \<and>
     reads (accept (initial_world sample_env)) 0 + jobs_of 0 (w_writer (accept (initial_world sample_env))) +
       jobs_of 0 (w_reader (accept (initial_world sample_env))) + io_reads 0 (w_io (accept (initial_world sample_env))) \<le> 1"
proof
  show "reads (accept (initial_world sample_env)) 0 = 1"
    by (simp add: reads_def accept_def initial_world_def Let_def read_request_def new_session_def)
  have "reachable (\<lambda>_. None) sample_env (accept (initial_world sample_env))"
    by (rule reachable.Step [OF reachable.Start step.Accept])
  from one_request_at_a_time [OF this]
  show "reads (accept (initial_world sample_env)) 0 + jobs_of 0 (w_writer (accept (initial_world sample_env))) +
       jobs_of 0 (w_reader (accept (initial_world sample_env))) + io_reads 0 (w_io (accept (initial_world sample_env))) \<le> 1" .
qed

text \<open>
  C22: the argument a handler will read cannot change while its job waits for the
  writer or a reader thread, whatever the io thread does meanwhile.
\<close>

theorem argument_stable_while_queued:
  assumes "reachable sha256 env w" and "step sha256 w w'" and "(c, m) \<in> set (w_writer w) \<union> set (w_reader w)"
  shows "arg_of w' m = arg_of w m"
  by (rule step_arg [OF reachable_server_inv [OF assms(1)] assms(2,3)])

theorem argument_stable_while_queued_witness:
  "(CFacts, 0) \<in> set (w_reader sample_world) \<and> arg_of (accept sample_world) 0 = ''f1'' @ [CHR 0x0D]"
proof -
  have q: "(CFacts, 0) \<in> set (w_writer sample_world) \<union> set (w_reader sample_world)"
    using sample_world_reader by simp
  show ?thesis
    using argument_stable_while_queued [OF sample_world_reachable step.Accept q] sample_world_arg
      sample_world_reader by simp
qed

text \<open>
  C23: whatever happens, what has been written to the socket of a session followed
  by its queue is the sequence of the messages handed to it, and at most one write
  is under way.
\<close>

theorem messages_in_order:
  assumes "reachable sha256 env w" and "w_sessions w m = Some s"
  shows "s_delivered s @ s_queue s = s_sent s \<and> s_writes s \<le> 1"
  using reachable_writes_inv [OF assms(1)] assms(2) by (auto simp: writes_inv_def write_inv_def)

theorem messages_in_order_witness:
  "\<exists>s. w_sessions (accept (initial_world sample_env)) 0 = Some s \<and> s_delivered s @ s_queue s = s_sent s \<and> s_writes s \<le> 1"
proof -
  have r: "reachable (\<lambda>_. None) sample_env (accept (initial_world sample_env))"
    by (rule reachable.Step [OF reachable.Start step.Accept])
  have "w_sessions (accept (initial_world sample_env)) 0 = Some (read_request (new_session 0))"
    by (simp add: accept_def initial_world_def Let_def)
  with messages_in_order [OF r this] show ?thesis by blast
qed



text \<open>
  C25: a session receives what is published on a namespace, by another session,
  exactly when its last operation on that channel was a join.
\<close>

theorem receivers_after_operations:
  "m \<in> publish_to n from (foldl (\<lambda>s (b, n, m). if b then join n m s else leave n m s) Map.empty ops) \<longleftrightarrow>
     m \<noteq> from \<and> (\<exists>ops1 ops2. ops = ops1 @ (True, n, m) # ops2 \<and> (False, n, m) \<notin> set ops2)"
  using ch.receivers_run [of m n "from" ops] by (simp add: ch.run_def)

text \<open>
  C26: the select request leaves the channel it should join, so in every reachable
  state only the channel of the namespace 0 has members, and the event of a
  transaction of another namespace changes no session.
\<close>

theorem events_only_on_namespace_0:
  assumes "reachable sha256 env w" and "ns \<noteq> 0"
  shows "publish ns m msg w = w"
  using reachable_members [OF assms] by (simp add: publish_def publish_to_def)

theorem events_only_on_namespace_0_witness:
  "publish 7 0 ''event'' (accept (initial_world sample_env)) = accept (initial_world sample_env)"
  using events_only_on_namespace_0 [OF reachable.Step [OF reachable.Start step.Accept]] by simp

subsection \<open>The ID lists and orders of LMDB\<close>





text \<open>
  C29: the three operations that append to an ID list keep its invariant and add
  the IDs at the end (a range in descending order), growing the block when
  needed; the only failure is ENOMEM, when the allocator refuses a block of fewer
  than 2^32 words more than the list has, and then the list is left as it was.
\<close>

theorem midl_appends:
  assumes "malloc_ok malloc" and "midl_inv b"
  shows "appended malloc (mdb_midl_append malloc b i) b [i] \<and>
    (midl_inv app \<and> unat (app ! 1) < 2 ^ 31 \<longrightarrow>
       appended malloc (mdb_midl_append_list malloc b app) b (midl_list app)) \<and>
    (unat n < 2 ^ 31 \<longrightarrow>
       appended malloc (mdb_midl_append_range malloc b i n) b
         (rev (map (\<lambda>k. i + of_nat k) [0..<unat n])))"
  using assms by (simp add: append_appended append_list_appended append_range_appended)

theorem midl_appends_witness:
  "appended small_heap (mdb_midl_append small_heap (block 1 [5]) 4) (block 1 [5]) [4] \<and>
   appended small_heap (mdb_midl_append_range small_heap (block 1 [5]) 4 2) (block 1 [5]) [5, 4]"
  using midl_appends [OF small_heap_ok, of "block 1 [5]" 4 "block 0 []" 2]
  by (simp add: midl_block upt_rec)

text \<open>
  C30: \<open>mdb_midl_xmerge\<close> merges a descending list into another one that has room
  for it: the result holds the IDs of both in descending order.
\<close>

theorem midl_xmerge_merges:
  assumes "length xs + unat (merge ! 0) < 2 ^ 64" and "length gap = unat (merge ! 0)"
    and "Suc (unat (merge ! 0)) \<le> length merge"
    and "descending xs" and "descending (take (unat (merge ! 0)) (tl merge))"
  shows "mdb_midl_xmerge (of_nat (length xs) # xs @ gap @ rest) merge =
    Some (of_nat (length xs + unat (merge ! 0)) #
      rev (sort (xs @ take (unat (merge ! 0)) (tl merge))) @ rest)"
  using assms by (rule xmerge_sorts)

theorem midl_xmerge_merges_witness:
  "mdb_midl_xmerge [2, 50, 10, 0, 0, 99] [2, 60, 20] = Some [4, 60, 50, 20, 10, 99]"
  using midl_xmerge_merges [of "[50, 10]" "[2, 60, 20]" "[0, 0]" "[99]"] by simp

text \<open>
  C31: \<open>mdb_mid2l_insert\<close> on a sorted array of pages: a duplicate is refused with
  -1, a full array with -2, both without a change, and otherwise the page is
  inserted at its place and the array stays sorted.
\<close>

theorem mid2l_insert_sorted:
  assumes "mid2l_inv ids"
  shows "mid i \<in> mid ` set (mid2l_list ids) \<and> mdb_mid2l_insert ids i = (- 1, ids) \<or>
    mid i \<notin> mid ` set (mid2l_list ids) \<and> length (mid2l_list ids) = MDB_IDL_UM_MAX \<and>
      mdb_mid2l_insert ids i = (- 2, ids) \<or>
    mid i \<notin> mid ` set (mid2l_list ids) \<and> length (mid2l_list ids) < MDB_IDL_UM_MAX \<and>
      (\<exists>ids'. mdb_mid2l_insert ids i = (0, ids') \<and> mid2l_inv ids' \<and>
        mid2l_list ids' = takeWhile (\<lambda>x. mid x < mid i) (mid2l_list ids) @ i #
          dropWhile (\<lambda>x. mid x < mid i) (mid2l_list ids))"
  using assms by (rule mid2l_insert_eq)

theorem mid2l_insert_sorted_witness:
  "\<exists>ids'. mdb_mid2l_insert two_pages \<lparr>mid = 20, mptr = ()\<rparr> = (0, ids') \<and>
     mid2l_list ids' = [\<lparr>mid = 10, mptr = ()\<rparr>, \<lparr>mid = 20, mptr = ()\<rparr>, \<lparr>mid = 30, mptr = ()\<rparr>]"
  using mid2l_insert_sorted [OF two_pages_inv, of "\<lparr>mid = 20, mptr = ()\<rparr>"]
  by (auto simp: two_pages_list MDB_IDL_UM_MAX_def)



subsection \<open>The tools around the server\<close>

text \<open>
  C33: when the database can be read, the listing of \<open>indices\<close> has the entries
  of the tree in key order, one after the other, each once; an entry that holds a
  string followed by the padding its key announces is listed with exactly the
  string, escaped where a byte is not printable.
\<close>

theorem dump_lists_entries:
  "dump env [] = concat (map dump_entry (me_tree env)) \<and>
   (\<forall>k d junk. sint (ck_pad k) = - int (length junk) \<and> junk \<noteq> [] \<longrightarrow>
      dump_entry (k, d @ junk) = print_custom_key k @ text_of d @ newline)"
  using dump_eq dump_entry_padded by blast

theorem dump_lists_entries_witness:
  "dump (\<lparr>me_tree = [(zero_key\<lparr>ck_pad := - 3\<rparr>, ''hello'' @ ''???'')], me_junk = \<lambda>_. CHR ''x''\<rparr>) [] =
     print_custom_key (zero_key\<lparr>ck_pad := - 3\<rparr>) @ text_of ''hello'' @ newline"
proof -
  let ?k = "zero_key\<lparr>ck_pad := - 3\<rparr>" and ?env = "\<lparr>me_tree = [(zero_key\<lparr>ck_pad := - 3\<rparr>, ''hello'' @ ''???'')], me_junk = \<lambda>_. CHR ''x''\<rparr>"
  have "sint (ck_pad ?k) = - int (length ''???'')" by simp
  then have "dump_entry (?k, ''hello'' @ ''???'') = print_custom_key ?k @ text_of ''hello'' @ newline"
    using dump_lists_entries [of ?env] by blast
  then show ?thesis using dump_lists_entries [of ?env] by simp
qed

text \<open>
  C34: the options the server starts with are in range: a port from 1 to 32767,
  from 1 to 128 reader threads, a positive map size, and a database file.
\<close>

theorem server_options_in_range:
  assumes "server_options args = Inr opts"
  shows "0 < sint (o_port opts) \<and> sint (o_port opts) \<le> 32767 \<and>
    1 \<le> o_readers opts \<and> o_readers opts \<le> 128 \<and> 0 < o_sz opts \<and> o_dbfile opts \<noteq> None"
  using assms by (rule server_options_ok)

theorem server_options_in_range_witness:
  "server_options [''--db'', ''f''] = Inr (default_options\<lparr>o_dbfile := Some ''f''\<rparr>) \<and>
   0 < sint (o_port (default_options\<lparr>o_dbfile := Some ''f''\<rparr>))"
proof -
  have e: "server_options [''--db'', ''f''] = Inr (default_options\<lparr>o_dbfile := Some ''f''\<rparr>)"
    by (simp add: server_options_def default_options_def)
  from server_options_in_range [OF this] e show ?thesis by blast
qed

subsection \<open>The pages of LMDB\<close>

text \<open>
  C35: on a leaf with room, \<open>mdb_node_add\<close> of a key and an item succeeds: the
  page stays in order (its nodes tile the space above \<open>mp_upper\<close>), the list
  of its nodes gets the new one at the given index and is otherwise unchanged, and
  reading the node gives the item back, from the node itself or, when it is too
  large for a node, from the overflow page the function allocated.
\<close>

theorem node_add_inserts:
  fixes p :: mdb_page and k d :: bytes
  assumes "page_inv psize p" and "IS_LEAF p" "\<not> IS_LEAF2 p" and "indx \<le> NUMKEYS p"
    and "length k < 2 ^ 16" "length d < 2 ^ 32"
    and "\<not> flags AND F_BIGDATA = F_BIGDATA" "\<not> flags AND MDB_RESERVE = MDB_RESERVE"
    and "node_room p nodemax k d"
    and "fits_inline nodemax k d \<or> (\<exists>pg m. page_new (OVPAGES (length d) psize) = Inr (pg, m) \<and> pg < 2 ^ 64)"
  shows "\<exists>p' ofp fl pl.
    mdb_node_add nodemax psize ksize2 page_new p indx (Some k) (Some d) pgno flags = Some (0, p', ofp) \<and>
    page_inv psize p' \<and> IS_LEAF p' \<and> \<not> IS_LEAF2 p' \<and>
    page_nodes p' = insert_at indx (fl, k, pl) (page_nodes p) \<and>
    mdb_node_read (overflow_get ofp) (mp_bytes p') (mp_ptrs p' ! indx) = Inr d"
  using assms by (rule node_add_stores)

theorem node_add_inserts_witness:
  "\<exists>p' ofp fl pl.
    mdb_node_add 40 64 0 (\<lambda>_. Inl 12) blank_page 0 (Some ''key'') (Some ''data'') 0 0 = Some (0, p', ofp) \<and>
    page_inv 64 p' \<and> IS_LEAF p' \<and> \<not> IS_LEAF2 p' \<and>
    page_nodes p' = insert_at 0 (fl, ''key'', pl) (page_nodes blank_page) \<and>
    mdb_node_read (overflow_get ofp) (mp_bytes p') (mp_ptrs p' ! 0) = Inr ''data''"
  by (rule node_add_inserts [OF blank_page_inv blank_page_leaf(1,2)])
    (simp_all add: blank_page_room blank_page_leaf(3))

text \<open>
  C36: without room, or when no overflow page can be had, \<open>mdb_node_add\<close> returns
  the error and the page is not touched; its assertions never fail on a page that
  is in order, and there is room exactly when \<open>mdb_leaf_size\<close>, which the
  callers compare with the free space, says so.
\<close>

theorem node_add_fails_cleanly:
  fixes p :: mdb_page and k d :: bytes
  assumes "page_inv psize p" and "IS_LEAF p" "\<not> IS_LEAF2 p"
    and "\<not> flags AND F_BIGDATA = F_BIGDATA" "\<not> flags AND MDB_RESERVE = MDB_RESERVE"
  shows "mdb_node_add nodemax psize ksize2 page_new p indx (Some k) (Some d) pgno flags \<noteq> None \<and>
    (\<not> node_room p nodemax k d \<longrightarrow>
       mdb_node_add nodemax psize ksize2 page_new p indx (Some k) (Some d) pgno flags = Some (MDB_PAGE_FULL, p, None)) \<and>
    (node_room p nodemax k d \<and> \<not> fits_inline nodemax k d \<and> page_new (OVPAGES (length d) psize) = Inl rc \<longrightarrow>
       mdb_node_add nodemax psize ksize2 page_new p indx (Some k) (Some d) pgno flags = Some (rc, p, None)) \<and>
    (node_room p nodemax k d \<longleftrightarrow> mdb_leaf_size nodemax k d \<le> SIZELEFT p)"
  unfolding node_add_cases [OF assms] leaf_size_room [OF page_invD(3) [OF assms(1)]]
  by (auto split: sum.split prod.split)

theorem node_add_fails_cleanly_witness:
  "mdb_node_add 90 64 0 (\<lambda>_. Inl 12) blank_page 0 (Some ''key'') (Some (replicate 40 (CHR ''x''))) 0 0 =
     Some (MDB_PAGE_FULL, blank_page, None)"
proof -
  have "\<not> node_room blank_page 90 ''key'' (replicate 40 (CHR ''x''))"
    by (simp add: node_room_def fits_inline_def EVEN_def blank_page_def)
  then show ?thesis
    using node_add_fails_cleanly [OF blank_page_inv blank_page_leaf(1,2), of 0 90 0 "\<lambda>_. Inl 12" 0 "''key''"] by simp
qed

text \<open>
  C37: \<open>mdb_node_del\<close> removes exactly the node at the index: the nodes below it
  move up by its size, their offsets follow, the page stays in order, and the other
  nodes are unchanged and keep their places.
\<close>

theorem node_del_removes:
  assumes "page_inv psize p" and "\<not> IS_LEAF2 p" and "indx < NUMKEYS p"
  shows "\<exists>p'. mdb_node_del p indx ksize = Some p' \<and> page_inv psize p' \<and>
    IS_LEAF p' = IS_LEAF p \<and> \<not> IS_LEAF2 p' \<and> page_nodes p' = remove_at indx (page_nodes p)"
  using assms by (rule node_del_refines)

theorem node_del_removes_witness:
  "\<exists>p'. mdb_node_del one_node_page 0 0 = Some p' \<and> page_inv 64 p' \<and>
    IS_LEAF p' = IS_LEAF one_node_page \<and> \<not> IS_LEAF2 p' \<and> page_nodes p' = remove_at 0 (page_nodes one_node_page)"
  by (rule node_del_removes [OF one_node_page_inv])

subsection \<open>More of the requests\<close>

text \<open>
  C38: the unique index. A value that another entity holds is refused; after an
  accepted assertion the index gives the value to the asserting entity; a retraction
  removes the value from the index, whichever entity holds it, and is refused when
  nobody does.
\<close>

theorem unique_index_guards:
  assumes "clive txn" and "tree_inv (mt_tree txn)" and "ns_ok ns" and "in_window (ck_a k)"
    and "length (ck_v k) = 32"
  shows "(\<forall>d. cmap txn (key_rank (unique_key ns k)) = Some d \<and> bytes_i64 d \<noteq> e \<longrightarrow>
      check_unique ns k e False txn = None) \<and>
    (\<forall>txn'. check_unique ns k e False txn = Some txn' \<longrightarrow>
      clive txn' \<and> cmap txn' (key_rank (unique_key ns k)) = Some (i64_bytes e)) \<and>
    (if cmap txn (key_rank (unique_key ns k)) = None then check_unique ns k e True txn = None
     else \<exists>txn'. check_unique ns k e True txn = Some txn' \<and>
       cmap txn' = (cmap txn)(key_rank (unique_key ns k) := None))"
  using check_unique_taken [OF assms(1,3-5)] check_unique_records [OF assms] check_unique_retract [OF assms(1,3-5)]
  by blast

theorem unique_index_guards_witness:
  "check_unique 0 (sample_fact 20 13 7 4 SORT_EATV) 20 False (begun unique_env) = None \<and>
   (\<exists>txn'. check_unique 0 (sample_fact 20 13 7 4 SORT_EATV) 20 True (begun unique_env) = Some txn')"
proof -
  let ?k = "sample_fact 20 13 7 4 SORT_EATV"
  have k: "in_window (ck_a ?k)" "length (ck_v ?k) = 32" "ns_ok 0"
    by (simp_all add: sample_fact_def in_window_def ns_ok_def)
  have "cmap (begun unique_env) (key_rank (unique_key 0 ?k)) = Some (i64_bytes 12)" by (rule unique_env_entry)
  moreover have "bytes_i64 (i64_bytes 12) \<noteq> 20" by simp
  ultimately show ?thesis
    using unique_index_guards [OF begun_live [OF unique_env_inv] _ k(3,1,2), of 20] unique_env_inv by auto
qed





text \<open>
  C12: the store on pages. On a well-formed tree of height below 32, whose branch keys
  separate their children, every read operation of a cursor, wherever it is, answers
  on the pages as on the flat list of the entries and ends on the same entry, and
  \<open>mdb_get\<close> finds the same item. The assertions on the way never fail.
\<close>

theorem pages_implement_store:
  assumes "tree_ok key_rank key_ok ptxn root H" and "cursor_for ptxn root H mc pos" and "key_ok key"
    and "mt_tree txn = entries ptxn H root" and "\<not> mt_error txn"
  shows "(case mdb_cursor_get cmp txn pos key op of
      Inl rc \<Rightarrow> \<exists>mc'. mdb_cursor_get_pages cmp ptxn Inr mc key op = Some (Inl rc, mc')
    | Inr (i, e) \<Rightarrow> \<exists>mc'. mdb_cursor_get_pages cmp ptxn Inr mc key op = Some (Inr e, mc') \<and>
        cursor_for ptxn root H mc' (Some i)) \<and>
    mdb_get_pages cmp ptxn Inr key = Some (mdb_get cmp txn key)"
  using comparator.cursor_get_pages [OF ck.comparator_axioms assms]
    comparator.get_pages [OF ck.comparator_axioms assms(1,3-5)] by blast

theorem pages_implement_store_witness:
  "mdb_get_pages cmp sample_pages Inr (fill_meta_key zero_key 0 META_ID) =
     Some (mdb_get cmp (begun sample_env) (fill_meta_key zero_key 0 META_ID))"
proof -
  have "key_ok (fill_meta_key zero_key 0 META_ID)" by (intro key_inv_ok sample_metas_inv) (simp add: in_window_def)
  moreover have "mt_tree (begun sample_env) = entries sample_pages 1 sample_root" 
    by (simp only: begun_tree sample_entries_pages)
  moreover have "\<not> mt_error (begun sample_env)" by (simp add: begun_def)
  ultimately show ?thesis using pages_implement_store [OF sample_pages_ok new_cursor_for] by blast
qed

text \<open>
  C14: the pages \<open>mdb_page_alloc\<close> hands out are safe to write to. In a transaction whose
  pages in use and free pages are disjoint, with fuel for more than the records of
  the free-page database, the call returns. Either it fails with the map full or without memory,
  sets the error flag and writes to no page; or it hands out \<open>num\<close> consecutive pages that
  are not in use: pages behind the end of the file, pages that were already reclaimed, or pages freed by
  a transaction older than the snapshot of every reader. No other page is written
  to, the page is on the dirty list, and the invariant holds with the new pages in use.
\<close>

theorem page_alloc_safe:
  assumes "malloc_ok malloc" and "alloc_inv fp used E txn" and "0 < num" "num < 2 ^ 31"
    and "num = 1 \<longrightarrow> w_loose_pgs txn = []" and "w_dirty_room txn \<noteq> 0" and "length E < fuel"
  shows "\<exists>r txn'. mdb_page_alloc malloc fuel num txn = Some (r, txn') \<and>
    (case r of
       Inl rc \<Rightarrow> w_error txn' \<and> w_map txn' = w_map txn \<and>
         (rc = MDB_MAP_FULL \<and> me_maxpg txn \<le> w_next_pgno txn + of_nat num \<or> rc = ENOMEM \<and> (\<exists>n. malloc n = None))
     | Inr pgno \<Rightarrow> alloc_inv fp (used \<union> page_range pgno num) E txn' \<and> page_range pgno num \<inter> used = {} \<and>
         dirty_pages txn' = dirty_pages txn @ [pgno] \<and> (\<forall>pg. pg \<noteq> pgno \<longrightarrow> w_map txn' pg = w_map txn pg) \<and>
         (pgno = w_next_pgno txn \<and> w_next_pgno txn' = pgno + of_nat num \<or>
          w_next_pgno txn' = w_next_pgno txn \<and> (\<forall>pg \<in> page_range pgno num. pg \<in> set (head_list txn) \<or>
            (\<exists>(t, freed) \<in> set E. pg \<in> set freed \<and> (\<forall>s \<in> snapshots txn. t < s)))))"
  using page_alloc_spec [OF assms]
proof (elim disjE exE conjE)
  fix pgno txn'
  assume a: "mdb_page_alloc malloc fuel num txn = Some (Inr pgno, txn')" "allocated fp used E num txn pgno txn'"
  have "pg \<in> set (head_list txn) \<or> (\<exists>(t, freed) \<in> set E. pg \<in> set freed \<and> (\<forall>s \<in> snapshots txn. t < s))"
    if "pg \<in> reclaimable E txn" for pg
    using reclaimable_snapshots [OF that] .
  with a show ?thesis
    by (intro exI [of _ "Inr pgno"] exI [of _ txn']) (auto simp: allocated_def)
qed auto

theorem page_alloc_safe_witness:
  "\<exists>r txn'. mdb_page_alloc small_heap 2 2 sample_wtxn = Some (r, txn') \<and>
    (case r of
       Inl rc \<Rightarrow> rc = ENOMEM
     | Inr pgno \<Rightarrow> page_range pgno 2 \<inter> sample_used = {} \<and> (\<forall>pg. pg \<noteq> pgno \<longrightarrow> w_map txn' pg = sample_map pg))"
proof -
  have "w_dirty_room sample_wtxn \<noteq> 0" by (simp add: sample_wtxn_def MDB_IDL_UM_MAX_def)
  then show ?thesis
    using page_alloc_safe [OF small_heap_ok sample_alloc_inv _ _ _ _, of 2 2]
  proof (elim exE conjE meta_impE, goal_cases)
    case (6 r txn')
    then show ?case using sample_full by (cases r) (auto simp: sample_wtxn_def)
  qed simp_all
qed

text \<open>
  C13: copy on write. Touching the pages of a cursor, from the root of the tree to
  its leaf, returns. No page in use that was not dirty changes, the free-page database included, so
  the readers keep their snapshots, and the tree below the root, which may be a new page, holds what
  it held before. On success every page of the path is dirty, the cursor is again on the path to its
  leaf, a scan of the database reads the same entries, the pages that were copied are
  appended to the list of freed pages, and the invariant holds.
\<close>

theorem touch_copies_on_write:
  assumes "malloc_ok malloc" and "length E < fuel" and "touch_inv fp used E H mc txn"
    and "wc_snum mc = Suc H" and "length (midl_list (w_free_pgs txn)) + Suc H < 2 ^ 31"
  shows "\<exists>rc mc' others' txn' used'. mdb_cursor_touch malloc fuel mc others txn = Some (rc, mc', others', txn') \<and>
    (\<forall>pg \<in> used. \<not> page_dirtied txn pg \<longrightarrow> w_map txn' pg = w_map txn pg) \<and>
    decode (w_map txn') H (w_roots txn' (wc_dbi mc)) = decode (w_map txn) H (w_roots txn (wc_dbi mc)) \<and>
    (rc \<noteq> 0 \<and> w_error txn' \<or>
     rc = 0 \<and> touch_inv fp used' E H mc' txn' \<and> used \<subseteq> used' \<and>
       (\<forall>i \<le> H. page_dirtied txn' (wc_pg mc' ! i)) \<and>
       db_entries txn' (wc_dbi mc') H = db_entries txn (wc_dbi mc) H \<and>
       midl_list (w_free_pgs txn') = midl_list (w_free_pgs txn) @
         filter (\<lambda>pg. \<not> page_dirtied txn pg) (take (Suc H) (wc_pg mc)))"
proof -
  obtain rc mc' others' txn' used' where
    t: "mdb_cursor_touch malloc fuel mc others txn = Some (rc, mc', others', txn')"
      "cow_rel used H (wc_dbi mc) txn txn'"
      "rc \<noteq> 0 \<and> w_error txn' \<or>
       rc = 0 \<and> touch_inv fp used' E H mc' txn' \<and> used \<subseteq> used' \<and> wc_dbi mc' = wc_dbi mc \<and> (\<forall>i \<le> H. page_dirtied txn' (wc_pg mc' ! i)) \<and>
         midl_list (w_free_pgs txn') = midl_list (w_free_pgs txn) @ clean_pages 0 H mc txn"
    using cursor_touch_spec [OF assms] by blast
  have "db_entries txn' (wc_dbi mc') H = db_entries txn (wc_dbi mc) H" if "touch_inv fp used' E H mc' txn'" "wc_dbi mc' = wc_dbi mc"
    using touch_inv_entries [OF that(1)] touch_inv_entries [OF assms(3)] t(2) that(2) by (simp add: cow_rel_def)
  then show ?thesis
    using t by (intro exI [of _ rc] exI [of _ mc'] exI [of _ others'] exI [of _ txn'] exI [of _ used'])
      (auto simp: cow_rel_def clean_pages_def)
qed

theorem touch_copies_on_write_witness:
  "\<exists>rc mc' others' txn' used'. mdb_cursor_touch small_heap 2 sample_wcursor [] sample_wtxn = Some (rc, mc', others', txn') \<and>
    (\<forall>pg \<in> sample_used. w_map txn' pg = sample_map pg) \<and>
    (rc = 0 \<longrightarrow> touch_inv {2} used' sample_free 1 mc' txn' \<and> midl_list (w_free_pgs txn') = [3, 5])"
proof -
  have c: "\<not> page_dirtied sample_wtxn pg" for pg by (rule sample_clean)
  have l: "midl_list (w_free_pgs sample_wtxn) = []" by (simp add: sample_wtxn_def midl_list_def)
  have m: "w_map sample_wtxn = sample_map" by (simp add: sample_wtxn_def)
  have p: "take (Suc 1) (wc_pg sample_wcursor) = [3, 5]" by (simp add: sample_wcursor_def)
  show ?thesis
    using touch_copies_on_write [OF small_heap_ok _ sample_touch_inv, of 2 "[]"]
    unfolding l m p by (simp add: c sample_wcursor_def) blast
qed

end
